(* ===== verification/Prelude.thy ===== *)
theory Prelude
  imports Main "HOL-Library.Word"
begin

section \<open>Shared vocabulary\<close>

text \<open>
  The machine-integer and byte types every component uses, the collections of facts the
  component theories fill and use, and the two things every stateful component needs: a run
  of a deterministic machine over a list of events, and the rule that an invariant every
  step keeps is kept by every run.
\<close>

type_synonym byte = "8 word"
type_synonym bytes = "byte list"

text \<open>
  A C++ \<open>int32_t\<close> and \<open>uint32_t\<close> are both 32 bits; the first is read with \<open>sint\<close>, the
  second with \<open>uint\<close>. The implicit conversion between them keeps the bits (C++20), so it is
  the identity on \<open>32 word\<close>.
\<close>

type_synonym int8 = "8 word"
type_synonym int32 = "32 word"
type_synonym uint32 = "32 word"

named_theorems handler_defs
  \<open>definitions of operations that are unfolded when a handler is executed\<close>

subsection \<open>Runs of a deterministic machine\<close>

fun run_events :: "('s \<Rightarrow> 'e \<Rightarrow> 's) \<Rightarrow> 's \<Rightarrow> 'e list \<Rightarrow> 's" where
  "run_events f s [] = s"
| "run_events f s (e # es) = run_events f (f s e) es"

lemma run_events_append [simp]:
  "run_events f s (xs @ ys) = run_events f (run_events f s xs) ys"
  by (induction xs arbitrary: s) auto

locale kept_by_steps =
  fixes step :: "'s \<Rightarrow> 'e \<Rightarrow> 's"
    and inv :: "'s \<Rightarrow> bool"
  assumes step_keeps: "inv s \<Longrightarrow> inv (step s e)"
begin

lemma run_keeps: "inv s \<Longrightarrow> inv (run_events step s es)"
  by (induction es arbitrary: s) (auto simp: step_keeps)

end

subsection \<open>Computations that may throw\<close>

text \<open>
  A C++ call that reads and writes a context \<open>'c\<close> and either returns or throws: a function
  from the context to a result and the context it leaves, in which \<open>Inl\<close> carries the
  exception. State written before a throw stays written, as in the code.
\<close>

type_synonym ('c, 'x, 'a) throwing = "'c \<Rightarrow> ('x + 'a) \<times> 'c"

definition returning :: "'a \<Rightarrow> ('c, 'x, 'a) throwing" where
  "returning a = (\<lambda>c. (Inr a, c))"

definition throwing :: "'x \<Rightarrow> ('c, 'x, 'a) throwing" where
  "throwing x = (\<lambda>c. (Inl x, c))"

definition and_then ::
  "('c, 'x, 'a) throwing \<Rightarrow> ('a \<Rightarrow> ('c, 'x, 'b) throwing) \<Rightarrow> ('c, 'x, 'b) throwing" where
  "and_then m f = (\<lambda>c. case m c of (Inl x, c') \<Rightarrow> (Inl x, c') | (Inr a, c') \<Rightarrow> f a c')"

definition lift_result :: "'x + 'a \<Rightarrow> ('c, 'x, 'a) throwing" where
  "lift_result r = (\<lambda>c. (r, c))"

lemma returning_apply [simp]: "returning a c = (Inr a, c)"
  by (simp add: returning_def)

lemma throwing_apply [simp]: "throwing x c = (Inl x, c)"
  by (simp add: throwing_def)

lemma lift_result_apply [simp]: "lift_result r c = (r, c)"
  by (simp add: lift_result_def)

lemma and_then_apply:
  "and_then m f c = (case m c of (Inl x, c') \<Rightarrow> (Inl x, c') | (Inr a, c') \<Rightarrow> f a c')"
  by (simp add: and_then_def)

lemma and_then_simps [simp]:
  "m c = (Inl x, c') \<Longrightarrow> and_then m f c = (Inl x, c')"
  "m c = (Inr a, c') \<Longrightarrow> and_then m f c = f a c'"
  by (simp_all add: and_then_apply)

subsection \<open>Words read as integers\<close>

lemma word_of_sint32 [simp]: "word_of_int (sint (w :: 32 word)) = w"
  by simp

lemma sint32_range: "- (2 ^ 31) \<le> sint (w :: 32 word)" "sint (w :: 32 word) < 2 ^ 31"
  using sint_greater_eq [of w] sint_less [of w] by simp_all

lemma id_fits_int64 [simp]:
  "- 9223372036854775808 \<le> uint (w :: 32 word)" "uint (w :: 32 word) < 18446744073709551616"
  "- 9223372036854775808 \<le> sint (w :: 32 word)" "sint (w :: 32 word) < 18446744073709551616"
  using uint_bounded [of w] sint_greater_eq [of w] sint_less [of w]
  by (simp_all add: order_trans [of _ 0])

lemma uint32_range: "0 \<le> uint (w :: 32 word)" "uint (w :: 32 word) < 2 ^ 32"
  using uint_bounded [of w] by simp_all

end
