(* ===== verification/CppFormat.thy ===== *)
theory CppFormat
  imports Prelude
begin

section \<open>std::format\<close>

text \<open>
  The replacement fields of \<open>std::format\<close> that the program uses: \<open>{}\<close> on integers and on
  strings (a string is copied), \<open>{0:04x}\<close> on a \<open>uint16_t\<close> and \<open>{0:<16}\<close> on a string.
\<close>

definition digit_char :: "nat \<Rightarrow> char" where
  "digit_char d = (if d < 10 then char_of (48 + d) else char_of (87 + d))"

fun fmt_nat :: "nat \<Rightarrow> string" where
  "fmt_nat n = (if n < 10 then [digit_char n]
                else fmt_nat (n div 10) @ [digit_char (n mod 10)])"

declare fmt_nat.simps [simp del]

definition fmt_int :: "int \<Rightarrow> string" where
  "fmt_int i = (if i < 0 then CHR ''-'' # fmt_nat (nat (- i)) else fmt_nat (nat i))"

fun fmt_hex :: "nat \<Rightarrow> string" where
  "fmt_hex n = (if n < 16 then [digit_char n]
                else fmt_hex (n div 16) @ [digit_char (n mod 16)])"

declare fmt_hex.simps [simp del]

definition pad_left :: "nat \<Rightarrow> char \<Rightarrow> string \<Rightarrow> string" where
  "pad_left w c s = replicate (w - length s) c @ s"

definition pad_right :: "nat \<Rightarrow> char \<Rightarrow> string \<Rightarrow> string" where
  "pad_right w c s = s @ replicate (w - length s) c"

definition fmt_04x :: "16 word \<Rightarrow> string" where
  "fmt_04x w = pad_left 4 (CHR ''0'') (fmt_hex (unat w))"

text \<open>The apostrophe of the message texts.\<close>

definition quote :: string where
  "quote = [CHR 0x27]"

subsection \<open>Decimal numbers can be read back\<close>

definition digit_value :: "char \<Rightarrow> nat" where
  "digit_value c = (if (of_char c :: nat) < 58 then of_char c - 48 else of_char c - 87)"

lemma digit_value_digit_char [simp]: "d < 36 \<Longrightarrow> digit_value (digit_char d) = d"
  by (simp add: digit_value_def digit_char_def)

definition read_digits :: "nat \<Rightarrow> string \<Rightarrow> nat" where
  "read_digits b s = foldl (\<lambda>n c. b * n + digit_value c) 0 s"

lemma read_fmt_nat [simp]: "read_digits 10 (fmt_nat n) = n"
proof (induction n rule: fmt_nat.induct)
  case (1 n)
  show ?case
  proof (cases "n < 10")
    case True
    then show ?thesis by (simp add: fmt_nat.simps [of n] read_digits_def)
  next
    case False
    with "1.IH" have "read_digits 10 (fmt_nat (n div 10)) = n div 10" by simp
    with False show ?thesis by (simp add: fmt_nat.simps [of n] read_digits_def)
  qed
qed

lemma read_fmt_hex [simp]: "read_digits 16 (fmt_hex n) = n"
proof (induction n rule: fmt_hex.induct)
  case (1 n)
  show ?case
  proof (cases "n < 16")
    case True
    then show ?thesis by (simp add: fmt_hex.simps [of n] read_digits_def)
  next
    case False
    with "1.IH" have "read_digits 16 (fmt_hex (n div 16)) = n div 16" by simp
    with False show ?thesis by (simp add: fmt_hex.simps [of n] read_digits_def)
  qed
qed

lemma fmt_nat_inject [simp]: "fmt_nat m = fmt_nat n \<longleftrightarrow> m = n"
  by (metis read_fmt_nat)

lemma fmt_hex_length: "n < 16 ^ Suc k \<Longrightarrow> length (fmt_hex n) \<le> Suc k"
proof (induction k arbitrary: n)
  case 0
  then show ?case by (simp add: fmt_hex.simps)
next
  case (Suc k)
  then have "n div 16 < 16 ^ Suc k" by (simp add: less_mult_imp_div_less)
  then have "length (fmt_hex (n div 16)) \<le> Suc k" by (rule Suc.IH)
  then show ?case by (simp add: fmt_hex.simps [of n])
qed

lemma read_leading_zeros [simp]:
  "read_digits b (replicate k (CHR ''0'') @ s) = read_digits b s"
proof -
  have "foldl (\<lambda>n c. b * n + digit_value c) 0 (replicate k (CHR ''0'')) = (0 :: nat)"
    by (induction k) (simp_all add: digit_value_def)
  then show ?thesis by (simp add: read_digits_def)
qed

lemma fmt_04x_length: "length (fmt_04x w) = 4"
proof -
  have "unat w < 2 ^ LENGTH(16)" by (rule unsigned_less)
  then have "unat w < 16 ^ Suc 3" by simp
  then have "length (fmt_hex (unat w)) \<le> Suc 3" by (rule fmt_hex_length)
  then show ?thesis by (simp add: fmt_04x_def pad_left_def)
qed

lemma read_fmt_04x: "read_digits 16 (fmt_04x w) = unat w"
  by (simp add: fmt_04x_def pad_left_def)

lemma pad_right_length: "length (pad_right w c s) = max w (length s)"
  by (simp add: pad_right_def)

lemma pad_right_take: "take (length s) (pad_right w c s) = s"
  by (simp add: pad_right_def)

end
