(* ===== verification/FuncTraits.thy ===== *)
theory FuncTraits
  imports Prelude
begin

section \<open>Function traits (include/detail/func_traits.h)\<close>

text \<open>
  The compile-time description of a callable that \<open>Dispatcher::bind\<close> selects its overload
  with: result type, argument count, tuple of decayed argument types, and the two tags. C++
  types and callables are data here, a class template is a function from them, and a partial
  specialisation is an equation of that function.
\<close>

datatype cpptype =
    TVoid | TBool | TInt nat | TUInt nat | TFloat nat | TString | TObject
  | TVector cpptype | TTuple "cpptype list" | TClass string
  | TConst cpptype | TRef cpptype

subsection \<open>std::decay on parameter types\<close>

fun remove_reference :: "cpptype \<Rightarrow> cpptype" where
  "remove_reference (TRef t) = remove_reference t"
| "remove_reference t = t"

fun remove_const :: "cpptype \<Rightarrow> cpptype" where
  "remove_const (TConst t) = remove_const t"
| "remove_const t = t"

definition decay :: "cpptype \<Rightarrow> cpptype" where
  "decay t = remove_const (remove_reference t)"

subsection \<open>Tags\<close>

datatype args_kind = zero_arg | nonzero_arg

datatype result_kind = void_result | nonvoid_result

definition is_zero :: "nat \<Rightarrow> bool" where
  "is_zero N = (if N = 0 then True else False)"

text \<open>An index past the end of the tuple is a compile-time error: \<open>None\<close>.\<close>

definition nth_type :: "nat \<Rightarrow> cpptype list \<Rightarrow> cpptype option" where
  "nth_type N Types = (if N < length Types then Some (Types ! N) else None)"

fun arg_count_trait :: "nat \<Rightarrow> args_kind" where
  "arg_count_trait 0 = zero_arg"
| "arg_count_trait N = nonzero_arg"

fun result_trait :: "cpptype \<Rightarrow> result_kind" where
  "result_trait TVoid = void_result"
| "result_trait T = nonvoid_result"

subsection \<open>Callables\<close>

text \<open>
  \<open>FnPtr R Args\<close> is \<open>R(*)(Args...)\<close>, \<open>MemFn T R Args c\<close> is the pointer to member function
  \<open>R(T::*)(Args...)\<close>, const qualified when \<open>c\<close>, and \<open>Functor op\<close> is a class whose
  \<open>operator()\<close> has the type \<open>op\<close> (every lambda expression).
\<close>

datatype callable =
    FnPtr cpptype "cpptype list"
  | MemFn string cpptype "cpptype list" bool
  | Functor callable

record traits =
  result_type :: cpptype
  arg_count :: nat
  args_type :: "cpptype list"

record kind_info =
  args_kind :: args_kind
  result_kind :: result_kind

function func_traits :: "callable \<Rightarrow> traits" where
  "func_traits (Functor op) = func_traits op"
| "func_traits (MemFn T R Args c) = func_traits (FnPtr R Args)"
| "func_traits (FnPtr R Args) =
     \<lparr>result_type = R, arg_count = length Args, args_type = map decay Args\<rparr>"
  by pat_completeness auto
termination
  by (relation "measure (\<lambda>f. 2 * size f + (case f of MemFn _ _ _ _ \<Rightarrow> 1 | _ \<Rightarrow> 0))")
    (auto split: callable.splits)

function func_kind_info :: "callable \<Rightarrow> kind_info" where
  "func_kind_info (Functor op) = func_kind_info op"
| "func_kind_info (MemFn T R Args c) = func_kind_info (FnPtr R Args)"
| "func_kind_info (FnPtr R Args) =
     \<lparr>args_kind = arg_count_trait (length Args), result_kind = result_trait R\<rparr>"
  by pat_completeness auto
termination
  by (relation "measure (\<lambda>f. 2 * size f + (case f of MemFn _ _ _ _ \<Rightarrow> 1 | _ \<Rightarrow> 0))")
    (auto split: callable.splits)

definition is_zero_arg :: "callable \<Rightarrow> bool" where
  "is_zero_arg f = is_zero (arg_count (func_traits f))"

definition is_void_result :: "callable \<Rightarrow> bool" where
  "is_void_result f = (if result_type (func_traits f) = TVoid then True else False)"

subsection \<open>The tags agree with the traits\<close>

lemma arg_count_trait_zero: "arg_count_trait n = zero_arg \<longleftrightarrow> n = 0"
  by (cases n) auto

lemma result_trait_void: "result_trait t = void_result \<longleftrightarrow> t = TVoid"
  by (cases t) auto

lemma tag_equations:
  "arg_count_trait n = (if n = 0 then zero_arg else nonzero_arg)"
  "result_trait t = (if t = TVoid then void_result else nonvoid_result)"
  by (cases n; simp) (cases t; simp)

lemma remove_const_nonconst: "remove_const t \<noteq> TConst u"
  by (induction t) auto

lemma remove_reference_nonref: "remove_reference t \<noteq> TRef u"
  by (induction t) auto

lemma remove_const_id: "(\<And>u. t \<noteq> TConst u) \<Longrightarrow> remove_const t = t"
  by (cases t) auto

lemma remove_reference_id: "(\<And>u. t \<noteq> TRef u) \<Longrightarrow> remove_reference t = t"
  by (cases t) auto

lemma args_type_length: "length (args_type (func_traits f)) = arg_count (func_traits f)"
  by (induction f rule: func_traits.induct) auto

text \<open>The tag that selects an overload of bind is the one the traits of the callable
  describe: zero_arg exactly for an empty parameter list, void_result exactly for a void
  return type, whichever of the four forms (lambda, const or plain member function, function
  pointer) the callable has.\<close>

lemma kind_info_sound:
  "(args_kind (func_kind_info f) = zero_arg \<longleftrightarrow> is_zero_arg f) \<and>
   (result_kind (func_kind_info f) = void_result \<longleftrightarrow> is_void_result f)"
  by (induction f rule: func_kind_info.induct)
    (auto simp: is_zero_arg_def is_zero_def is_void_result_def arg_count_trait_zero
      result_trait_void)

end
