(* ===== verification/Msgpack.thy ===== *)
theory Msgpack
  imports FuncTraits
begin

section \<open>The msgpack library as a parameter\<close>

text \<open>
  msgpack-c is a third-party package, so none of its code is modelled. What is here is the
  MessagePack data model (the values a \<open>msgpack::object\<close> can hold), and a record of the
  library's functions that the program calls, which every definition that uses the library
  takes as its argument \<open>mp\<close>:
  \<^item> \<open>mp_pack\<close>: \<open>msgpack::pack\<close> into an \<open>sbuffer\<close>, as the bytes it appends;
  \<^item> \<open>mp_parse\<close>: one step of unpacking from a byte buffer, the common core of
    \<open>msgpack::unpack\<close> and \<open>unpacker::next\<close>;
  \<^item> \<open>mp_array_size\<close>: the read \<open>o.via.array.size\<close> of the union, which the program does
    without looking at the tag of \<open>o\<close>;
  \<^item> \<open>mp_as_call\<close>, \<open>mp_as_notification\<close>, \<open>mp_as_response\<close>: \<open>o.convert(t)\<close> for the three
    message tuples, \<open>None\<close> when it throws \<open>msgpack::type_error\<close>;
  \<^item> \<open>mp_as_args\<close>: \<open>o.convert(t)\<close> for the argument tuple of a bound function, the
    converted arguments kept as objects;
  \<^item> \<open>mp_moved\<close>: the contents of an \<open>sbuffer\<close> that was moved from;
  \<^item> \<open>mp_reserve\<close>: \<open>buffer_capacity()\<close> after \<open>unpacker::reserve_buffer\<close>;
  \<^item> the texts of its exceptions.
\<close>

datatype mobj =
    MNil | MBool bool | MInt int | MFloat "64 word" | MStr string | MBin bytes
  | MArray "mobj list" | MMap "(mobj \<times> mobj) list" | MExt int bytes

datatype parsed = Parsed mobj bytes | Insufficient | Malformed

record msgpack =
  mp_pack :: "mobj \<Rightarrow> bytes"
  mp_parse :: "bytes \<Rightarrow> parsed"
  mp_array_size :: "mobj \<Rightarrow> nat"
  mp_as_call :: "mobj \<Rightarrow> (int8 \<times> int32 \<times> string \<times> mobj) option"
  mp_as_notification :: "mobj \<Rightarrow> (int8 \<times> string \<times> mobj) option"
  mp_as_response :: "mobj \<Rightarrow> (uint32 \<times> uint32 \<times> mobj \<times> mobj) option"
  mp_as_args :: "cpptype list \<Rightarrow> mobj \<Rightarrow> mobj list option"
  mp_moved :: bytes
  mp_reserve :: "nat \<Rightarrow> nat \<Rightarrow> nat"
  mp_type_error :: string
  mp_parse_error :: string
  mp_insufficient_bytes :: string

subsection \<open>What the program relies on\<close>

text \<open>
  The sizes and integers the format can carry: lengths are 32-bit, integers lie between the
  least \<open>int64\<close> and the greatest \<open>uint64\<close>.
\<close>

fun packable :: "mobj \<Rightarrow> bool" where
  "packable (MInt i) = (- (2 ^ 63) \<le> i \<and> i < 2 ^ 64)"
| "packable (MStr s) = (length s < 2 ^ 32)"
| "packable (MBin b) = (length b < 2 ^ 32)"
| "packable (MArray xs) = (length xs < 2 ^ 32 \<and> (\<forall>x \<in> set xs. packable x))"
| "packable (MMap kvs) =
     (length kvs < 2 ^ 32 \<and> (\<forall>p \<in> set kvs. packable (fst p) \<and> packable (snd p)))"
| "packable (MExt t b) = (- 128 \<le> t \<and> t < 128 \<and> length b < 2 ^ 32)"
| "packable _ = True"

text \<open>
  Serialisation: what was packed is unpacked again and the bytes behind it are left; a proper
  prefix of a packed object is reported as incomplete; unpacking an object consumes input.
\<close>

definition codec_laws :: "msgpack \<Rightarrow> bool" where
  "codec_laws mp \<longleftrightarrow>
     (\<forall>ob r. packable ob \<longrightarrow> mp_parse mp (mp_pack mp ob @ r) = Parsed ob r) \<and>
     (\<forall>ob k. packable ob \<longrightarrow> k < length (mp_pack mp ob) \<longrightarrow>
        mp_parse mp (take k (mp_pack mp ob)) = Insufficient) \<and>
     (\<forall>bs ob r. mp_parse mp bs = Parsed ob r \<longrightarrow> length r < length bs)"

text \<open>
  Views: \<open>via.array.size\<close> is the length of an array (nothing is said of it on other
  objects), and a tuple is converted from an array of the same length whose elements have
  the tuple's types and ranges.
\<close>

definition view_laws :: "msgpack \<Rightarrow> bool" where
  "view_laws mp \<longleftrightarrow>
     (\<forall>xs. mp_array_size mp (MArray xs) = length xs) \<and>
     (\<forall>t i n a. - 128 \<le> t \<and> t < 128 \<and> - (2 ^ 31) \<le> i \<and> i < 2 ^ 31 \<longrightarrow>
        mp_as_call mp (MArray [MInt t, MInt i, MStr n, a]) =
          Some (word_of_int t, word_of_int i, n, a)) \<and>
     (\<forall>t n a. - 128 \<le> t \<and> t < 128 \<longrightarrow>
        mp_as_notification mp (MArray [MInt t, MStr n, a]) = Some (word_of_int t, n, a)) \<and>
     (\<forall>t i e r. 0 \<le> t \<and> t < 2 ^ 32 \<and> 0 \<le> i \<and> i < 2 ^ 32 \<longrightarrow>
        mp_as_response mp (MArray [MInt t, MInt i, e, r]) =
          Some (word_of_int t, word_of_int i, e, r))"

text \<open>
  Buffers: moving out of an \<open>sbuffer\<close> leaves it empty, and after \<open>reserve_buffer(n)\<close> the
  unpacker has room for at least \<open>n\<close> bytes.
\<close>

definition buffer_laws :: "msgpack \<Rightarrow> bool" where
  "buffer_laws mp \<longleftrightarrow> mp_moved mp = [] \<and> (\<forall>cap n. n \<le> mp_reserve mp cap n)"

lemma parse_pack:
  "codec_laws mp \<Longrightarrow> packable ob \<Longrightarrow> mp_parse mp (mp_pack mp ob @ r) = Parsed ob r"
  by (simp add: codec_laws_def)

lemma parse_pack_whole:
  "codec_laws mp \<Longrightarrow> packable ob \<Longrightarrow> mp_parse mp (mp_pack mp ob) = Parsed ob []"
  using parse_pack [of mp ob "[]"] by simp

lemma parse_prefix:
  "codec_laws mp \<Longrightarrow> packable ob \<Longrightarrow> k < length (mp_pack mp ob) \<Longrightarrow>
   mp_parse mp (take k (mp_pack mp ob)) = Insufficient"
  by (simp add: codec_laws_def)

lemma parse_consumes:
  "codec_laws mp \<Longrightarrow> mp_parse mp bs = Parsed ob r \<Longrightarrow> length r < length bs"
  by (simp add: codec_laws_def)

lemma pack_nonempty: "codec_laws mp \<Longrightarrow> packable ob \<Longrightarrow> mp_pack mp ob \<noteq> []"
  using parse_pack_whole [of mp ob] parse_consumes [of mp "mp_pack mp ob" ob "[]"] by auto

lemma parse_empty: "codec_laws mp \<Longrightarrow> mp_parse mp [] = Insufficient"
  using parse_prefix [of mp MNil 0] pack_nonempty [of mp MNil] by simp

lemma array_size_array [simp]: "view_laws mp \<Longrightarrow> mp_array_size mp (MArray xs) = length xs"
  by (simp add: view_laws_def)

lemma as_call_array:
  "view_laws mp \<Longrightarrow> - 128 \<le> t \<Longrightarrow> t < 128 \<Longrightarrow> - (2 ^ 31) \<le> i \<Longrightarrow> i < 2 ^ 31 \<Longrightarrow>
   mp_as_call mp (MArray [MInt t, MInt i, MStr n, a]) =
     Some (word_of_int t, word_of_int i, n, a)"
  by (simp add: view_laws_def)

lemma as_notification_array:
  "view_laws mp \<Longrightarrow> - 128 \<le> t \<Longrightarrow> t < 128 \<Longrightarrow>
   mp_as_notification mp (MArray [MInt t, MStr n, a]) = Some (word_of_int t, n, a)"
  by (simp add: view_laws_def)

lemma as_response_array:
  "view_laws mp \<Longrightarrow> 0 \<le> t \<Longrightarrow> t < 2 ^ 32 \<Longrightarrow> 0 \<le> i \<Longrightarrow> i < 2 ^ 32 \<Longrightarrow>
   mp_as_response mp (MArray [MInt t, MInt i, e, r]) =
     Some (word_of_int t, word_of_int i, e, r)"
  by (simp add: view_laws_def)

lemma moved_empty [simp]: "buffer_laws mp \<Longrightarrow> mp_moved mp = []"
  by (simp add: buffer_laws_def)

lemma reserve_enough: "buffer_laws mp \<Longrightarrow> n \<le> mp_reserve mp cap n"
  by (simp add: buffer_laws_def)

end
