(* ===== verification/Errors.thy ===== *)
theory Errors
  imports CppFormat Msgpack
begin

section \<open>Exceptions\<close>

text \<open>
  The exception classes of the program (include/detail/client_error.h,
  src/detail/client_error.cpp, include/rpc_error.h, src/rpc_error.cpp) and the type of
  everything a call can throw, in which the classes the catch clauses tell apart are
  different constructors.
\<close>

subsection \<open>rpc::detail::ClientError\<close>

datatype client_error_code = no_such_function | wrong_arity | protocol_error

fun client_error_value :: "client_error_code \<Rightarrow> 16 word" where
  "client_error_value no_such_function = 1"
| "client_error_value wrong_arity = 2"
| "client_error_value protocol_error = 4"

record client_error =
  ce_what :: string

definition ClientError :: "client_error_code \<Rightarrow> string \<Rightarrow> client_error" where
  "ClientError c msg =
     \<lparr>ce_what = ''client error C'' @ fmt_04x (client_error_value c) @ '': '' @ msg\<rparr>"

subsection \<open>rpc::RpcError, rpc::Timeout, rpc::SystemError\<close>

record rpc_error =
  re_what :: string
  re_func_name :: string
  re_obj_handle :: mobj

definition RpcError :: "string \<Rightarrow> string \<Rightarrow> mobj \<Rightarrow> rpc_error" where
  "RpcError what_arg func_name obj_handle =
     \<lparr>re_what = what_arg, re_func_name = func_name, re_obj_handle = obj_handle\<rparr>"

definition RpcError_func_name :: "rpc_error \<Rightarrow> string" where
  "RpcError_func_name e = re_func_name e"

definition RpcError_error :: "rpc_error \<Rightarrow> mobj" where
  "RpcError_error e = re_obj_handle e"

record timeout_error =
  to_what_arg :: string
  to_formatted :: string

definition Timeout :: "string \<Rightarrow> timeout_error" where
  "Timeout what_arg =
     \<lparr>to_what_arg = what_arg, to_formatted = ''rpc::timeout: '' @ what_arg\<rparr>"

definition Timeout_what :: "timeout_error \<Rightarrow> string" where
  "Timeout_what e = to_formatted e"

text \<open>
  \<open>SystemError\<close> inherits the constructors of \<open>std::system_error\<close> and its \<open>what()\<close> is the
  inherited text: the error code and that text.
\<close>

record system_error =
  se_code :: int
  se_text :: string

definition SystemError_what :: "system_error \<Rightarrow> string" where
  "SystemError_what e = se_text e"

subsection \<open>What a call can throw\<close>

text \<open>
  \<open>HandlerError\<close> and \<open>HandlerSpecResponse\<close> are the two empty tag classes of
  include/this\_handler.h; they do not derive from \<open>std::exception\<close>, and neither does
  \<open>OtherThrown\<close>. \<open>StdException\<close> carries the \<open>what()\<close> of any other standard exception.
\<close>

datatype thrown =
    ClientErr client_error
  | RpcErr rpc_error
  | TimeoutErr timeout_error
  | SystemErr system_error
  | StdException string
  | HandlerError
  | HandlerSpecResponse
  | OtherThrown

fun std_what :: "thrown \<Rightarrow> string option" where
  "std_what (ClientErr e) = Some (ce_what e)"
| "std_what (RpcErr e) = Some (re_what e)"
| "std_what (TimeoutErr e) = Some (Timeout_what e)"
| "std_what (SystemErr e) = Some (SystemError_what e)"
| "std_what (StdException w) = Some w"
| "std_what HandlerError = None"
| "std_what HandlerSpecResponse = None"
| "std_what OtherThrown = None"

text \<open>\<open>msgpack::unpack\<close> on a whole buffer: it throws when the buffer holds no object.\<close>

definition mp_unpack :: "msgpack \<Rightarrow> bytes \<Rightarrow> thrown + mobj" where
  "mp_unpack mp bs = (case mp_parse mp bs of
       Parsed ob r \<Rightarrow> Inr ob
     | Insufficient \<Rightarrow> Inl (StdException (mp_insufficient_bytes mp))
     | Malformed \<Rightarrow> Inl (StdException (mp_parse_error mp)))"

lemma unpack_pack [simp]:
  "codec_laws mp \<Longrightarrow> packable ob \<Longrightarrow> mp_unpack mp (mp_pack mp ob) = Inr ob"
  by (simp add: mp_unpack_def parse_pack_whole)

subsection \<open>Error texts can be told apart\<close>

lemma ClientError_what_append:
  "ce_what (ClientError c msg) = ''client error C'' @ fmt_04x (client_error_value c) @ '': '' @ msg"
  by (simp add: ClientError_def)

lemma client_error_value_inject [simp]:
  "client_error_value c = client_error_value d \<longleftrightarrow> c = d"
  by (cases c; cases d) auto

lemma fmt_04x_inject [simp]: "fmt_04x v = fmt_04x w \<longleftrightarrow> v = w"
  by (metis read_fmt_04x word_unat_eq_iff)

text \<open>The text of a client error determines the error: two errors with the same what()
  have the same code and the same message, because the code is always written with exactly
  four hexadecimal digits.\<close>

lemma client_error_text_determines:
  "ClientError c msg = ClientError d msg' \<longleftrightarrow> c = d \<and> msg = msg'"
  by (auto simp: ClientError_def append_eq_append_conv fmt_04x_length)

end
