(* ===== verification/MsgpackRef.thy ===== *)
theory MsgpackRef
  imports Msgpack
begin

section \<open>A codec that satisfies the msgpack laws\<close>

text \<open>
  The laws of the theory Msgpack are consistent: a small tag-length-value codec satisfies
  all of them. The witnesses of the theorems that assume the laws instantiate the msgpack
  parameter with it. It is not the msgpack wire format and models no code.
\<close>

definition enc_nat :: "nat \<Rightarrow> bytes" where
  "enc_nat n = replicate n 1 @ [0]"

fun dec_nat :: "bytes \<Rightarrow> (nat \<times> bytes) option" where
  "dec_nat [] = None"
| "dec_nat (b # bs) =
     (if b = 0 then Some (0, bs)
      else case dec_nat bs of None \<Rightarrow> None | Some (n, r) \<Rightarrow> Some (Suc n, r))"

lemma dec_enc_nat [simp]: "dec_nat (enc_nat n @ r) = Some (n, r)"
  by (induction n) (simp_all add: enc_nat_def)

lemma enc_nat_length [simp]: "length (enc_nat n) = Suc n"
  by (simp add: enc_nat_def)

definition enc_int :: "int \<Rightarrow> bytes" where
  "enc_int i = (if i < 0 then 1 else 0) # enc_nat (nat \<bar>i\<bar>)"

definition dec_int :: "bytes \<Rightarrow> (int \<times> bytes) option" where
  "dec_int bs = (case bs of [] \<Rightarrow> None
     | s # r \<Rightarrow> (case dec_nat r of None \<Rightarrow> None
         | Some (n, r') \<Rightarrow> Some (if s = 0 then int n else - int n, r')))"

lemma dec_enc_int [simp]: "dec_int (enc_int i @ r) = Some (i, r)"
  by (simp add: dec_int_def enc_int_def)

definition enc_bytes :: "bytes \<Rightarrow> bytes" where
  "enc_bytes b = enc_nat (length b) @ b"

definition dec_bytes :: "bytes \<Rightarrow> (bytes \<times> bytes) option" where
  "dec_bytes bs = (case dec_nat bs of None \<Rightarrow> None
     | Some (n, r) \<Rightarrow> if length r < n then None else Some (take n r, drop n r))"

lemma dec_enc_bytes [simp]: "dec_bytes (enc_bytes b @ r) = Some (b, r)"
  by (simp add: dec_bytes_def enc_bytes_def)

definition byte_of_char :: "char \<Rightarrow> byte" where
  "byte_of_char c = of_nat (of_char c)"

definition char_of_byte :: "byte \<Rightarrow> char" where
  "char_of_byte b = char_of (unat b)"

lemma char_of_byte_of_char [simp]: "char_of_byte (byte_of_char c) = c"
proof -
  have "unat (of_nat (of_char c) :: byte) = of_char c"
    by (simp add: unsigned_of_nat take_bit_eq_mod)
  then show ?thesis by (simp add: char_of_byte_def byte_of_char_def)
qed

fun enc_obj :: "mobj \<Rightarrow> bytes" where
  "enc_obj MNil = [0]"
| "enc_obj (MBool b) = [1, if b then 1 else 0]"
| "enc_obj (MInt i) = 2 # enc_int i"
| "enc_obj (MFloat w) = 3 # enc_nat (unat w)"
| "enc_obj (MStr s) = 4 # enc_bytes (map byte_of_char s)"
| "enc_obj (MBin b) = 5 # enc_bytes b"
| "enc_obj (MArray xs) = 6 # enc_nat (length xs) @ concat (map enc_obj xs)"
| "enc_obj (MMap kvs) =
     7 # enc_nat (length kvs) @ concat (map (\<lambda>p. enc_obj (fst p) @ enc_obj (snd p)) kvs)"
| "enc_obj (MExt t b) = 8 # enc_int t @ enc_bytes b"

definition opt_map :: "('a \<Rightarrow> 'b) \<Rightarrow> ('a \<times> bytes) option \<Rightarrow> ('b \<times> bytes) option" where
  "opt_map f r = map_option (\<lambda>(a, bs). (f a, bs)) r"

lemma opt_map_Some [simp]: "opt_map f (Some (a, bs)) = Some (f a, bs)"
  by (simp add: opt_map_def)

fun dec_obj :: "nat \<Rightarrow> bytes \<Rightarrow> (mobj \<times> bytes) option"
and dec_objs :: "nat \<Rightarrow> nat \<Rightarrow> bytes \<Rightarrow> (mobj list \<times> bytes) option"
and dec_pairs :: "nat \<Rightarrow> nat \<Rightarrow> bytes \<Rightarrow> ((mobj \<times> mobj) list \<times> bytes) option" where
  "dec_obj 0 bs = None"
| "dec_obj (Suc f) [] = None"
| "dec_obj (Suc f) (t # r) =
     (if t = 0 then Some (MNil, r)
      else if t = 1 then (case r of [] \<Rightarrow> None | b # r' \<Rightarrow> Some (MBool (b = 1), r'))
      else if t = 2 then opt_map MInt (dec_int r)
      else if t = 3 then opt_map (\<lambda>n. MFloat (of_nat n)) (dec_nat r)
      else if t = 4 then opt_map (\<lambda>b. MStr (map char_of_byte b)) (dec_bytes r)
      else if t = 5 then opt_map MBin (dec_bytes r)
      else if t = 6 then (case dec_nat r of None \<Rightarrow> None
        | Some (n, r') \<Rightarrow> opt_map MArray (dec_objs f n r'))
      else if t = 7 then (case dec_nat r of None \<Rightarrow> None
        | Some (n, r') \<Rightarrow> opt_map MMap (dec_pairs f n r'))
      else if t = 8 then (case dec_int r of None \<Rightarrow> None
        | Some (i, r') \<Rightarrow> opt_map (MExt i) (dec_bytes r'))
      else None)"
| "dec_objs f 0 bs = Some ([], bs)"
| "dec_objs 0 (Suc n) bs = None"
| "dec_objs (Suc f) (Suc n) bs = (case dec_obj f bs of None \<Rightarrow> None
     | Some (x, r) \<Rightarrow> opt_map (Cons x) (dec_objs f n r))"
| "dec_pairs f 0 bs = Some ([], bs)"
| "dec_pairs 0 (Suc n) bs = None"
| "dec_pairs (Suc f) (Suc n) bs = (case dec_obj f bs of None \<Rightarrow> None
     | Some (x, r) \<Rightarrow> (case dec_obj f r of None \<Rightarrow> None
         | Some (y, r') \<Rightarrow> opt_map (Cons (x, y)) (dec_pairs f n r')))"

lemma enc_obj_nonempty: "Suc 0 \<le> length (enc_obj ob)"
  by (cases ob) simp_all

text \<open>The length of an encoding is enough fuel for decoding it.\<close>

lemma dec_objs_enc:
  assumes "\<And>x r f. x \<in> set xs \<Longrightarrow> length (enc_obj x) \<le> f \<Longrightarrow>
      dec_obj f (enc_obj x @ r) = Some (x, r)"
    and "length (concat (map enc_obj xs)) < f"
  shows "dec_objs f (length xs) (concat (map enc_obj xs) @ r) = Some (xs, r)"
  using assms
proof (induction xs arbitrary: f)
  case Nil
  then show ?case by simp
next
  case (Cons x xs)
  from Cons.prems(2) obtain f' where f': "f = Suc f'" by (cases f) auto
  have "dec_obj f' (enc_obj x @ concat (map enc_obj xs) @ r)
      = Some (x, concat (map enc_obj xs) @ r)"
    using Cons.prems(2) f' by (intro Cons.prems(1)) auto
  moreover have "dec_objs f' (length xs) (concat (map enc_obj xs) @ r) = Some (xs, r)"
    using Cons.prems(2) f' enc_obj_nonempty [of x]
    by (intro Cons.IH Cons.prems(1)) (auto simp del: One_nat_def Suc_le_eq)
  ultimately show ?case using f' by simp
qed

lemma dec_pairs_enc:
  assumes "\<And>x y r f. (x, y) \<in> set kvs \<Longrightarrow> length (enc_obj x) \<le> f \<Longrightarrow>
      dec_obj f (enc_obj x @ r) = Some (x, r)"
    and "\<And>x y r f. (x, y) \<in> set kvs \<Longrightarrow> length (enc_obj y) \<le> f \<Longrightarrow>
      dec_obj f (enc_obj y @ r) = Some (y, r)"
    and "length (concat (map (\<lambda>p. enc_obj (fst p) @ enc_obj (snd p)) kvs)) < f"
  shows "dec_pairs f (length kvs)
      (concat (map (\<lambda>p. enc_obj (fst p) @ enc_obj (snd p)) kvs) @ r) = Some (kvs, r)"
  using assms
proof (induction kvs arbitrary: f)
  case Nil
  then show ?case by simp
next
  case (Cons p kvs)
  let ?e = "concat (map (\<lambda>p. enc_obj (fst p) @ enc_obj (snd p)) kvs) @ r"
  obtain x y where p: "p = (x, y)" by (cases p)
  from Cons.prems(3) obtain f' where f': "f = Suc f'" by (cases f) auto
  have "dec_obj f' (enc_obj x @ enc_obj y @ ?e) = Some (x, enc_obj y @ ?e)"
    using Cons.prems(3) f' p by (intro Cons.prems(1) [of x y]) auto
  moreover have "dec_obj f' (enc_obj y @ ?e) = Some (y, ?e)"
    using Cons.prems(3) f' p by (intro Cons.prems(2) [of x y]) auto
  moreover have "dec_pairs f' (length kvs) ?e = Some (kvs, r)"
  proof (rule Cons.IH)
    show "length (concat (map (\<lambda>p. enc_obj (fst p) @ enc_obj (snd p)) kvs)) < f'"
      using Cons.prems(3) f' p enc_obj_nonempty [of x] enc_obj_nonempty [of y] by simp
  qed (use Cons.prems(1,2) in \<open>meson list.set_intros(2)\<close>)+
  ultimately show ?case using f' p by simp
qed

lemma dec_enc_obj:
  "length (enc_obj ob) \<le> f \<Longrightarrow> dec_obj f (enc_obj ob @ r) = Some (ob, r)"
proof (induction ob arbitrary: f r)
  case (MArray xs)
  then obtain f' where f': "f = Suc f'" by (cases f) auto
  have "dec_objs f' (length xs) (concat (map enc_obj xs) @ r) = Some (xs, r)"
    using MArray f' by (intro dec_objs_enc) auto
  with f' show ?case by simp
next
  case (MMap kvs)
  then obtain f' where f': "f = Suc f'" by (cases f) auto
  have "dec_pairs f' (length kvs)
      (concat (map (\<lambda>p. enc_obj (fst p) @ enc_obj (snd p)) kvs) @ r) = Some (kvs, r)"
    using MMap f' by (intro dec_pairs_enc) fastforce+
  with f' show ?case by simp
qed (auto simp: gr0_conv_Suc Suc_le_eq comp_def map_idI dest!: less_imp_Suc_add)

subsection \<open>Framing\<close>

definition ref_pack :: "mobj \<Rightarrow> bytes" where
  "ref_pack ob = enc_nat (length (enc_obj ob)) @ enc_obj ob"

definition ref_parse :: "bytes \<Rightarrow> parsed" where
  "ref_parse bs = (case dec_nat bs of None \<Rightarrow> Insufficient
     | Some (n, r) \<Rightarrow>
         if length r < n then Insufficient
         else (case dec_obj n (take n r) of None \<Rightarrow> Malformed
             | Some (ob, r') \<Rightarrow> if r' = [] then Parsed ob (drop n r) else Malformed))"

lemma ref_parse_pack: "ref_parse (ref_pack ob @ r) = Parsed ob r"
  using dec_enc_obj [of ob "length (enc_obj ob)" "[]"]
  by (simp add: ref_parse_def ref_pack_def)

lemma dec_nat_ones: "dec_nat (replicate n 1) = None"
  by (induction n) auto

lemma ref_parse_prefix:
  assumes "k < length (ref_pack ob)"
  shows "ref_parse (take k (ref_pack ob)) = Insufficient"
proof (cases "k \<le> length (enc_obj ob)")
  case True
  then have "take k (ref_pack ob) = replicate k 1"
    by (simp add: ref_pack_def enc_nat_def min_def)
  then show ?thesis by (simp add: ref_parse_def dec_nat_ones)
next
  case False
  then have "take k (ref_pack ob)
      = enc_nat (length (enc_obj ob)) @ take (k - Suc (length (enc_obj ob))) (enc_obj ob)"
    by (simp add: ref_pack_def)
  moreover have "k - Suc (length (enc_obj ob)) < length (enc_obj ob)"
    using False assms by (simp add: ref_pack_def)
  ultimately show ?thesis by (simp add: ref_parse_def)
qed

lemma dec_nat_consumes: "dec_nat bs = Some (n, r) \<Longrightarrow> length r < length bs"
  by (induction bs arbitrary: n) (auto split: if_splits option.splits prod.splits
      intro: less_SucI)

lemma ref_parse_consumes:
  assumes "ref_parse bs = Parsed ob r"
  shows "length r < length bs"
proof -
  obtain n q where q: "dec_nat bs = Some (n, q)" "r = drop n q"
    using assms by (auto simp: ref_parse_def split: option.splits if_splits)
  then show ?thesis using dec_nat_consumes [OF q(1)] by simp
qed

definition as_int :: "int \<Rightarrow> int \<Rightarrow> mobj \<Rightarrow> int option" where
  "as_int lo hi ob = (case ob of MInt i \<Rightarrow> if lo \<le> i \<and> i < hi then Some i else None | _ \<Rightarrow> None)"

definition as_str :: "mobj \<Rightarrow> string option" where
  "as_str ob = (case ob of MStr s \<Rightarrow> Some s | _ \<Rightarrow> None)"

definition elements :: "mobj \<Rightarrow> mobj list" where
  "elements ob = (case ob of MArray xs \<Rightarrow> xs | _ \<Rightarrow> [])"

definition ref_as_call :: "mobj \<Rightarrow> (int8 \<times> int32 \<times> string \<times> mobj) option" where
  "ref_as_call ob = (case elements ob of
       [x, y, z, a] \<Rightarrow>
         Option.bind (as_int (- 128) 128 x) (\<lambda>t.
         Option.bind (as_int (- (2 ^ 31)) (2 ^ 31) y) (\<lambda>i.
         Option.bind (as_str z) (\<lambda>n. Some (word_of_int t, word_of_int i, n, a))))
     | _ \<Rightarrow> None)"

definition ref_as_notification :: "mobj \<Rightarrow> (int8 \<times> string \<times> mobj) option" where
  "ref_as_notification ob = (case elements ob of
       [x, z, a] \<Rightarrow>
         Option.bind (as_int (- 128) 128 x) (\<lambda>t.
         Option.bind (as_str z) (\<lambda>n. Some (word_of_int t, n, a)))
     | _ \<Rightarrow> None)"

definition ref_as_response :: "mobj \<Rightarrow> (uint32 \<times> uint32 \<times> mobj \<times> mobj) option" where
  "ref_as_response ob = (case elements ob of
       [x, y, e, r] \<Rightarrow>
         Option.bind (as_int 0 (2 ^ 32) x) (\<lambda>t.
         Option.bind (as_int 0 (2 ^ 32) y) (\<lambda>i.
           Some (word_of_int t, word_of_int i, e, r)))
     | _ \<Rightarrow> None)"

lemmas ref_view_defs =
  as_int_def as_str_def elements_def ref_as_call_def ref_as_notification_def
  ref_as_response_def

fun ref_array_size :: "mobj \<Rightarrow> nat" where
  "ref_array_size (MArray xs) = length xs"
| "ref_array_size (MMap kvs) = length kvs"
| "ref_array_size (MStr s) = length s"
| "ref_array_size (MBin b) = length b"
| "ref_array_size _ = 0"

definition ref_conforms :: "cpptype \<Rightarrow> mobj \<Rightarrow> bool" where
  "ref_conforms t ob = (case t of
       TBool \<Rightarrow> (\<exists>b \<in> {True, False}. ob = MBool b)
     | TInt n \<Rightarrow> as_int (- (2 ^ (n - 1))) (2 ^ (n - 1)) ob \<noteq> None
     | TUInt n \<Rightarrow> as_int 0 (2 ^ n) ob \<noteq> None
     | TString \<Rightarrow> as_str ob \<noteq> None
     | TObject \<Rightarrow> True
     | _ \<Rightarrow> False)"

definition ref_as_args :: "cpptype list \<Rightarrow> mobj \<Rightarrow> mobj list option" where
  "ref_as_args ts ob = (case ob of
       MArray xs \<Rightarrow> if list_all2 ref_conforms ts xs then Some xs else None
     | _ \<Rightarrow> None)"

definition ref_msgpack :: msgpack where
  "ref_msgpack =
     \<lparr>mp_pack = ref_pack, mp_parse = ref_parse, mp_array_size = ref_array_size,
      mp_as_call = ref_as_call, mp_as_notification = ref_as_notification,
      mp_as_response = ref_as_response, mp_as_args = ref_as_args, mp_moved = [],
      mp_reserve = max, mp_type_error = ''std::bad_cast'',
      mp_parse_error = ''parse error'', mp_insufficient_bytes = ''insufficient bytes''\<rparr>"

lemma ref_msgpack_simps:
  "mp_pack ref_msgpack = ref_pack"
  "mp_parse ref_msgpack = ref_parse"
  "mp_array_size ref_msgpack = ref_array_size"
  "mp_as_call ref_msgpack = ref_as_call"
  "mp_as_notification ref_msgpack = ref_as_notification"
  "mp_as_response ref_msgpack = ref_as_response"
  "mp_as_args ref_msgpack = ref_as_args"
  "mp_moved ref_msgpack = []"
  "mp_reserve ref_msgpack = max"
  "mp_type_error ref_msgpack = ''std::bad_cast''"
  by (simp_all add: ref_msgpack_def)

lemma ref_codec_laws [simp]: "codec_laws ref_msgpack"
  by (simp add: codec_laws_def ref_msgpack_simps ref_parse_pack ref_parse_prefix ref_parse_consumes)

lemma ref_view_laws [simp]: "view_laws ref_msgpack"
  by (simp add: view_laws_def ref_msgpack_simps ref_view_defs)

lemma ref_buffer_laws [simp]: "buffer_laws ref_msgpack"
  by (simp add: buffer_laws_def ref_msgpack_simps)

end
