(* ===== verification/Response.thy ===== *)
theory Response
  imports Errors MsgpackRef
begin

section \<open>Response (include/detail/response.h, src/detail/response.cpp)\<close>

text \<open>
  A response carries the id of the request it answers and two optional handles. A
  \<open>shared_ptr<object_handle>\<close> is \<open>None\<close> when null, else the object of the handle; the
  program never mutates a handle that two responses share. The log lines are not modelled.
\<close>

record response =
  r_id :: uint32
  r_error :: "mobj option"
  r_result :: "mobj option"
  r_empty :: bool

definition Response_default :: response where
  "Response_default = \<lparr>r_id = 0, r_error = None, r_result = None, r_empty = False\<rparr>"

text \<open>
  \<open>make_result\<close> for a packable value and its specialisation for a
  \<open>unique_ptr<object_handle>\<close>, whose handle is moved in; \<open>make_error\<close>.
\<close>

definition make_result :: "uint32 \<Rightarrow> mobj \<Rightarrow> response" where
  "make_result i result = Response_default\<lparr>r_id := i, r_result := Some result\<rparr>"

definition make_result_handle :: "uint32 \<Rightarrow> mobj \<Rightarrow> response" where
  "make_result_handle i result = Response_default\<lparr>r_id := i, r_result := Some result\<rparr>"

definition make_error :: "uint32 \<Rightarrow> mobj \<Rightarrow> response" where
  "make_error i err = Response_default\<lparr>r_id := i, r_error := Some err\<rparr>"

definition response_empty :: response where
  "response_empty = Response_default\<lparr>r_empty := True\<rparr>"

definition is_empty :: "response \<Rightarrow> bool" where
  "is_empty r = r_empty r"

definition capture_result :: "mobj \<Rightarrow> response \<Rightarrow> response" where
  "capture_result result r =
     (let r' = (if r_result r = None then r\<lparr>r_result := Some MNil\<rparr> else r)
      in r'\<lparr>r_result := Some result\<rparr>)"

definition capture_error :: "mobj \<Rightarrow> response \<Rightarrow> response" where
  "capture_error err r =
     (let r' = (if r_error r = None then r\<lparr>r_error := Some MNil\<rparr> else r)
      in r'\<lparr>r_error := Some err\<rparr>)"

text \<open>The tuple \<open>response_type(1, id_, error or nil, result or nil)\<close> and its bytes.\<close>

definition response_obj :: "response \<Rightarrow> mobj" where
  "response_obj r = MArray
     [MInt 1, MInt (uint (r_id r)),
      (case r_error r of None \<Rightarrow> MNil | Some e \<Rightarrow> e),
      (case r_result r of None \<Rightarrow> MNil | Some v \<Rightarrow> v)]"

definition response_data :: "msgpack \<Rightarrow> response \<Rightarrow> bytes" where
  "response_data mp r = mp_pack mp (response_obj r)"

text \<open>The constructor from a received object; the conversion throws on a wrong shape.\<close>

definition Response_of :: "msgpack \<Rightarrow> mobj \<Rightarrow> thrown + response" where
  "Response_of mp ob = (case mp_as_response mp ob of
       None \<Rightarrow> Inl (StdException (mp_type_error mp))
     | Some (v, i, err_obj, res) \<Rightarrow>
         Inr (Response_default\<lparr>r_id := i,
           r_error := (if err_obj \<noteq> MNil then Some err_obj else None),
           r_result := Some res\<rparr>))"

lemmas response_defs [handler_defs] =
  Response_default_def make_result_def make_result_handle_def make_error_def
  response_empty_def is_empty_def capture_result_def capture_error_def

lemma response_fields [simp]:
  "r_id (make_result i v) = i" "r_id (make_result_handle i v) = i" "r_id (make_error i v) = i"
  "r_error (make_result i v) = None" "r_error (make_result_handle i v) = None"
  "r_error (make_error i v) = Some v"
  "r_result (make_result i v) = Some v" "r_result (make_result_handle i v) = Some v"
  "r_result (make_error i v) = None"
  "\<not> r_empty (make_result i v)" "\<not> r_empty (make_result_handle i v)" "\<not> r_empty (make_error i v)"
  "r_empty response_empty" "r_error response_empty = None" "r_result response_empty = None"
  "r_id response_empty = 0"
  by (simp_all add: response_defs)

lemma capture_fields [simp]:
  "r_result (capture_result v r) = Some v" "r_error (capture_result v r) = r_error r"
  "r_id (capture_result v r) = r_id r" "r_empty (capture_result v r) = r_empty r"
  "r_error (capture_error v r) = Some v" "r_result (capture_error v r) = r_result r"
  "r_id (capture_error v r) = r_id r" "r_empty (capture_error v r) = r_empty r"
  by (simp_all add: response_defs Let_def)

subsection \<open>What the client reads back\<close>

text \<open>
  The response a client builds from the packed data of a response: an absent error and a nil
  error cannot be told apart, and an absent result is read as nil.
\<close>

definition received :: "response \<Rightarrow> response" where
  "received r = r\<lparr>r_error := (case r_error r of Some e \<Rightarrow> if e = MNil then None else Some e | None \<Rightarrow> None),
     r_result := Some (case r_result r of None \<Rightarrow> MNil | Some v \<Rightarrow> v), r_empty := False\<rparr>"

lemma received_fields [simp]:
  "r_id (received r) = r_id r"
  "r_error (received r) = (case r_error r of Some e \<Rightarrow> if e = MNil then None else Some e | None \<Rightarrow> None)"
  "r_result (received r) = Some (case r_result r of None \<Rightarrow> MNil | Some v \<Rightarrow> v)"
  by (simp_all add: received_def)

lemma Response_of_obj:
  "view_laws mp \<Longrightarrow> Response_of mp (response_obj r) = Inr (received r)"
  using uint32_range [of "r_id r"]
  by (auto simp: Response_of_def response_obj_def as_response_array received_def
      Response_default_def split: option.splits)

lemma packable_response_obj:
  "packable (response_obj r) \<longleftrightarrow>
     (\<forall>e. r_error r = Some e \<longrightarrow> packable e) \<and> (\<forall>v. r_result r = Some v \<longrightarrow> packable v)"
  by (auto simp: response_obj_def split: option.splits)

text \<open>C25. A response survives the wire: unpacking the data of a response and constructing a
  Response from the object gives the same id, the same error unless it was nil, and the same
  result with an absent one read as nil. Bytes that follow it in the stream are left over.\<close>

theorem response_roundtrip:
  assumes "codec_laws mp" and "view_laws mp" and "packable (response_obj r)"
  shows "\<exists>ob. mp_parse mp (response_data mp r @ rest) = Parsed ob rest \<and>
           Response_of mp ob = Inr (received r)"
  using assms by (simp add: response_data_def parse_pack Response_of_obj)

theorem response_roundtrip_witness:
  "\<exists>ob. mp_parse ref_msgpack (response_data ref_msgpack (make_error 4294967295 (MStr ''no'')) @ [7])
        = Parsed ob [7] \<and>
      Response_of ref_msgpack ob = Inr (received (make_error 4294967295 (MStr ''no'')))"
  by (rule response_roundtrip) (simp_all add: packable_response_obj)

end
