(* ===== verification/Protocol.thy ===== *)
theory Protocol
  imports Response
begin

section \<open>Requests as the client builds them (include/client.h, include/client.inl)\<close>

text \<open>
  The two request kinds, the message tuples of \<open>Client::async_call\<close> and \<open>Client::notify\<close>
  and their packed buffers. The arguments are given as the objects they are packed to.
\<close>

datatype request_type = call | notification

fun request_value :: "request_type \<Rightarrow> int" where
  "request_value call = 0"
| "request_value notification = 2"

definition call_obj :: "int32 \<Rightarrow> string \<Rightarrow> mobj list \<Rightarrow> mobj" where
  "call_obj idx func_name args =
     MArray [MInt (request_value call), MInt (sint idx), MStr func_name, MArray args]"

definition notify_obj :: "string \<Rightarrow> mobj list \<Rightarrow> mobj" where
  "notify_obj func_name args =
     MArray [MInt (request_value notification), MStr func_name, MArray args]"

definition packable_call :: "string \<Rightarrow> mobj list \<Rightarrow> bool" where
  "packable_call func_name args \<longleftrightarrow>
     length func_name < 2 ^ 32 \<and> length args < 2 ^ 32 \<and> (\<forall>a \<in> set args. packable a)"

lemma packable_call_obj [simp]: "packable (call_obj idx f args) \<longleftrightarrow> packable_call f args"
  by (simp add: call_obj_def packable_call_def)

lemma packable_notify_obj [simp]: "packable (notify_obj f args) \<longleftrightarrow> packable_call f args"
  by (simp add: notify_obj_def packable_call_def)

lemma request_array_sizes [simp]:
  "view_laws mp \<Longrightarrow> mp_array_size mp (call_obj idx f args) = 4"
  "view_laws mp \<Longrightarrow> mp_array_size mp (notify_obj f args) = 3"
  by (simp_all add: call_obj_def notify_obj_def)

lemma as_call_obj [simp]:
  "view_laws mp \<Longrightarrow> mp_as_call mp (call_obj idx f args) = Some (0, idx, f, MArray args)"
  using sint32_range [of idx] by (simp add: call_obj_def as_call_array)

lemma as_notification_obj [simp]:
  "view_laws mp \<Longrightarrow> mp_as_notification mp (notify_obj f args) = Some (2, f, MArray args)"
  by (simp add: notify_obj_def as_notification_array)

text \<open>A request and the response to it cannot be confused on the server: a packed call
  unpacks to an object of array size 4 that converts back to the same id, name and
  arguments, a packed notification to one of array size 3 with the same name and arguments.\<close>

lemma request_roundtrip:
  assumes "codec_laws mp" and "view_laws mp" and "packable_call f args"
  shows "(\<exists>ob. mp_unpack mp (mp_pack mp (call_obj idx f args)) = Inr ob \<and>
            mp_array_size mp ob = 4 \<and> mp_as_call mp ob = Some (0, idx, f, MArray args)) \<and>
         (\<exists>ob. mp_unpack mp (mp_pack mp (notify_obj f args)) = Inr ob \<and>
            mp_array_size mp ob = 3 \<and> mp_as_notification mp ob = Some (2, f, MArray args))"
  using assms by simp

end
