(* ===== verification/ThisContext.thy ===== *)
theory ThisContext
  imports Errors
begin

section \<open>this_handler, this_session, this_server\<close>

text \<open>
  The three thread-local objects a bound function can reach (include/this\_handler.h,
  include/this\_handler.inl, src/this\_handler.cpp, and the same for this\_session and
  this\_server). A context is the three objects of one worker thread together with the
  application state \<open>'w\<close> that the bound functions share. A \<open>msgpack::object_handle\<close> is the
  object it holds; the default one holds nil.
\<close>

record this_handler =
  th_error :: mobj
  th_resp :: mobj
  th_resp_enabled :: bool

record this_session =
  ts_exit :: bool
  ts_id :: "64 word"

record this_server =
  tsv_stopping :: bool

record 'w ctx =
  handler :: this_handler
  session :: this_session
  server :: this_server
  world :: 'w

definition fresh_ctx :: "'w \<Rightarrow> 'w ctx" where
  "fresh_ctx w =
     \<lparr>handler = \<lparr>th_error = MNil, th_resp = MNil, th_resp_enabled = True\<rparr>,
      session = \<lparr>ts_exit = False, ts_id = 0\<rparr>,
      server = \<lparr>tsv_stopping = False\<rparr>,
      world = w\<rparr>"

subsection \<open>this_handler_t\<close>

definition respond_error :: "mobj \<Rightarrow> ('w ctx, thrown, mobj) throwing" where
  "respond_error err_obj = (\<lambda>c.
     (Inl HandlerError, c\<lparr>handler := (handler c)\<lparr>th_error := err_obj\<rparr>\<rparr>))"

definition respond :: "mobj \<Rightarrow> ('w ctx, thrown, mobj) throwing" where
  "respond resp_obj = (\<lambda>c.
     (Inl HandlerSpecResponse, c\<lparr>handler := (handler c)\<lparr>th_resp := resp_obj\<rparr>\<rparr>))"

definition disable_response :: "'w ctx \<Rightarrow> 'w ctx" where
  "disable_response c = c\<lparr>handler := (handler c)\<lparr>th_resp_enabled := False\<rparr>\<rparr>"

definition enable_response :: "'w ctx \<Rightarrow> 'w ctx" where
  "enable_response c = c\<lparr>handler := (handler c)\<lparr>th_resp_enabled := True\<rparr>\<rparr>"

definition handler_clear :: "'w ctx \<Rightarrow> 'w ctx" where
  "handler_clear c =
     c\<lparr>handler := \<lparr>th_error = MNil, th_resp = MNil, th_resp_enabled = True\<rparr>\<rparr>"

subsection \<open>this_session_t\<close>

definition post_exit :: "'w ctx \<Rightarrow> 'w ctx" where
  "post_exit c = c\<lparr>session := (session c)\<lparr>ts_exit := True\<rparr>\<rparr>"

definition session_get_id :: "'w ctx \<Rightarrow> 64 word" where
  "session_get_id c = ts_id (session c)"

definition session_clear :: "'w ctx \<Rightarrow> 'w ctx" where
  "session_clear c = c\<lparr>session := (session c)\<lparr>ts_exit := False\<rparr>\<rparr>"

definition session_set_id :: "64 word \<Rightarrow> 'w ctx \<Rightarrow> 'w ctx" where
  "session_set_id i c = c\<lparr>session := (session c)\<lparr>ts_id := i\<rparr>\<rparr>"

subsection \<open>this_server_t\<close>

definition server_stop :: "'w ctx \<Rightarrow> 'w ctx" where
  "server_stop c = c\<lparr>server := (server c)\<lparr>tsv_stopping := True\<rparr>\<rparr>"

definition cancel_stop :: "'w ctx \<Rightarrow> 'w ctx" where
  "cancel_stop c = c\<lparr>server := (server c)\<lparr>tsv_stopping := False\<rparr>\<rparr>"

definition stopping :: "'w ctx \<Rightarrow> bool" where
  "stopping c = tsv_stopping (server c)"

lemmas this_context_defs =
  respond_error_def respond_def disable_response_def enable_response_def handler_clear_def
  post_exit_def session_get_id_def session_clear_def session_set_id_def server_stop_def
  cancel_stop_def stopping_def

text \<open>
  The four resets a session makes before it dispatches a request: whatever the previous
  request of the same thread left behind is gone, and the application state is untouched.
\<close>

definition reset_ctx :: "64 word \<Rightarrow> 'w ctx \<Rightarrow> 'w ctx" where
  "reset_ctx i c = cancel_stop (session_set_id i (session_clear (handler_clear c)))"

lemma reset_ctx_eq:
  "reset_ctx i c = (fresh_ctx (world c))\<lparr>session := \<lparr>ts_exit = False, ts_id = i\<rparr>\<rparr>"
  by (simp add: reset_ctx_def fresh_ctx_def this_context_defs)

end
