(* ===== verification/Dispatcher.thy ===== *)
theory Dispatcher
  imports Protocol ThisContext "HOL-Library.AList"
begin

section \<open>Dispatcher (include/dispatcher.h, include/dispatcher.inl, src/dispatcher.cpp)\<close>

text \<open>
  A registry of callables by name. A bound callable has the C++ signature the traits are
  computed from and a body, which gets the converted arguments (kept as objects) and runs in
  a context; a body of result type void returns a value that is ignored. The
  \<open>unordered_map\<close> is an association list whose order stands for the unspecified iteration
  order: nothing is proved about the order of \<open>names\<close>. The log lines are not modelled.
\<close>

record 'w bound_func =
  fn_callable :: callable
  fn_body :: "mobj list \<Rightarrow> ('w ctx, thrown, mobj) throwing"

type_synonym 'w adaptor = "mobj \<Rightarrow> ('w ctx, thrown, mobj) throwing"

record 'w dispatcher =
  funcs :: "(string \<times> 'w adaptor) list"

definition Dispatcher_new :: "'w dispatcher" where
  "Dispatcher_new = \<lparr>funcs = []\<rparr>"

subsection \<open>Checks\<close>

definition enforce_unique_name :: "'w dispatcher \<Rightarrow> string \<Rightarrow> thrown + unit" where
  "enforce_unique_name d func_name =
     (if map_of (funcs d) func_name \<noteq> None
      then Inl (StdException (''Function name already bound: '' @ quote @ func_name @
             ''. Please use unique function name.''))
      else Inr ())"

definition enforce_arg_count :: "string \<Rightarrow> nat \<Rightarrow> nat \<Rightarrow> thrown + unit" where
  "enforce_arg_count func_name found excepted =
     (if found \<noteq> excepted
      then Inl (ClientErr (ClientError wrong_arity
             (''Function '' @ quote @ func_name @
              '' was called with an invalid number of arguments. Excepted: '' @
              fmt_nat excepted @ '', got: '' @ fmt_nat found)))
      else Inr ())"

subsection \<open>The four overloads of bind\<close>

text \<open>The closures the overloads store, and the overloads themselves.\<close>

definition convert_args :: "msgpack \<Rightarrow> callable \<Rightarrow> mobj \<Rightarrow> thrown + mobj list" where
  "convert_args mp f args = (case mp_as_args mp (args_type (func_traits f)) args of
       None \<Rightarrow> Inl (StdException (mp_type_error mp))
     | Some args_real \<Rightarrow> Inr args_real)"

definition adaptor_void_zero :: "msgpack \<Rightarrow> string \<Rightarrow> 'w bound_func \<Rightarrow> 'w adaptor" where
  "adaptor_void_zero mp name func = (\<lambda>args.
     and_then (lift_result (enforce_arg_count name (mp_array_size mp args) 0)) (\<lambda>_.
     and_then (fn_body func []) (\<lambda>_.
     returning MNil)))"

definition adaptor_void_nonzero :: "msgpack \<Rightarrow> string \<Rightarrow> 'w bound_func \<Rightarrow> 'w adaptor" where
  "adaptor_void_nonzero mp name func = (\<lambda>args.
     and_then (lift_result (enforce_arg_count name (mp_array_size mp args)
         (arg_count (func_traits (fn_callable func))))) (\<lambda>_.
     and_then (lift_result (convert_args mp (fn_callable func) args)) (\<lambda>args_real.
     and_then (fn_body func args_real) (\<lambda>_.
     returning MNil))))"

definition adaptor_nonvoid_zero :: "msgpack \<Rightarrow> string \<Rightarrow> 'w bound_func \<Rightarrow> 'w adaptor" where
  "adaptor_nonvoid_zero mp name func = (\<lambda>args.
     and_then (lift_result (enforce_arg_count name (mp_array_size mp args) 0)) (\<lambda>_.
     and_then (fn_body func []) (\<lambda>res.
     returning res)))"

definition adaptor_nonvoid_nonzero :: "msgpack \<Rightarrow> string \<Rightarrow> 'w bound_func \<Rightarrow> 'w adaptor" where
  "adaptor_nonvoid_nonzero mp name func = (\<lambda>args.
     and_then (lift_result (enforce_arg_count name (mp_array_size mp args)
         (arg_count (func_traits (fn_callable func))))) (\<lambda>_.
     and_then (lift_result (convert_args mp (fn_callable func) args)) (\<lambda>args_real.
     and_then (fn_body func args_real) (\<lambda>res.
     returning res))))"

definition store :: "string \<Rightarrow> 'w adaptor \<Rightarrow> 'w dispatcher \<Rightarrow> 'w dispatcher" where
  "store name a d = d\<lparr>funcs := AList.update name a (funcs d)\<rparr>"

definition bind_void_zero ::
  "msgpack \<Rightarrow> string \<Rightarrow> 'w bound_func \<Rightarrow> 'w dispatcher \<Rightarrow> thrown + 'w dispatcher" where
  "bind_void_zero mp name func d = (case enforce_unique_name d name of
       Inl e \<Rightarrow> Inl e
     | Inr _ \<Rightarrow> Inr (store name (adaptor_void_zero mp name func) d))"

definition bind_void_nonzero ::
  "msgpack \<Rightarrow> string \<Rightarrow> 'w bound_func \<Rightarrow> 'w dispatcher \<Rightarrow> thrown + 'w dispatcher" where
  "bind_void_nonzero mp name func d = (case enforce_unique_name d name of
       Inl e \<Rightarrow> Inl e
     | Inr _ \<Rightarrow> Inr (store name (adaptor_void_nonzero mp name func) d))"

definition bind_nonvoid_zero ::
  "msgpack \<Rightarrow> string \<Rightarrow> 'w bound_func \<Rightarrow> 'w dispatcher \<Rightarrow> thrown + 'w dispatcher" where
  "bind_nonvoid_zero mp name func d = (case enforce_unique_name d name of
       Inl e \<Rightarrow> Inl e
     | Inr _ \<Rightarrow> Inr (store name (adaptor_nonvoid_zero mp name func) d))"

definition bind_nonvoid_nonzero ::
  "msgpack \<Rightarrow> string \<Rightarrow> 'w bound_func \<Rightarrow> 'w dispatcher \<Rightarrow> thrown + 'w dispatcher" where
  "bind_nonvoid_nonzero mp name func d = (case enforce_unique_name d name of
       Inl e \<Rightarrow> Inl e
     | Inr _ \<Rightarrow> Inr (store name (adaptor_nonvoid_nonzero mp name func) d))"

text \<open>The public bind checks the name and dispatches on the tags of the callable.\<close>

definition bind ::
  "msgpack \<Rightarrow> string \<Rightarrow> 'w bound_func \<Rightarrow> 'w dispatcher \<Rightarrow> thrown + 'w dispatcher" where
  "bind mp name func d = (case enforce_unique_name d name of
       Inl e \<Rightarrow> Inl e
     | Inr _ \<Rightarrow>
         (let k = func_kind_info (fn_callable func) in
          case (result_kind k, args_kind k) of
            (void_result, zero_arg) \<Rightarrow> bind_void_zero mp name func d
          | (void_result, nonzero_arg) \<Rightarrow> bind_void_nonzero mp name func d
          | (nonvoid_result, zero_arg) \<Rightarrow> bind_nonvoid_zero mp name func d
          | (nonvoid_result, nonzero_arg) \<Rightarrow> bind_nonvoid_nonzero mp name func d))"

definition unbind :: "string \<Rightarrow> 'w dispatcher \<Rightarrow> 'w dispatcher" where
  "unbind name d = d\<lparr>funcs := AList.delete name (funcs d)\<rparr>"

definition names :: "'w dispatcher \<Rightarrow> string list" where
  "names d = map fst (funcs d)"

lemmas bind_defs [handler_defs] =
  bind_def bind_void_zero_def bind_void_nonzero_def bind_nonvoid_zero_def
  bind_nonvoid_nonzero_def

subsection \<open>dispatch\<close>

text \<open>The three error texts of dispatch_call.\<close>

definition not_found_response :: "msgpack \<Rightarrow> uint32 \<Rightarrow> string \<Rightarrow> mobj \<Rightarrow> response" where
  "not_found_response mp i name msg =
     make_error i (MStr (''rpclib: server could not find function '' @ quote @ name @ quote @
       '' wtith argument count '' @ fmt_nat (mp_array_size mp msg) @ ''.''))"

definition std_exception_response ::
  "msgpack \<Rightarrow> uint32 \<Rightarrow> string \<Rightarrow> mobj \<Rightarrow> string \<Rightarrow> response" where
  "std_exception_response mp i name args w =
     make_error i (MStr (''rpclib: function '' @ quote @ name @ quote @ '' (called with '' @
       fmt_nat (mp_array_size mp args) @
       '' arg(s)) threw an exception. The exception contained this informatin: '' @ w @ ''.''))"

definition unknown_exception_response ::
  "msgpack \<Rightarrow> uint32 \<Rightarrow> string \<Rightarrow> mobj \<Rightarrow> response" where
  "unknown_exception_response mp i name msg =
     make_error i (MStr (''rpclib: function '' @ quote @ name @ quote @ '' (called with '' @
       fmt_nat (mp_array_size mp msg) @
       '' arg(s)) threw an exception.No further information available.''))"

text \<open>
  The catch clauses of dispatch_call in their order: \<open>ClientError\<close>, any other
  \<open>std::exception\<close>, the two tags (which fall out of the try block to the final return), and
  everything else. \<open>Inl\<close> is a rethrow.
\<close>

definition catch_call ::
  "msgpack \<Rightarrow> bool \<Rightarrow> uint32 \<Rightarrow> string \<Rightarrow> mobj \<Rightarrow> mobj \<Rightarrow> thrown \<Rightarrow> thrown + response" where
  "catch_call mp suppress_exception i name args msg x = (case x of
       ClientErr e \<Rightarrow> Inr (make_error i (MStr (''rpclib: '' @ ce_what e)))
     | HandlerError \<Rightarrow> Inr (not_found_response mp i name msg)
     | HandlerSpecResponse \<Rightarrow> Inr (not_found_response mp i name msg)
     | OtherThrown \<Rightarrow>
         if \<not> suppress_exception then Inl x
         else Inr (unknown_exception_response mp i name msg)
     | _ \<Rightarrow> (case std_what x of
           None \<Rightarrow> Inl x
         | Some w \<Rightarrow>
             if \<not> suppress_exception then Inl x
             else Inr (std_exception_response mp i name args w)))"

definition dispatch_call ::
  "msgpack \<Rightarrow> 'w dispatcher \<Rightarrow> mobj \<Rightarrow> bool \<Rightarrow> ('w ctx, thrown, response) throwing" where
  "dispatch_call mp d msg suppress_exception = (\<lambda>c.
     case mp_as_call mp msg of
       None \<Rightarrow> (Inl (StdException (mp_type_error mp)), c)
     | Some (code, i, name, args) \<Rightarrow>
         (case map_of (funcs d) name of
            None \<Rightarrow> (Inr (not_found_response mp i name msg), c)
          | Some f \<Rightarrow>
              (case f args c of
                 (Inr res, c') \<Rightarrow> (Inr (make_result_handle i res), c')
               | (Inl x, c') \<Rightarrow> (catch_call mp suppress_exception i name args msg x, c'))))"

definition catch_notification :: "bool \<Rightarrow> thrown \<Rightarrow> thrown + unit" where
  "catch_notification suppress_exception x = (case x of
       HandlerError \<Rightarrow> Inr ()
     | HandlerSpecResponse \<Rightarrow> Inr ()
     | _ \<Rightarrow> if \<not> suppress_exception then Inl x else Inr ())"

definition dispatch_notification ::
  "msgpack \<Rightarrow> 'w dispatcher \<Rightarrow> mobj \<Rightarrow> bool \<Rightarrow> ('w ctx, thrown, response) throwing" where
  "dispatch_notification mp d msg suppress_exception = (\<lambda>c.
     case mp_as_notification mp msg of
       None \<Rightarrow> (Inl (StdException (mp_type_error mp)), c)
     | Some (code, name, args) \<Rightarrow>
         (case map_of (funcs d) name of
            None \<Rightarrow> (Inr response_empty, c)
          | Some f \<Rightarrow>
              (case f args c of
                 (Inr res, c') \<Rightarrow> (Inr response_empty, c')
               | (Inl x, c') \<Rightarrow>
                   (case catch_notification suppress_exception x of
                      Inl y \<Rightarrow> (Inl y, c')
                    | Inr _ \<Rightarrow> (Inr response_empty, c')))))"

definition dispatch ::
  "msgpack \<Rightarrow> 'w dispatcher \<Rightarrow> mobj \<Rightarrow> bool \<Rightarrow> ('w ctx, thrown, response) throwing" where
  "dispatch mp d msg suppress_exception =
     (if mp_array_size mp msg = 3 then dispatch_notification mp d msg suppress_exception
      else if mp_array_size mp msg = 4 then dispatch_call mp d msg suppress_exception
      else returning response_empty)"

text \<open>The overload of dispatch on a serialised message: unpack, dispatch with exceptions let through, drop the
  response.\<close>

definition dispatch_sbuffer ::
  "msgpack \<Rightarrow> 'w dispatcher \<Rightarrow> bytes \<Rightarrow> ('w ctx, thrown, unit) throwing" where
  "dispatch_sbuffer mp d msg =
     and_then (lift_result (mp_unpack mp msg)) (\<lambda>unpacked.
     and_then (dispatch mp d unpacked False) (\<lambda>_.
     returning ()))"

subsection \<open>The registry as an interface\<close>

text \<open>
  What the dispatch operations and the server use of the registry: a finite map from names,
  extended by storing under an unbound name, shrunk by erasing, and enumerated without
  repetition. The operations keep the invariant that no name is stored twice.
\<close>

locale name_registry =
  fixes lookup :: "'d \<Rightarrow> string \<Rightarrow> 'f option"
    and insert_new :: "string \<Rightarrow> 'f \<Rightarrow> 'd \<Rightarrow> 'd"
    and erase :: "string \<Rightarrow> 'd \<Rightarrow> 'd"
    and keys :: "'d \<Rightarrow> string list"
    and wf :: "'d \<Rightarrow> bool"
  assumes lookup_insert: "lookup (insert_new k f d) = (lookup d)(k \<mapsto> f)"
    and lookup_erase: "lookup (erase k d) = (lookup d)(k := None)"
    and keys_lookup: "set (keys d) = dom (lookup d)"
    and keys_distinct: "wf d \<Longrightarrow> distinct (keys d)"
    and wf_insert: "wf d \<Longrightarrow> wf (insert_new k f d)"
    and wf_erase: "wf d \<Longrightarrow> wf (erase k d)"
begin

lemma keys_insert: "set (keys (insert_new k f d)) = insert k (set (keys d))"
  by (simp add: keys_lookup lookup_insert)

lemma keys_erase: "set (keys (erase k d)) = set (keys d) - {k}"
  by (auto simp: keys_lookup lookup_erase split: if_splits)

lemma erase_insert:
  "lookup d k = None \<Longrightarrow> lookup (erase k (insert_new k f d)) = lookup d"
  by (auto simp: lookup_erase lookup_insert)

lemma keys_count_insert:
  assumes "wf d" and "lookup d k = None"
  shows "length (keys (insert_new k f d)) = Suc (length (keys d))"
proof -
  have "k \<notin> set (keys d)" using assms(2) by (auto simp: keys_lookup)
  then have "card (set (keys (insert_new k f d))) = Suc (card (set (keys d)))"
    by (simp add: keys_insert)
  then show ?thesis
    using distinct_card [OF keys_distinct [OF assms(1)]]
      distinct_card [OF keys_distinct [OF wf_insert [OF assms(1), of k f]]] by simp
qed

lemma insert_frame: "k' \<noteq> k \<Longrightarrow> lookup (insert_new k f d) k' = lookup d k'"
  by (simp add: lookup_insert)

end

definition lookup_func :: "'w dispatcher \<Rightarrow> string \<Rightarrow> 'w adaptor option" where
  "lookup_func d = map_of (funcs d)"

definition wf_dispatcher :: "'w dispatcher \<Rightarrow> bool" where
  "wf_dispatcher d \<longleftrightarrow> distinct (map fst (funcs d))"

interpretation reg: name_registry lookup_func store unbind names wf_dispatcher
  by unfold_locales
    (auto simp: lookup_func_def store_def unbind_def names_def wf_dispatcher_def fun_eq_iff
      update_conv' delete_conv' dom_map_of_conv_image_fst distinct_update distinct_delete)

end
