(* ===== verification/DispatcherSpec.thy ===== *)
theory DispatcherSpec
  imports Dispatcher MsgpackRef
begin

section \<open>What the dispatcher promises\<close>

text \<open>
  An overload-free specification of a bound callable, the equivalence of the four overloads
  of bind with it, and the behaviour of dispatch on every branch.
\<close>

subsection \<open>One specification for the four overloads\<close>

definition wrong_arity_error :: "string \<Rightarrow> nat \<Rightarrow> nat \<Rightarrow> client_error" where
  "wrong_arity_error name excepted found = ClientError wrong_arity
     (''Function '' @ quote @ name @
      '' was called with an invalid number of arguments. Excepted: '' @
      fmt_nat excepted @ '', got: '' @ fmt_nat found)"

text \<open>
  The arguments are counted, then converted (there is nothing to convert for an empty
  parameter list), then the body runs, and a void body answers nil.
\<close>

definition bound_arity :: "'w bound_func \<Rightarrow> nat" where
  "bound_arity f = arg_count (func_traits (fn_callable f))"

definition bound_result :: "'w bound_func \<Rightarrow> mobj \<Rightarrow> mobj" where
  "bound_result f v = (if is_void_result (fn_callable f) then MNil else v)"

definition bound_args :: "msgpack \<Rightarrow> 'w bound_func \<Rightarrow> mobj \<Rightarrow> mobj list option" where
  "bound_args mp f args =
     (if bound_arity f = 0 then Some []
      else mp_as_args mp (args_type (func_traits (fn_callable f))) args)"

definition bound_call :: "msgpack \<Rightarrow> string \<Rightarrow> 'w bound_func \<Rightarrow> 'w adaptor" where
  "bound_call mp name f args c =
     (if mp_array_size mp args \<noteq> bound_arity f
      then (Inl (ClientErr (wrong_arity_error name (bound_arity f) (mp_array_size mp args))), c)
      else case bound_args mp f args of
          None \<Rightarrow> (Inl (StdException (mp_type_error mp)), c)
        | Some as \<Rightarrow>
            (case fn_body f as c of
               (Inl x, c') \<Rightarrow> (Inl x, c')
             | (Inr v, c') \<Rightarrow> (Inr (bound_result f v), c')))"

lemma kind_of_traits:
  "args_kind (func_kind_info f) = arg_count_trait (arg_count (func_traits f))"
  "result_kind (func_kind_info f) = result_trait (result_type (func_traits f))"
  by (induction f rule: func_traits.induct) auto

lemma adaptors_meet_spec:
  "arg_count (func_traits (fn_callable f)) = 0 \<Longrightarrow> result_type (func_traits (fn_callable f)) = TVoid \<Longrightarrow>
     adaptor_void_zero mp name f = bound_call mp name f"
  "arg_count (func_traits (fn_callable f)) \<noteq> 0 \<Longrightarrow> result_type (func_traits (fn_callable f)) = TVoid \<Longrightarrow>
     adaptor_void_nonzero mp name f = bound_call mp name f"
  "arg_count (func_traits (fn_callable f)) = 0 \<Longrightarrow> result_type (func_traits (fn_callable f)) \<noteq> TVoid \<Longrightarrow>
     adaptor_nonvoid_zero mp name f = bound_call mp name f"
  "arg_count (func_traits (fn_callable f)) \<noteq> 0 \<Longrightarrow> result_type (func_traits (fn_callable f)) \<noteq> TVoid \<Longrightarrow>
     adaptor_nonvoid_nonzero mp name f = bound_call mp name f"
  by (auto simp: fun_eq_iff adaptor_void_zero_def adaptor_void_nonzero_def
      adaptor_nonvoid_zero_def adaptor_nonvoid_nonzero_def bound_call_def bound_args_def
      bound_arity_def bound_result_def is_void_result_def enforce_arg_count_def
      wrong_arity_error_def convert_args_def and_then_apply
      split: option.splits prod.splits sum.splits)

lemma bind_overloads_spec:
  "bind mp name f d =
     (if name \<in> set (names d)
      then Inl (StdException (''Function name already bound: '' @ quote @ name @
             ''. Please use unique function name.''))
      else Inr (store name (bound_call mp name f) d))"
proof -
  have unique: "map_of (funcs d) name = None \<longleftrightarrow> name \<notin> set (names d)"
    by (simp add: names_def map_of_eq_None_iff)
  show ?thesis
    by (auto simp: bind_defs enforce_unique_name_def unique kind_of_traits adaptors_meet_spec
        tag_equations Let_def)
qed

text \<open>C17. bind refuses a name that is already bound, with the text of the logic_error, and
  otherwise adds the name with one and the same behaviour whichever of the four overloads the
  signature of the callable selects.\<close>

theorem bind_overloads_agree:
  "bind mp name f d =
     (if name \<in> set (names d)
      then Inl (StdException (''Function name already bound: '' @ quote @ name @
             ''. Please use unique function name.''))
      else Inr (store name (bound_call mp name f) d))"
  by (rule bind_overloads_spec)

text \<open>A sample callable for the witnesses: an addition of two ints over a log of its calls.\<close>

definition sample_add :: "mobj list list bound_func" where
  "sample_add =
     \<lparr>fn_callable = Functor (MemFn ''lambda'' (TInt 32) [TInt 32, TRef (TConst (TInt 32))] True),
      fn_body = (\<lambda>as c. (Inr (case as of [MInt a, MInt b] \<Rightarrow> MInt (a + b) | _ \<Rightarrow> MNil),
                          c\<lparr>world := world c @ [as]\<rparr>))\<rparr>"

definition sample_failing :: "thrown \<Rightarrow> mobj list list bound_func" where
  "sample_failing x =
     \<lparr>fn_callable = Functor (MemFn ''lambda'' TVoid [] True),
      fn_body = (\<lambda>as c. (Inl x, c\<lparr>world := world c @ [as]\<rparr>))\<rparr>"

lemma sample_add_simps [simp]:
  "bound_arity sample_add = 2" "bound_result sample_add v = v"
  "bound_args ref_msgpack sample_add (MArray [MInt 2, MInt 3]) = Some [MInt 2, MInt 3]"
  "fn_body sample_add [MInt 2, MInt 3] c = (Inr (MInt 5), c\<lparr>world := world c @ [[MInt 2, MInt 3]]\<rparr>)"
  by (simp_all add: bound_arity_def bound_result_def bound_args_def sample_add_def
      is_void_result_def decay_def ref_msgpack_simps ref_as_args_def ref_conforms_def as_int_def)

subsection \<open>Calls\<close>

lemma lookup_bound:
  "bind mp name f d = Inr d' \<Longrightarrow> map_of (funcs d') name = Some (bound_call mp name f)"
  using reg.lookup_insert [of name "bound_call mp name f" d]
  by (auto simp: bind_overloads_spec lookup_func_def split: if_splits)

lemma dispatch_call_obj:
  "view_laws mp \<Longrightarrow> dispatch mp d (call_obj i name args) s c =
     (case map_of (funcs d) name of
        None \<Rightarrow> (Inr (not_found_response mp i name (call_obj i name args)), c)
      | Some f \<Rightarrow>
          (case f (MArray args) c of
             (Inr res, c') \<Rightarrow> (Inr (make_result_handle i res), c')
           | (Inl x, c') \<Rightarrow>
               (catch_call mp s i name (MArray args) (call_obj i name args) x, c')))"
  by (simp add: dispatch_def dispatch_call_def)

lemma dispatch_notify_obj:
  "view_laws mp \<Longrightarrow> dispatch mp d (notify_obj name args) s c =
     (case map_of (funcs d) name of
        None \<Rightarrow> (Inr response_empty, c)
      | Some f \<Rightarrow>
          (case f (MArray args) c of
             (Inr res, c') \<Rightarrow> (Inr response_empty, c')
           | (Inl x, c') \<Rightarrow>
               (case catch_notification s x of
                  Inl y \<Rightarrow> (Inl y, c') | Inr _ \<Rightarrow> (Inr response_empty, c'))))"
  by (simp add: dispatch_def dispatch_notification_def)

text \<open>C18. A call of a bound function with the right number of convertible arguments runs its
  body once, on the converted arguments, and is answered with the id of the request and the
  value the body returned (nil for a void function), whether or not exceptions are
  suppressed.\<close>

theorem dispatch_bound_call:
  assumes "view_laws mp" and "bind mp name f d = Inr d'"
    and "length args = bound_arity f" and "bound_args mp f (MArray args) = Some as"
    and "fn_body f as c = (Inr v, c')"
  shows "dispatch mp d' (call_obj i name args) suppress c =
           (Inr (make_result_handle i (bound_result f v)), c')"
  using assms by (simp add: dispatch_call_obj lookup_bound bound_call_def)

theorem dispatch_bound_call_witness:
  "dispatch ref_msgpack (store ''add'' (bound_call ref_msgpack ''add'' sample_add) Dispatcher_new)
     (call_obj 7 ''add'' [MInt 2, MInt 3]) False (fresh_ctx []) =
   (Inr (make_result_handle 7 (MInt 5)), (fresh_ctx [])\<lparr>world := [[MInt 2, MInt 3]]\<rparr>)"
proof -
  have "bind ref_msgpack ''add'' sample_add Dispatcher_new =
      Inr (store ''add'' (bound_call ref_msgpack ''add'' sample_add) Dispatcher_new)"
    by (simp add: bind_overloads_spec names_def Dispatcher_new_def)
  from dispatch_bound_call [OF _ this, of "[MInt 2, MInt 3]" "[MInt 2, MInt 3]"
      "fresh_ctx []" "MInt 5" _ 7 False]
  show ?thesis by (simp add: fresh_ctx_def)
qed

text \<open>C19. A call with the wrong number of arguments never reaches the body: the application
  state and the thread's contexts are untouched, no exception escapes even when exceptions
  are not suppressed, and the answer is the error text with code 0002, the expected and the
  given count.\<close>

theorem dispatch_wrong_arity:
  assumes "view_laws mp" and "bind mp name f d = Inr d'" and "length args \<noteq> bound_arity f"
  shows "dispatch mp d' (call_obj i name args) suppress c =
     (Inr (make_error i (MStr (''rpclib: client error C0002: Function '' @ quote @ name @
        '' was called with an invalid number of arguments. Excepted: '' @
        fmt_nat (bound_arity f) @ '', got: '' @ fmt_nat (length args)))), c)"
proof -
  have "fmt_04x 2 = ''0002''"
    by code_simp
  with assms show ?thesis
    by (simp add: dispatch_call_obj lookup_bound bound_call_def catch_call_def
        wrong_arity_error_def ClientError_def)
qed

theorem dispatch_wrong_arity_witness:
  "dispatch ref_msgpack (store ''add'' (bound_call ref_msgpack ''add'' sample_add) Dispatcher_new)
     (call_obj 7 ''add'' [MInt 2]) False (fresh_ctx []) =
   (Inr (make_error 7 (MStr (''rpclib: client error C0002: Function '' @ quote @ ''add'' @
      '' was called with an invalid number of arguments. Excepted: '' @ fmt_nat 2 @
      '', got: '' @ fmt_nat 1))), fresh_ctx [])"
proof -
  have "bind ref_msgpack ''add'' sample_add Dispatcher_new =
      Inr (store ''add'' (bound_call ref_msgpack ''add'' sample_add) Dispatcher_new)"
    by (simp add: bind_overloads_spec names_def Dispatcher_new_def)
  from dispatch_wrong_arity [OF _ this, of "[MInt 2]" 7 False "fresh_ctx []"]
  show ?thesis by simp
qed

text \<open>A call of an unbound name is answered with an error that names the function, and
  whose argument count is 4 whatever the call's arguments are: the text is filled with the
  size of the request message, not of the argument array.\<close>

lemma dispatch_unknown_function:
  assumes "view_laws mp" and "name \<notin> set (names d)"
  shows "dispatch mp d (call_obj i name args) suppress c =
     (Inr (make_error i (MStr (''rpclib: server could not find function '' @ quote @ name @
        quote @ '' wtith argument count 4.''))), c)"
proof -
  have "map_of (funcs d) name = None"
    using assms(2) by (simp add: names_def map_of_eq_None_iff)
  moreover have "fmt_nat 4 = ''4''"
    by code_simp
  ultimately show ?thesis
    using assms(1) by (simp add: dispatch_call_obj not_found_response_def)
qed

lemma dispatch_unknown_function_witness:
  "dispatch ref_msgpack Dispatcher_new (call_obj 1 ''f'' []) True (fresh_ctx ()) =
     (Inr (make_error 1 (MStr (''rpclib: server could not find function '' @ quote @ ''f'' @
        quote @ '' wtith argument count 4.''))), fresh_ctx ())"
  using dispatch_unknown_function [of ref_msgpack "''f''" "Dispatcher_new :: unit dispatcher" 1
      "[]" True "fresh_ctx ()"]
  by (simp add: names_def Dispatcher_new_def)

subsection \<open>Exceptions\<close>

text \<open>What escapes from a call whose body throws: nothing that dispatch_call handles itself.\<close>

fun handled_in_call :: "thrown \<Rightarrow> bool" where
  "handled_in_call (ClientErr e) = True"
| "handled_in_call HandlerError = True"
| "handled_in_call HandlerSpecResponse = True"
| "handled_in_call x = False"

fun handled_in_notification :: "thrown \<Rightarrow> bool" where
  "handled_in_notification HandlerError = True"
| "handled_in_notification HandlerSpecResponse = True"
| "handled_in_notification x = False"

lemma catch_call_escapes:
  "(\<exists>y. catch_call mp s i name args msg x = Inl y) \<longleftrightarrow> \<not> s \<and> \<not> handled_in_call x"
  "catch_call mp s i name args msg x = Inl y \<Longrightarrow> y = x"
  by (cases x; auto simp: catch_call_def split: if_splits)+

lemma catch_call_answer:
  "catch_call mp s i name args msg x = Inr r \<Longrightarrow>
     r_id r = i \<and> r_result r = None \<and> \<not> r_empty r \<and> (\<exists>t. r_error r = Some (MStr t))"
  by (cases x; auto simp: catch_call_def not_found_response_def std_exception_response_def
      unknown_exception_response_def split: if_splits)

lemma catch_notification_escapes:
  "catch_notification s x = Inl y \<longleftrightarrow> y = x \<and> \<not> s \<and> \<not> handled_in_notification x"
  by (cases x; auto simp: catch_notification_def)

text \<open>C20. When the body of a called function throws: with suppressed exceptions, and for
  client errors and the two handler tags always, the caller is answered with an error text
  under the id of its request; everything else escapes unchanged from dispatch when exceptions
  are not suppressed. The state the body wrote before it threw is kept in both cases.\<close>

theorem dispatch_throwing_call:
  assumes "view_laws mp" and "bind mp name f d = Inr d'"
    and "length args = bound_arity f" and "bound_args mp f (MArray args) = Some as"
    and "fn_body f as c = (Inl x, c')"
  shows "if suppress \<or> handled_in_call x
         then (\<exists>t. dispatch mp d' (call_obj i name args) suppress c = (Inr (make_error i (MStr t)), c'))
         else dispatch mp d' (call_obj i name args) suppress c = (Inl x, c')"
proof -
  have "dispatch mp d' (call_obj i name args) suppress c =
      (catch_call mp suppress i name (MArray args) (call_obj i name args) x, c')"
    using assms by (simp add: dispatch_call_obj lookup_bound bound_call_def)
  then show ?thesis
    by (cases x) (auto simp: catch_call_def not_found_response_def std_exception_response_def
        unknown_exception_response_def)
qed

theorem dispatch_throwing_call_witness:
  "dispatch ref_msgpack
      (store ''f'' (bound_call ref_msgpack ''f'' (sample_failing (StdException ''disk full'')))
        Dispatcher_new)
      (call_obj 3 ''f'' []) False (fresh_ctx []) =
    (Inl (StdException ''disk full''), (fresh_ctx [])\<lparr>world := [[]]\<rparr>)"
proof -
  have b: "bind ref_msgpack ''f'' (sample_failing (StdException ''disk full'')) Dispatcher_new =
      Inr (store ''f'' (bound_call ref_msgpack ''f'' (sample_failing (StdException ''disk full'')))
        Dispatcher_new)"
    by (simp add: bind_overloads_spec names_def Dispatcher_new_def)
  have zero: "bound_arity (sample_failing x) = 0"
    "bound_args ref_msgpack (sample_failing x) a = Some []" for x a
    by (simp_all add: bound_arity_def bound_args_def sample_failing_def)
  show ?thesis
    using dispatch_throwing_call [OF _ b, of "[]" "[]" "fresh_ctx []"
        "StdException ''disk full''" "(fresh_ctx [])\<lparr>world := [[]]\<rparr>" False 3]
    by (simp add: zero) (simp add: sample_failing_def fresh_ctx_def)
qed

text \<open>With suppressed exceptions an exception leaves dispatch exactly when the message has the size
  of a request and does not convert to its tuple.\<close>

lemma suppressed_throws:
  "(\<exists>x. fst (dispatch mp d msg True c) = Inl x) \<longleftrightarrow>
     mp_array_size mp msg = 4 \<and> mp_as_call mp msg = None \<or>
     mp_array_size mp msg = 3 \<and> mp_as_notification mp msg = None"
  using catch_call_escapes(1) [where s = True] catch_notification_escapes [where s = True]
  by (auto simp: dispatch_def dispatch_call_def dispatch_notification_def
      split: option.splits prod.splits sum.splits)

subsection \<open>Answers\<close>

lemma dispatch_answer_shape:
  assumes "fst (dispatch mp d msg suppress c) = Inr r"
  shows "(r_empty r \<longleftrightarrow> mp_array_size mp msg \<noteq> 4) \<and>
     (mp_array_size mp msg = 4 \<longrightarrow>
        (\<exists>code i name args. mp_as_call mp msg = Some (code, i, name, args) \<and> r_id r = i) \<and>
        (r_error r = None \<longleftrightarrow> r_result r \<noteq> None))"
proof (cases "mp_array_size mp msg = 4")
  case True
  with assms obtain code i name args where conv: "mp_as_call mp msg = Some (code, i, name, args)"
    by (auto simp: dispatch_def dispatch_call_def split: option.splits)
  with True assms have "r = not_found_response mp i name msg \<or> (\<exists>v. r = make_result_handle i v) \<or>
      (\<exists>x. catch_call mp suppress i name args msg x = Inr r)"
    by (auto simp: dispatch_def dispatch_call_def split: option.splits prod.splits sum.splits)
  with True conv show ?thesis
    by (auto simp: not_found_response_def dest!: catch_call_answer)
next
  case False
  with assms have "r = response_empty"
    by (auto simp: dispatch_def dispatch_notification_def
        split: if_splits option.splits prod.splits sum.splits)
  with False show ?thesis by simp
qed

text \<open>What dispatch answers, for every message and every bound function: a message is
  answered exactly when it has the size of a call; the answer carries the id the call's
  tuple has, and either an error or a result, never both and never none.\<close>

lemma dispatch_answers:
  assumes "fst (dispatch mp d msg suppress c) = Inr r"
  shows "(r_empty r \<longleftrightarrow> mp_array_size mp msg \<noteq> 4) \<and>
     (mp_array_size mp msg = 4 \<longrightarrow>
        (\<exists>code i name args. mp_as_call mp msg = Some (code, i, name, args) \<and> r_id r = i) \<and>
        (r_error r = None \<longleftrightarrow> r_result r \<noteq> None))"
  using assms by (rule dispatch_answer_shape)

lemma dispatch_answers_witness:
  "\<not> r_empty (not_found_response ref_msgpack 9 ''f'' (call_obj 9 ''f'' [])) \<and>
   (\<exists>code i name args. mp_as_call ref_msgpack (call_obj 9 ''f'' []) = Some (code, i, name, args) \<and>
      r_id (not_found_response ref_msgpack 9 ''f'' (call_obj 9 ''f'' [])) = i) \<and>
   r_result (not_found_response ref_msgpack 9 ''f'' (call_obj 9 ''f'' [])) = None"
proof -
  have "fst (dispatch ref_msgpack (Dispatcher_new :: unit dispatcher) (call_obj 9 ''f'' []) False
      (fresh_ctx ())) = Inr (not_found_response ref_msgpack 9 ''f'' (call_obj 9 ''f'' []))"
    by (simp add: dispatch_call_obj Dispatcher_new_def)
  from dispatch_answers [OF this] show ?thesis by (simp add: not_found_response_def)
qed

subsection \<open>Notifications\<close>

text \<open>A notification of a bound function with the right arguments runs its body exactly as
  a call does, keeps the state it leaves whether it returns or throws, and is never answered;
  what the body throws, client errors included, escapes when exceptions are not suppressed,
  except for the two handler tags.\<close>

lemma dispatch_bound_notification:
  assumes "view_laws mp" and "bind mp name f d = Inr d'"
    and "length args = bound_arity f" and "bound_args mp f (MArray args) = Some as"
    and "fn_body f as c = (res, c')"
  shows "dispatch mp d' (notify_obj name args) suppress c =
     ((case res of
         Inr v \<Rightarrow> Inr response_empty
       | Inl x \<Rightarrow> if suppress \<or> handled_in_notification x then Inr response_empty else Inl x), c')"
  using assms
  by (cases res; cases "projl res")
    (auto simp: dispatch_notify_obj lookup_bound bound_call_def catch_notification_def)

lemma dispatch_bound_notification_witness:
  "dispatch ref_msgpack (store ''add'' (bound_call ref_msgpack ''add'' sample_add) Dispatcher_new)
     (notify_obj ''add'' [MInt 2, MInt 3]) False (fresh_ctx []) =
   (Inr response_empty, (fresh_ctx [])\<lparr>world := [[MInt 2, MInt 3]]\<rparr>)"
proof -
  have "bind ref_msgpack ''add'' sample_add Dispatcher_new =
      Inr (store ''add'' (bound_call ref_msgpack ''add'' sample_add) Dispatcher_new)"
    by (simp add: bind_overloads_spec names_def Dispatcher_new_def)
  from dispatch_bound_notification [OF _ this, of "[MInt 2, MInt 3]" "[MInt 2, MInt 3]"
      "fresh_ctx []" "Inr (MInt 5)" _ False]
  show ?thesis by (simp add: fresh_ctx_def)
qed

text \<open>Unlike a call, a notification with the wrong number of arguments makes dispatch throw
  when exceptions are not suppressed: the client's mistake leaves the dispatcher as a client
  error exception.\<close>

lemma notification_wrong_arity_escapes:
  assumes "view_laws mp" and "bind mp name f d = Inr d'" and "length args \<noteq> bound_arity f"
  shows "dispatch mp d' (notify_obj name args) False c =
     (Inl (ClientErr (wrong_arity_error name (bound_arity f) (length args))), c)"
  using assms
  by (simp add: dispatch_notify_obj lookup_bound bound_call_def catch_notification_def)

lemma notification_wrong_arity_escapes_witness:
  "dispatch ref_msgpack (store ''add'' (bound_call ref_msgpack ''add'' sample_add) Dispatcher_new)
     (notify_obj ''add'' [MInt 2]) False (fresh_ctx []) =
   (Inl (ClientErr (wrong_arity_error ''add'' 2 1)), fresh_ctx [])"
proof -
  have "bind ref_msgpack ''add'' sample_add Dispatcher_new =
      Inr (store ''add'' (bound_call ref_msgpack ''add'' sample_add) Dispatcher_new)"
    by (simp add: bind_overloads_spec names_def Dispatcher_new_def)
  from notification_wrong_arity_escapes [OF _ this, of "[MInt 2]" "fresh_ctx []"]
  show ?thesis by simp
qed

subsection \<open>The registry\<close>

text \<open>The dispatcher is a finite map from names to behaviours: bind succeeds on a fresh
  name, adds it to names() once and leaves every other name's behaviour alone; unbind takes
  exactly that name away, so that binding and then unbinding it restores every lookup.\<close>

lemma bind_unbind_registry:
  assumes "wf_dispatcher d" and "name \<notin> set (names d)"
  shows "\<exists>d'. bind mp name f d = Inr d' \<and> wf_dispatcher d' \<and>
     set (names d') = insert name (set (names d)) \<and>
     length (names d') = Suc (length (names d)) \<and>
     (\<forall>k. k \<noteq> name \<longrightarrow> lookup_func d' k = lookup_func d k) \<and>
     lookup_func (unbind name d') = lookup_func d \<and>
     set (names (unbind name d')) = set (names d)"
proof -
  have free: "lookup_func d name = None"
    using assms(2) reg.keys_lookup [of d] by auto
  let ?d = "store name (bound_call mp name f) d"
  have "bind mp name f d = Inr ?d"
    using assms(2) by (simp add: bind_overloads_spec)
  moreover have "set (names (unbind name ?d)) = set (names d)"
    using assms(2) by (simp add: reg.keys_erase reg.keys_insert)
  ultimately show ?thesis
    using assms(1) free
    by (auto simp: reg.wf_insert reg.keys_insert reg.keys_count_insert reg.insert_frame
        reg.erase_insert)
qed

lemma bind_unbind_registry_witness:
  "\<exists>d'. bind ref_msgpack ''add'' sample_add Dispatcher_new = Inr d' \<and>
     set (names d') = {''add''} \<and> length (names d') = 1 \<and>
     lookup_func d' ''sub'' = None \<and> names (unbind ''add'' d') = []"
proof -
  let ?d = "Dispatcher_new :: mobj list list dispatcher"
  have "wf_dispatcher ?d" "''add'' \<notin> set (names ?d)"
    by (simp_all add: wf_dispatcher_def names_def Dispatcher_new_def)
  then obtain d' where d': "bind ref_msgpack ''add'' sample_add ?d = Inr d'"
    "set (names d') = insert ''add'' (set (names ?d))"
    "length (names d') = Suc (length (names ?d))"
    "\<forall>k. k \<noteq> ''add'' \<longrightarrow> lookup_func d' k = lookup_func ?d k"
    "set (names (unbind ''add'' d')) = set (names ?d)"
    using bind_unbind_registry [of ?d "''add''" ref_msgpack sample_add] by blast
  then show ?thesis by (simp add: names_def lookup_func_def Dispatcher_new_def)
qed

end
