(* ===== verification/AsyncWriter.thy ===== *)
theory AsyncWriter
  imports Protocol
begin

section \<open>AsyncWriter (include/detail/async_writer.h, src/detail/async_writer.cpp)\<close>

text \<open>
  The write queue in front of a socket, shared by the client and the server session. Its
  state is the exit flag, the queue, the buffer of the outstanding \<open>async_write\<close> (\<open>None\<close> when
  none is outstanding), the handlers posted on the write strand, whether the socket was shut
  down and closed, and what has been transferred. \<open>async_write\<close> itself belongs to Boost.Asio:
  starting one records its buffer, and its completion is an event of the environment that
  brings an error code. Completion handlers and posted handlers run one at a time, as the
  strand guarantees. \<open>'t\<close> are the handlers a derived class posts on the same strand.
\<close>

datatype 't strand_task = ShutdownSocket | Derived 't

record 't writer =
  w_exit :: bool
  w_queue :: "bytes list"
  w_inflight :: "bytes option"
  w_strand :: "'t strand_task list"
  w_closed :: bool
  w_wire :: "bytes list"

text \<open>
  What the model refuses to give a meaning: \<open>front()\<close> or \<open>pop_front()\<close> of an empty deque, a
  second \<open>async_write\<close> while one is outstanding (which Asio forbids), a read into a buffer
  smaller than the read may fill, and an exception that leaves a handler, which ends the
  thread that runs the io_context. \<open>OutOfFuel\<close> is an artefact
  of fuelled loops and is proved unreachable.
\<close>

datatype fault =
  EmptyFront | OverlappingWrite | BufferOverrun | Escaped thrown | OutOfFuel

definition AsyncWriter_new :: "'t writer" where
  "AsyncWriter_new =
     \<lparr>w_exit = False, w_queue = [], w_inflight = None, w_strand = [], w_closed = False,
      w_wire = []\<rparr>"

definition post_on_strand :: "'t strand_task \<Rightarrow> 't writer \<Rightarrow> 't writer" where
  "post_on_strand t w = w\<lparr>w_strand := w_strand w @ [t]\<rparr>"

subsection \<open>Operations\<close>

definition writer_close :: "'t writer \<Rightarrow> 't writer" where
  "writer_close w = post_on_strand ShutdownSocket (w\<lparr>w_exit := True\<rparr>)"

text \<open>The handler close posts: shutdown, whose error is only logged, and close.\<close>

definition shutdown_socket :: "'t writer \<Rightarrow> 't writer" where
  "shutdown_socket w = w\<lparr>w_closed := True\<rparr>"

definition is_closed :: "'t writer \<Rightarrow> bool" where
  "is_closed w = w_exit w"

definition do_write :: "'t writer \<Rightarrow> fault + 't writer" where
  "do_write w =
     (if w_exit w then Inr w
      else case w_queue w of
          [] \<Rightarrow> Inl EmptyFront
        | item # _ \<Rightarrow>
            if w_inflight w \<noteq> None then Inl OverlappingWrite
            else Inr (w\<lparr>w_inflight := Some item\<rparr>))"

definition writer_write :: "bytes \<Rightarrow> 't writer \<Rightarrow> fault + 't writer" where
  "writer_write data w =
     (if w_exit w then Inr w
      else let w' = w\<lparr>w_queue := w_queue w @ [data]\<rparr> in
           if length (w_queue w') > 1 then Inr w' else do_write w')"

datatype write_result = WriteOk | BrokenPipe | WriteError

text \<open>Taking the front off and going on with the next message, if there is one.\<close>

definition pop_and_continue :: "'t writer \<Rightarrow> fault + 't writer" where
  "pop_and_continue w = (case w_queue w of
       [] \<Rightarrow> Inl EmptyFront
     | _ # q \<Rightarrow>
         (let w' = w\<lparr>w_queue := q\<rparr> in
          if length (w_queue w') > 0 \<and> w_exit w' = False then do_write w' else Inr w'))"

text \<open>The completion handler of do_write.\<close>

definition on_write :: "msgpack \<Rightarrow> write_result \<Rightarrow> 't writer \<Rightarrow> fault + 't writer" where
  "on_write mp ec w = (case ec of
       WriteOk \<Rightarrow> pop_and_continue w
     | BrokenPipe \<Rightarrow>
         (case w_queue w of
            [] \<Rightarrow> Inl EmptyFront
          | item # _ \<Rightarrow>
              (case mp_unpack mp item of
                 Inl x \<Rightarrow> Inl (Escaped x)
               | Inr ob \<Rightarrow>
                   if mp_array_size mp ob = 3 then pop_and_continue w else Inr w))
     | WriteError \<Rightarrow> Inr w)"

text \<open>
  A completion: the outstanding write is over, its message has been transferred as a whole
  when there was no error, and the handler runs.
\<close>

definition complete :: "msgpack \<Rightarrow> write_result \<Rightarrow> 't writer \<Rightarrow> fault + 't writer" where
  "complete mp ec w = (case w_inflight w of
       None \<Rightarrow> Inr w
     | Some item \<Rightarrow>
         on_write mp ec (w\<lparr>w_inflight := None,
           w_wire := (if ec = WriteOk then w_wire w @ [item] else w_wire w)\<rparr>))"

lemmas writer_defs [handler_defs] =
  do_write_def writer_write_def pop_and_continue_def on_write_def complete_def writer_close_def
  post_on_strand_def shutdown_socket_def

subsection \<open>The invariant\<close>

text \<open>
  The buffer of the outstanding write is the front of the queue: the handler pops the message
  that was transferred, and the buffer stays valid until then.
\<close>

definition writer_inv :: "'t writer \<Rightarrow> bool" where
  "writer_inv w \<longleftrightarrow> (\<forall>b. w_inflight w = Some b \<longrightarrow> (\<exists>q. w_queue w = b # q))"

lemma writer_inv_new [simp]: "writer_inv AsyncWriter_new"
  by (simp add: writer_inv_def AsyncWriter_new_def)

lemma do_write_cases:
  "w_inflight w = None \<Longrightarrow> w_queue w = b # q \<Longrightarrow>
     do_write w = Inr (if w_exit w then w else w\<lparr>w_inflight := Some b\<rparr>)"
  by (simp add: do_write_def)

lemma writer_write_total:
  assumes "writer_inv w"
  shows "writer_write d w = Inr
     (if w_exit w then w
      else if w_queue w = [] then w\<lparr>w_queue := [d], w_inflight := Some d\<rparr>
      else w\<lparr>w_queue := w_queue w @ [d]\<rparr>)"
proof (cases "w_queue w = [] \<and> \<not> w_exit w")
  case True
  with assms have "w_inflight w = None" by (auto simp: writer_inv_def)
  with True show ?thesis by (simp add: writer_write_def do_write_def)
next
  case False
  then show ?thesis by (auto simp: writer_write_def)
qed

lemma writer_write_inv: "writer_inv w \<Longrightarrow> writer_write d w = Inr w' \<Longrightarrow> writer_inv w'"
  by (auto simp: writer_write_total writer_inv_def split: if_splits)

lemma pop_and_continue_total:
  "w_inflight w = None \<Longrightarrow> w_queue w = b # q \<Longrightarrow>
     pop_and_continue w = Inr (w\<lparr>w_queue := q,
       w_inflight := (if w_exit w then None else case q of [] \<Rightarrow> None | b' # _ \<Rightarrow> Some b')\<rparr>)"
  by (cases q) (auto simp: pop_and_continue_def do_write_def)

text \<open>What a completion does, under the invariant.\<close>

definition next_inflight :: "'t writer \<Rightarrow> bytes list \<Rightarrow> bytes option" where
  "next_inflight w q = (if w_exit w then None else case q of [] \<Rightarrow> None | b # _ \<Rightarrow> Some b)"

lemma complete_ok:
  "w_inflight w = Some b \<Longrightarrow> w_queue w = b # q \<Longrightarrow>
     complete mp WriteOk w = Inr (w\<lparr>w_queue := q, w_inflight := next_inflight w q,
       w_wire := w_wire w @ [b]\<rparr>)"
  by (simp add: complete_def on_write_def pop_and_continue_total next_inflight_def)

lemma complete_error:
  "w_inflight w = Some b \<Longrightarrow> complete mp WriteError w = Inr (w\<lparr>w_inflight := None\<rparr>)"
  by (simp add: complete_def on_write_def)

lemma complete_broken_pipe:
  "w_inflight w = Some b \<Longrightarrow> w_queue w = b # q \<Longrightarrow>
     complete mp BrokenPipe w = (case mp_unpack mp b of
         Inl x \<Rightarrow> Inl (Escaped x)
       | Inr ob \<Rightarrow>
           if mp_array_size mp ob = 3
           then Inr (w\<lparr>w_queue := q, w_inflight := next_inflight w q\<rparr>)
           else Inr (w\<lparr>w_inflight := None\<rparr>))"
  by (simp add: complete_def on_write_def pop_and_continue_total next_inflight_def
      split: sum.splits)

lemmas complete_cases = complete_ok complete_error complete_broken_pipe

lemma next_inflight_inv: "next_inflight w q = Some b \<Longrightarrow> \<exists>r. q = b # r"
  by (auto simp: next_inflight_def split: if_splits list.splits)

lemma complete_inv:
  assumes "writer_inv w" and "complete mp ec w = Inr w'"
  shows "writer_inv w'"
proof (cases "w_inflight w")
  case None
  with assms show ?thesis by (simp add: complete_def)
next
  case (Some b)
  with assms(1) obtain q where "w_queue w = b # q" by (auto simp: writer_inv_def)
  with Some assms(2) show ?thesis
    by (cases ec) (auto simp: complete_cases writer_inv_def next_inflight_inv
        split: sum.splits if_splits)
qed

lemma close_inv [simp]: "writer_inv (writer_close w) = writer_inv w"
  by (simp add: writer_inv_def writer_close_def post_on_strand_def)

lemma shutdown_inv [simp]: "writer_inv (shutdown_socket w) = writer_inv w"
  by (simp add: writer_inv_def shutdown_socket_def)

end
