(* ===== verification/WriterRuns.thy ===== *)
theory WriterRuns
  imports AsyncWriter MsgpackRef
begin

section \<open>Runs of the writer\<close>

text \<open>
  The writer together with its environment as a step relation: messages are submitted, the
  outstanding write completes with any error code, close is called, the posted shutdown runs.
  Two history variables record what was accepted and how each message left the queue
  (transferred, or dropped after a broken pipe).
\<close>

record 't wsys =
  wr :: "'t writer"
  accepted :: "bytes list"
  finished :: "(bytes \<times> bool) list"

definition wsys_init :: "'t wsys" where
  "wsys_init = \<lparr>wr = AsyncWriter_new, accepted = [], finished = []\<rparr>"

datatype wevent = Submit bytes | Completed write_result | CloseCalled | ShutdownRuns

text \<open>How the outstanding message leaves the queue when its write completes.\<close>

definition leaves :: "msgpack \<Rightarrow> write_result \<Rightarrow> bytes \<Rightarrow> (bytes \<times> bool) list" where
  "leaves mp ec b = (case ec of
       WriteOk \<Rightarrow> [(b, True)]
     | WriteError \<Rightarrow> []
     | BrokenPipe \<Rightarrow> (case mp_unpack mp b of
           Inl _ \<Rightarrow> []
         | Inr ob \<Rightarrow> if mp_array_size mp ob = 3 then [(b, False)] else []))"

inductive wstep :: "msgpack \<Rightarrow> 't wsys \<Rightarrow> wevent \<Rightarrow> 't wsys \<Rightarrow> bool" for mp where
  submit: "writer_write d (wr s) = Inr w \<Longrightarrow>
     wstep mp s (Submit d) (s\<lparr>wr := w,
       accepted := (if w_exit (wr s) then accepted s else accepted s @ [d])\<rparr>)"
| completed: "w_inflight (wr s) = Some b \<Longrightarrow> complete mp ec (wr s) = Inr w \<Longrightarrow>
     wstep mp s (Completed ec) (s\<lparr>wr := w, finished := finished s @ leaves mp ec b\<rparr>)"
| close_called: "wstep mp s CloseCalled (s\<lparr>wr := writer_close (wr s)\<rparr>)"
| shutdown_runs: "w_strand (wr s) = ShutdownSocket # ts \<Longrightarrow>
     wstep mp s ShutdownRuns (s\<lparr>wr := (shutdown_socket (wr s))\<lparr>w_strand := ts\<rparr>\<rparr>)"

inductive wrun :: "msgpack \<Rightarrow> 't wsys \<Rightarrow> wevent list \<Rightarrow> 't wsys \<Rightarrow> bool" for mp where
  wrun_nil [intro]: "wrun mp s [] s"
| wrun_snoc [intro]: "wrun mp s es t \<Longrightarrow> wstep mp t e u \<Longrightarrow> wrun mp s (es @ [e]) u"

inductive_cases wstep_submitE [elim]: "wstep mp s (Submit d) t"
inductive_cases wstep_completedE [elim]: "wstep mp s (Completed ec) t"
inductive_cases wstep_closeE [elim]: "wstep mp s CloseCalled t"
inductive_cases wstep_shutdownE [elim]: "wstep mp s ShutdownRuns t"

subsection \<open>The history invariant\<close>

definition was_notification :: "msgpack \<Rightarrow> bytes \<Rightarrow> bool" where
  "was_notification mp b \<longleftrightarrow>
     (\<exists>ob \<in> set (case mp_unpack mp b of Inl _ \<Rightarrow> [] | Inr ob \<Rightarrow> [ob]). mp_array_size mp ob = 3)"

definition history_inv :: "msgpack \<Rightarrow> 't wsys \<Rightarrow> bool" where
  "history_inv mp s \<longleftrightarrow>
     writer_inv (wr s) \<and>
     accepted s = map fst (finished s) @ w_queue (wr s) \<and>
     w_wire (wr s) = map fst (filter snd (finished s)) \<and>
     (\<forall>(b, ok) \<in> set (finished s). ok \<or> was_notification mp b)"

lemma leaves_notification:
  "(b', ok) \<in> set (leaves mp ec b) \<Longrightarrow> ok \<or> was_notification mp b'"
  by (auto simp: leaves_def was_notification_def split: write_result.splits sum.splits if_splits)

lemma completed_effect:
  assumes "writer_inv w" and "w_inflight w = Some b" and "complete mp ec w = Inr w'"
  shows "w_queue w = map fst (leaves mp ec b) @ w_queue w' \<and>
         w_wire w' = w_wire w @ map fst (filter snd (leaves mp ec b))"
proof -
  from assms(1,2) obtain q where "w_queue w = b # q" by (auto simp: writer_inv_def)
  with assms(2,3) show ?thesis
    by (cases ec) (auto simp: complete_cases leaves_def split: sum.splits if_splits)
qed

lemma wstep_history_inv: "wstep mp s e t \<Longrightarrow> history_inv mp s \<Longrightarrow> history_inv mp t"
proof (induction rule: wstep.induct)
  case (submit d s w)
  then show ?case
    using writer_write_inv [OF _ submit(1)]
    by (auto simp: history_inv_def writer_write_total split: if_splits)
next
  case (completed s b ec w)
  then show ?case
    using completed_effect [of "wr s" b mp ec w] complete_inv [of "wr s" mp ec w]
    by (auto simp: history_inv_def dest!: leaves_notification)
next
  case (close_called s)
  then show ?case by (simp add: history_inv_def) (simp add: writer_close_def post_on_strand_def)
next
  case (shutdown_runs s ts)
  then show ?case by (simp add: history_inv_def shutdown_socket_def writer_inv_def)
qed

lemma history_inv_init [simp]: "history_inv mp wsys_init"
  by (simp add: history_inv_def wsys_init_def) (simp add: AsyncWriter_new_def)

lemma wrun_history_inv: "wrun mp s es t \<Longrightarrow> history_inv mp s \<Longrightarrow> history_inv mp t"
  by (induction rule: wrun.induct) (auto intro: wstep_history_inv)

lemma wrun_from_init: "wrun mp wsys_init es s \<Longrightarrow> history_inv mp s"
  by (erule wrun_history_inv) simp

subsection \<open>Executing a list of events\<close>

text \<open>The step relation is deterministic: a function that computes the step, if there is one.\<close>

fun wexec1 :: "msgpack \<Rightarrow> wevent \<Rightarrow> 't wsys \<Rightarrow> 't wsys option" where
  "wexec1 mp (Submit d) s = (case writer_write d (wr s) of
       Inl _ \<Rightarrow> None
     | Inr w \<Rightarrow> Some (s\<lparr>wr := w,
         accepted := (if w_exit (wr s) then accepted s else accepted s @ [d])\<rparr>))"
| "wexec1 mp (Completed ec) s = (case w_inflight (wr s) of
       None \<Rightarrow> None
     | Some b \<Rightarrow> (case complete mp ec (wr s) of
           Inl _ \<Rightarrow> None
         | Inr w \<Rightarrow> Some (s\<lparr>wr := w, finished := finished s @ leaves mp ec b\<rparr>)))"
| "wexec1 mp CloseCalled s = Some (s\<lparr>wr := writer_close (wr s)\<rparr>)"
| "wexec1 mp ShutdownRuns s = (case w_strand (wr s) of
       ShutdownSocket # ts \<Rightarrow> Some (s\<lparr>wr := (shutdown_socket (wr s))\<lparr>w_strand := ts\<rparr>\<rparr>)
     | _ \<Rightarrow> None)"

fun wexec :: "msgpack \<Rightarrow> wevent list \<Rightarrow> 't wsys \<Rightarrow> 't wsys option" where
  "wexec mp [] s = Some s"
| "wexec mp (e # es) s = (case wexec1 mp e s of None \<Rightarrow> None | Some t \<Rightarrow> wexec mp es t)"

lemma wexec1_iff_wstep: "wexec1 mp e s = Some t \<longleftrightarrow> wstep mp s e t"
  by (cases e) (auto simp: wstep.simps split: sum.splits option.splits list.splits
      strand_task.splits)

lemma wrun_Cons: "wrun mp t es u \<Longrightarrow> wstep mp s e t \<Longrightarrow> wrun mp s (e # es) u"
proof (induction rule: wrun.induct)
  case (wrun_nil t)
  then show ?case using wrun_snoc [of mp s "[]" s e t] by auto
next
  case (wrun_snoc t es v e' u)
  then show ?case using wrun.wrun_snoc [of mp s "e # es" v e' u] by simp
qed

lemma wexec_run: "wexec mp es s = Some t \<Longrightarrow> wrun mp s es t"
  by (induction es arbitrary: s)
    (auto simp: wexec1_iff_wstep intro: wrun_Cons split: option.splits)

text \<open>C21. The writer is a queue: in every state it can reach, what it accepted is exactly what
  has left it followed by what it still holds, in order and without loss or repetition; what
  left it went onto the wire, in order, except for notifications that met a broken pipe.\<close>

theorem writer_fifo:
  assumes "wrun mp (wsys_init :: 't wsys) es s"
  shows "accepted s = map fst (finished s) @ w_queue (wr s) \<and>
     w_wire (wr s) = map fst (filter snd (finished s)) \<and>
     (\<forall>(b, ok) \<in> set (finished s). ok \<or> was_notification mp b)"
  using wrun_from_init [OF assms] by (simp add: history_inv_def)

text \<open>Messages and states for the witnesses: two calls and a notification are submitted, the
  first is transferred, the notification meets a broken pipe.\<close>

definition sample_call :: bytes where
  "sample_call = mp_pack ref_msgpack (call_obj 1 ''f'' [])"

definition sample_note :: bytes where
  "sample_note = mp_pack ref_msgpack (notify_obj ''g'' [])"

lemma sample_unpack [simp]:
  "mp_unpack ref_msgpack sample_call = Inr (call_obj 1 ''f'' [])"
  "mp_unpack ref_msgpack sample_note = Inr (notify_obj ''g'' [])"
  using unpack_pack [of ref_msgpack "call_obj 1 ''f'' []"]
    unpack_pack [of ref_msgpack "notify_obj ''g'' []"]
  by (simp_all add: sample_call_def sample_note_def packable_call_def)

lemma sample_packed:
  "\<exists>ob. packable ob \<and> sample_call = mp_pack ref_msgpack ob"
  "\<exists>ob. packable ob \<and> sample_note = mp_pack ref_msgpack ob"
  unfolding sample_call_def sample_note_def
  by (rule exI [of _ "call_obj 1 ''f'' []"], simp add: packable_call_def)
    (rule exI [of _ "notify_obj ''g'' []"], simp add: packable_call_def)

definition sample_events :: "wevent list" where
  "sample_events = [Submit sample_call, Submit sample_note, Submit sample_call,
     Completed WriteOk, Completed BrokenPipe]"

definition sample_state :: "unit wsys" where
  "sample_state =
     \<lparr>wr = AsyncWriter_new\<lparr>w_queue := [sample_call], w_inflight := Some sample_call,
        w_wire := [sample_call]\<rparr>,
      accepted = [sample_call, sample_note, sample_call],
      finished = [(sample_call, True), (sample_note, False)]\<rparr>"

lemmas wexec_simps =
  writer_defs leaves_def wsys_init_def AsyncWriter_new_def

lemma sample_run: "wrun ref_msgpack wsys_init sample_events sample_state"
  by (rule wexec_run) (simp add: sample_events_def sample_state_def wexec_simps)

theorem writer_fifo_witness:
  "accepted sample_state = map fst (finished sample_state) @ w_queue (wr sample_state) \<and>
     w_wire (wr sample_state) = map fst (filter snd (finished sample_state)) \<and>
     was_notification ref_msgpack sample_note"
  using writer_fifo [OF sample_run] by (simp add: sample_state_def)

subsection \<open>No undefined behaviour\<close>

definition all_packed :: "msgpack \<Rightarrow> bytes list \<Rightarrow> bool" where
  "all_packed mp ds \<longleftrightarrow> (\<forall>d \<in> set ds. \<exists>ob. packable ob \<and> d = mp_pack mp ob)"

text \<open>C22. In every state the writer can reach, submitting a message never takes the front of an
  empty queue and never starts a second write beside an outstanding one; the outstanding
  write's buffer is the front of the queue; and its completion handler pops a message that is
  there, whatever the error code, and throws nothing as long as every submitted message is a
  packed object.\<close>

theorem writer_never_faults:
  assumes "wrun mp (wsys_init :: 't wsys) es s"
    and "codec_laws mp" and "all_packed mp (accepted s)"
  shows "(\<exists>w. writer_write d (wr s) = Inr w) \<and>
     (\<forall>b. w_inflight (wr s) = Some b \<longrightarrow>
        (\<exists>q. w_queue (wr s) = b # q) \<and> (\<exists>w. complete mp ec (wr s) = Inr w))"
proof -
  from wrun_from_init [OF assms(1)] have inv: "history_inv mp s" .
  then have w: "writer_inv (wr s)" by (simp add: history_inv_def)
  have "\<exists>w. complete mp ec (wr s) = Inr w" if b: "w_inflight (wr s) = Some b" for b
  proof -
    from w b obtain q where q: "w_queue (wr s) = b # q" by (auto simp: writer_inv_def)
    with inv assms(3) have "\<exists>ob. packable ob \<and> b = mp_pack mp ob"
      by (auto simp: history_inv_def all_packed_def)
    with b q assms(2) show ?thesis by (cases ec) (auto simp: complete_cases)
  qed
  with w show ?thesis by (auto simp: writer_write_total writer_inv_def)
qed

theorem writer_never_faults_witness:
  "(\<exists>w. writer_write sample_call (wr sample_state) = Inr w) \<and>
     (\<exists>q. w_queue (wr sample_state) = sample_call # q) \<and>
     (\<exists>w. complete ref_msgpack BrokenPipe (wr sample_state) = Inr w)"
proof -
  have "all_packed ref_msgpack (accepted sample_state)"
    by (simp add: all_packed_def sample_state_def sample_packed)
  from writer_never_faults [OF sample_run ref_codec_laws this, of sample_call BrokenPipe]
  show ?thesis by (simp add: sample_state_def)
qed

subsection \<open>A failed write stalls the queue\<close>

definition stalled :: "'t writer \<Rightarrow> bool" where
  "stalled w \<longleftrightarrow> w_inflight w = None \<and> w_queue w \<noteq> []"

lemma stalled_step:
  "wstep mp s e t \<Longrightarrow> stalled (wr s) \<Longrightarrow> stalled (wr t) \<and> w_wire (wr t) = w_wire (wr s)"
  by (induction rule: wstep.induct)
    (auto simp: stalled_def writer_write_def writer_close_def post_on_strand_def
      shutdown_socket_def Let_def split: if_splits)

lemma stalled_run:
  "wrun mp s es t \<Longrightarrow> stalled (wr s) \<Longrightarrow> stalled (wr t) \<and> w_wire (wr t) = w_wire (wr s)"
  by (induction rule: wrun.induct) (auto dest: stalled_step)

text \<open>C23. When the write of a call fails (any error, a broken pipe included), or the write of a
  notification fails with an error other than a broken pipe, the message stays at the front
  of the queue with no write outstanding, and nothing that is submitted later is ever put on
  the wire: the queue only grows.\<close>

theorem failed_write_stalls:
  assumes "wrun mp (wsys_init :: 't wsys) es s" and "w_inflight (wr s) = Some b"
    and "leaves mp ec b = []" and "wstep mp s (Completed ec) t" and "wrun mp t es' u"
  shows "w_wire (wr u) = w_wire (wr s) \<and> w_inflight (wr u) = None"
proof -
  have "writer_inv (wr s)"
    using wrun_from_init [OF assms(1)] by (simp add: history_inv_def)
  with assms(2) obtain q where q: "w_queue (wr s) = b # q" by (auto simp: writer_inv_def)
  from assms(4) obtain w where w: "complete mp ec (wr s) = Inr w" "wr t = w" by auto
  have "w = (wr s)\<lparr>w_inflight := None\<rparr>"
    using assms(2,3) q w(1)
    by (cases ec) (auto simp: complete_cases leaves_def split: sum.splits if_splits)
  with q w(2) have "stalled (wr t) \<and> w_wire (wr t) = w_wire (wr s)"
    by (simp add: stalled_def)
  with stalled_run [OF assms(5)] show ?thesis by (auto simp: stalled_def)
qed

theorem failed_write_stalls_witness:
  "w_wire (wr (sample_state\<lparr>wr := (wr sample_state)\<lparr>w_queue := [sample_call, sample_note],
      w_inflight := None\<rparr>, accepted := accepted sample_state @ [sample_note]\<rparr>))
    = w_wire (wr sample_state) \<and>
   w_inflight (wr (sample_state\<lparr>wr := (wr sample_state)\<lparr>w_queue := [sample_call, sample_note],
      w_inflight := None\<rparr>, accepted := accepted sample_state @ [sample_note]\<rparr>)) = None"
proof (rule failed_write_stalls [OF sample_run])
  show "w_inflight (wr sample_state) = Some sample_call"
    by (simp add: sample_state_def)
  show "leaves ref_msgpack BrokenPipe sample_call = []"
    by (simp add: leaves_def)
  show "wstep ref_msgpack sample_state (Completed BrokenPipe)
      (sample_state\<lparr>wr := (wr sample_state)\<lparr>w_inflight := None\<rparr>\<rparr>)"
    by (rule wexec1_iff_wstep [THEN iffD1]) (simp add: sample_state_def wexec_simps)
  show "wrun ref_msgpack (sample_state\<lparr>wr := (wr sample_state)\<lparr>w_inflight := None\<rparr>\<rparr>)
      [Submit sample_note]
      (sample_state\<lparr>wr := (wr sample_state)\<lparr>w_queue := [sample_call, sample_note],
        w_inflight := None\<rparr>, accepted := accepted sample_state @ [sample_note]\<rparr>)"
    by (rule wexec_run) (simp add: sample_state_def wexec_simps)
qed

subsection \<open>Closing\<close>

definition closing :: "'t wsys \<Rightarrow> 't wsys \<Rightarrow> bool" where
  "closing s t \<longleftrightarrow> w_exit (wr t) \<and> accepted t = accepted s \<and>
     (w_inflight (wr t) = w_inflight (wr s) \<and> w_wire (wr t) = w_wire (wr s) \<or>
      w_inflight (wr t) = None \<and>
        (w_wire (wr t) = w_wire (wr s) \<or>
         (\<exists>b. w_inflight (wr s) = Some b \<and> w_wire (wr t) = w_wire (wr s) @ [b])))"

lemma closing_step:
  "wstep mp t e u \<Longrightarrow> writer_inv (wr t) \<Longrightarrow> closing s t \<Longrightarrow> closing s u"
proof (induction rule: wstep.induct)
  case (completed t b ec w)
  then obtain q where "w_queue (wr t) = b # q" by (auto simp: writer_inv_def)
  with completed show ?case
    by (cases ec) (auto simp: closing_def complete_cases next_inflight_def
        split: sum.splits if_splits)
qed (auto simp: closing_def writer_write_total writer_close_def post_on_strand_def
    shutdown_socket_def)

lemma closing_run:
  "wrun mp t es u \<Longrightarrow> history_inv mp t \<Longrightarrow> closing s t \<Longrightarrow> closing s u"
proof (induction rule: wrun.induct)
  case (wrun_snoc t es v e u)
  then have "writer_inv (wr v)"
    using wrun_history_inv by (auto simp: history_inv_def)
  with wrun_snoc show ?case by (blast intro: closing_step)
qed

text \<open>C24. From the moment close is called, nothing more is accepted and no write is started: of
  all the queued messages, at most the one whose write is already outstanding still reaches
  the wire. The rest of the queue is never sent, whatever happens afterwards.\<close>

theorem close_drops_queue:
  assumes "wrun mp (wsys_init :: 't wsys) es s" and "wstep mp s CloseCalled t"
    and "wrun mp t es' u"
  shows "accepted u = accepted s \<and>
     (w_wire (wr u) = w_wire (wr s) \<or>
      (\<exists>b. w_inflight (wr s) = Some b \<and> w_wire (wr u) = w_wire (wr s) @ [b]))"
proof -
  have t: "t = s\<lparr>wr := writer_close (wr s)\<rparr>" using assms(2) by auto
  have "history_inv mp s" by (rule wrun_from_init [OF assms(1)])
  with assms(2) have "history_inv mp t" by (rule wstep_history_inv)
  moreover have "closing s t"
    by (simp add: t closing_def writer_close_def post_on_strand_def)
  ultimately have "closing s u" by (rule closing_run [OF assms(3)])
  then show ?thesis by (auto simp: closing_def)
qed

text \<open>For the witness: after close, the outstanding write of the sample state is transferred and
  another message is submitted.\<close>

definition sample_closed :: "unit wsys" where
  "sample_closed = sample_state\<lparr>wr := writer_close (wr sample_state)\<rparr>"

definition sample_after_close :: "unit wsys" where
  "sample_after_close = sample_closed\<lparr>
     wr := (wr sample_closed)\<lparr>w_queue := [], w_inflight := None,
       w_wire := [sample_call, sample_call]\<rparr>,
     finished := finished sample_closed @ [(sample_call, True)]\<rparr>"

theorem close_drops_queue_witness:
  "accepted sample_after_close = accepted sample_state \<and>
     (w_wire (wr sample_after_close) = w_wire (wr sample_state) \<or>
      (\<exists>b. w_inflight (wr sample_state) = Some b \<and>
         w_wire (wr sample_after_close) = w_wire (wr sample_state) @ [b]))"
proof (rule close_drops_queue [OF sample_run])
  show "wstep ref_msgpack sample_state CloseCalled sample_closed"
    unfolding sample_closed_def by (rule wstep.close_called)
  show "wrun ref_msgpack sample_closed [Completed WriteOk, Submit sample_note] sample_after_close"
    by (rule wexec_run)
      (simp add: sample_after_close_def sample_closed_def sample_state_def wexec_simps)
qed

subsection \<open>The writer as a channel\<close>

text \<open>
  What the client and the session use of the writer while it is open and nothing fails: an
  unbounded first-in first-out channel. \<open>put\<close> appends to what is pending, \<open>deliver\<close> moves the
  oldest pending message to what was sent.
\<close>

locale fifo_channel =
  fixes put :: "'b \<Rightarrow> 'q \<Rightarrow> 'q"
    and deliver :: "'q \<Rightarrow> 'q"
    and pending :: "'q \<Rightarrow> 'b list"
    and sent :: "'q \<Rightarrow> 'b list"
    and ready :: "'q \<Rightarrow> bool"
  assumes ready_put: "ready q \<Longrightarrow> ready (put b q)"
    and ready_deliver: "ready q \<Longrightarrow> ready (deliver q)"
    and pending_put: "ready q \<Longrightarrow> pending (put b q) = pending q @ [b]"
    and sent_put: "ready q \<Longrightarrow> sent (put b q) = sent q"
    and pending_deliver: "ready q \<Longrightarrow> pending q = b # bs \<Longrightarrow> pending (deliver q) = bs"
    and sent_deliver: "ready q \<Longrightarrow> pending q = b # bs \<Longrightarrow> sent (deliver q) = sent q @ [b]"
begin

lemma put_all:
  "ready q \<Longrightarrow> ready (fold put bs q) \<and> pending (fold put bs q) = pending q @ bs \<and>
     sent (fold put bs q) = sent q"
  by (induction bs arbitrary: q) (auto simp: ready_put pending_put sent_put)

lemma deliver_all:
  "ready q \<Longrightarrow> pending q = bs \<Longrightarrow>
     ready ((deliver ^^ length bs) q) \<and> pending ((deliver ^^ length bs) q) = [] \<and>
     sent ((deliver ^^ length bs) q) = sent q @ bs"
proof (induction bs arbitrary: q)
  case Nil
  then show ?case by simp
next
  case (Cons b bs)
  have "ready (deliver q)" "pending (deliver q) = bs" "sent (deliver q) = sent q @ [b]"
    using Cons.prems by (auto simp: ready_deliver pending_deliver sent_deliver)
  with Cons.IH [of "deliver q"] show ?case by (simp add: funpow_swap1)
qed

lemma drained:
  "ready q \<Longrightarrow> pending q = [] \<Longrightarrow>
     pending ((deliver ^^ length bs) (fold put bs q)) = [] \<and>
     sent ((deliver ^^ length bs) (fold put bs q)) = sent q @ bs"
  using put_all [of q bs] deliver_all [of "fold put bs q" bs] by simp

end

text \<open>The writer's operations without their faults: on an open writer in good order there are none.\<close>

definition or_unchanged :: "'s \<Rightarrow> 'f + 's \<Rightarrow> 's" where
  "or_unchanged s r = (case r of Inl _ \<Rightarrow> s | Inr s' \<Rightarrow> s')"

definition put_message :: "bytes \<Rightarrow> 't writer \<Rightarrow> 't writer" where
  "put_message d w = or_unchanged w (writer_write d w)"

definition transfer :: "msgpack \<Rightarrow> 't writer \<Rightarrow> 't writer" where
  "transfer mp w = or_unchanged w (complete mp WriteOk w)"

definition writer_open :: "'t writer \<Rightarrow> bool" where
  "writer_open w \<longleftrightarrow> \<not> w_exit w \<and>
     w_inflight w = (case w_queue w of [] \<Rightarrow> None | b # _ \<Rightarrow> Some b)"

lemma writer_open_inv: "writer_open w \<Longrightarrow> writer_inv w"
  by (auto simp: writer_open_def writer_inv_def split: list.splits)

lemma put_message_open:
  "writer_open w \<Longrightarrow> put_message d w =
     (if w_queue w = [] then w\<lparr>w_queue := [d], w_inflight := Some d\<rparr>
      else w\<lparr>w_queue := w_queue w @ [d]\<rparr>)"
  by (simp add: put_message_def or_unchanged_def writer_write_total [OF writer_open_inv])
    (simp add: writer_open_def)

lemma transfer_open:
  "writer_open w \<Longrightarrow> w_queue w = b # q \<Longrightarrow> transfer mp w =
     w\<lparr>w_queue := q, w_inflight := (case q of [] \<Rightarrow> None | b' # _ \<Rightarrow> Some b'),
       w_wire := w_wire w @ [b]\<rparr>"
  by (simp add: transfer_def or_unchanged_def writer_open_def complete_ok next_inflight_def)

lemma transfer_idle: "writer_open w \<Longrightarrow> w_queue w = [] \<Longrightarrow> transfer mp w = w"
  by (simp add: transfer_def or_unchanged_def writer_open_def complete_def)

interpretation chan: fifo_channel put_message "transfer mp" w_queue w_wire writer_open for mp
proof unfold_locales
  fix q :: "'t writer" and b
  assume r: "writer_open q"
  then show "writer_open (put_message b q)"
    by (auto simp: put_message_open) (auto simp: writer_open_def split: list.splits)
  show "writer_open (transfer mp q)"
    using r by (cases "w_queue q") (auto simp: transfer_idle transfer_open writer_open_def)
qed (auto simp: put_message_open transfer_open)

text \<open>An open idle writer delivers: after any messages are written and as many writes have
  completed without error, the queue is empty again and exactly those messages have been added
  to the wire, in the order they were written.\<close>

lemma writer_drains:
  assumes "writer_open w" and "w_queue w = []"
  shows "w_queue ((transfer mp ^^ length ds) (fold put_message ds w)) = [] \<and>
     w_wire ((transfer mp ^^ length ds) (fold put_message ds w)) = w_wire w @ ds"
  by (rule chan.drained [OF assms])

lemma writer_drains_witness:
  "w_queue ((transfer ref_msgpack ^^ length [sample_call, sample_note])
       (fold put_message [sample_call, sample_note] (AsyncWriter_new :: unit writer))) = [] \<and>
   w_wire ((transfer ref_msgpack ^^ length [sample_call, sample_note])
       (fold put_message [sample_call, sample_note] (AsyncWriter_new :: unit writer)))
     = w_wire (AsyncWriter_new :: unit writer) @ [sample_call, sample_note]"
  by (rule writer_drains) (simp_all add: writer_open_def AsyncWriter_new_def)

end
