(* ===== verification/Unpacker.thy ===== *)
theory Unpacker
  imports AsyncWriter MsgpackRef
begin

section \<open>The streaming unpacker as the program drives it\<close>

text \<open>
  Client and session read the same way (src/client.cpp and src/detail/server_session.cpp,
  \<open>do_read\<close>): reserve, read at most \<open>max_read_bytes\<close> into the unpacker's buffer, tell it how
  many bytes arrived, take complete objects out of it until there is none, and reserve again
  when less than \<open>max_read_bytes\<close> are free. The unpacker's state is the bytes it holds and its
  free capacity, of which \<open>buffer_consumed\<close> takes what was read.
\<close>

record unpacker =
  u_buf :: bytes
  u_cap :: nat

definition max_read_bytes :: nat where
  "max_read_bytes = push_bit 10 1024"

definition DEFAULT_PORT :: "16 word" where
  "DEFAULT_PORT = 8080"

lemma max_read_bytes_eq: "max_read_bytes = 1048576"
  by (simp add: max_read_bytes_def push_bit_eq_mult)

definition reserve_buffer :: "msgpack \<Rightarrow> nat \<Rightarrow> unpacker \<Rightarrow> unpacker" where
  "reserve_buffer mp n u = u\<lparr>u_cap := mp_reserve mp (u_cap u) n\<rparr>"

definition unpacker_new :: "msgpack \<Rightarrow> unpacker" where
  "unpacker_new mp = reserve_buffer mp max_read_bytes \<lparr>u_buf = [], u_cap = 0\<rparr>"

text \<open>\<open>async_read_some\<close> into the buffer: it may fill \<open>max_read_bytes\<close> bytes.\<close>

definition start_read :: "unpacker \<Rightarrow> fault + unpacker" where
  "start_read u = (if u_cap u < max_read_bytes then Inl BufferOverrun else Inr u)"

definition buffer_consumed :: "bytes \<Rightarrow> unpacker \<Rightarrow> unpacker" where
  "buffer_consumed bs u = u\<lparr>u_buf := u_buf u @ bs, u_cap := u_cap u - length bs\<rparr>"

definition reserve_if_low :: "msgpack \<Rightarrow> unpacker \<Rightarrow> unpacker" where
  "reserve_if_low mp u = (if u_cap u < max_read_bytes then reserve_buffer mp max_read_bytes u else u)"

datatype next_result = NextObject mobj unpacker | NoObject | NextThrows thrown

definition unpacker_next :: "msgpack \<Rightarrow> unpacker \<Rightarrow> next_result" where
  "unpacker_next mp u = (case mp_parse mp (u_buf u) of
       Parsed ob r \<Rightarrow> NextObject ob (u\<lparr>u_buf := r\<rparr>)
     | Insufficient \<Rightarrow> NoObject
     | Malformed \<Rightarrow> NextThrows (StdException (mp_parse_error mp)))"

datatype read_result = ReadOk bytes | ReadEof | ReadReset | ReadError

lemma reserve_if_low_cap: "buffer_laws mp \<Longrightarrow> max_read_bytes \<le> u_cap (reserve_if_low mp u)"
  by (simp add: reserve_if_low_def reserve_buffer_def reserve_enough)

lemma reserve_if_low_buf [simp]: "u_buf (reserve_if_low mp u) = u_buf u"
  by (simp add: reserve_if_low_def reserve_buffer_def)

lemma unpacker_new_cap: "buffer_laws mp \<Longrightarrow> max_read_bytes \<le> u_cap (unpacker_new mp)"
  by (simp add: unpacker_new_def reserve_buffer_def reserve_enough)

lemma unpacker_new_buf [simp]: "u_buf (unpacker_new mp) = []"
  by (simp add: unpacker_new_def reserve_buffer_def)

subsection \<open>The objects in a buffer\<close>

text \<open>
  \<open>frames mp bs obs rest\<close>: reading objects from the buffer \<open>bs\<close> until none is complete gives
  \<open>obs\<close> and leaves \<open>rest\<close>.
\<close>

inductive frames :: "msgpack \<Rightarrow> bytes \<Rightarrow> mobj list \<Rightarrow> bytes \<Rightarrow> bool" for mp where
  frames_end: "mp_parse mp bs = Insufficient \<Longrightarrow> frames mp bs [] bs"
| frames_obj: "mp_parse mp bs = Parsed ob r \<Longrightarrow> frames mp r obs rest \<Longrightarrow>
     frames mp bs (ob # obs) rest"

inductive_simps frames_insufficient: "frames mp bs [] rest"
inductive_simps frames_cons: "frames mp bs (ob # obs) rest"

lemma frames_deterministic:
  "frames mp bs obs rest \<Longrightarrow> frames mp bs obs' rest' \<Longrightarrow> obs' = obs \<and> rest' = rest"
proof (induction arbitrary: obs' rest' rule: frames.induct)
  case (frames_end bs)
  then show ?case by (cases obs') (simp_all add: frames_insufficient frames_cons)
next
  case (frames_obj bs ob r obs rest)
  obtain x xs where obs': "obs' = x # xs"
    using frames_obj.prems frames_obj.hyps(1) by (cases obs') (simp_all add: frames_insufficient)
  with frames_obj.prems frames_obj.hyps(1) have "x = ob" "frames mp r xs rest'"
    by (simp_all add: frames_cons)
  with frames_obj.IH obs' show ?case by blast
qed

lemma frames_packed:
  "codec_laws mp \<Longrightarrow> (\<forall>ob \<in> set obs. packable ob) \<Longrightarrow> mp_parse mp tail = Insufficient \<Longrightarrow>
     frames mp (concat (map (mp_pack mp) obs) @ tail) obs tail"
  by (induction obs) (auto intro: frames.intros simp: parse_pack)

text \<open>A stream of packed objects cut at any place: the first part holds some of the objects and
  a tail that is no object yet, and reading goes on from that tail.\<close>

definition stream :: "msgpack \<Rightarrow> mobj list \<Rightarrow> bytes" where
  "stream mp obs = concat (map (mp_pack mp) obs)"

lemma stream_simps [simp]:
  "stream mp [] = []" "stream mp (ob # obs) = mp_pack mp ob @ stream mp obs"
  "stream mp (xs @ ys) = stream mp xs @ stream mp ys"
  by (simp_all add: stream_def)

lemma stream_cut:
  assumes "codec_laws mp" and "\<forall>ob \<in> set obs. packable ob" and "p @ q = stream mp obs"
  shows "\<exists>ds es tail. obs = ds @ es \<and> p = stream mp ds @ tail \<and>
     mp_parse mp tail = Insufficient \<and> tail @ q = stream mp es"
  using assms
proof (induction obs arbitrary: p)
  case Nil
  then show ?case using parse_empty by auto
next
  case (Cons ob obs)
  show ?case
  proof (cases "length p < length (mp_pack mp ob)")
    case True
    with Cons.prems(3) have "p = take (length p) (mp_pack mp ob)"
      by (auto simp: append_eq_append_conv_if split: if_splits)
    with True Cons.prems(1,2) have "mp_parse mp p = Insufficient"
      using parse_prefix [of mp ob "length p"] by simp
    with Cons.prems(3) show ?thesis
      by (intro exI [of _ "[]"] exI [of _ "ob # obs"] exI [of _ p]) simp
  next
    case False
    then obtain p' where p': "p = mp_pack mp ob @ p'" "p' @ q = stream mp obs"
      using Cons.prems(3) by (auto simp: append_eq_append_conv_if split: if_splits)
        (metis append_take_drop_id append.assoc same_append_eq)
    with Cons.IH [of p'] Cons.prems obtain ds es tail where
      "obs = ds @ es" "p' = stream mp ds @ tail" "mp_parse mp tail = Insufficient"
      "tail @ q = stream mp es" by auto
    with p' show ?thesis
      by (intro exI [of _ "ob # ds"] exI [of _ es] exI [of _ tail]) simp
  qed
qed

text \<open>For the runs of the witnesses: with the codec of MsgpackRef a message is parsed as a whole, and there is
  always room for the next read.\<close>

lemma ref_room: "\<not> u_cap (reserve_if_low ref_msgpack u) < max_read_bytes"
  using reserve_if_low_cap [OF ref_buffer_laws, of u] by simp

lemma stream_one: "stream mp [ob] = mp_pack mp ob"
  by (simp add: stream_def)

lemmas ref_runs = ref_room stream_one parse_pack_whole [OF ref_codec_laws] parse_empty [OF ref_codec_laws]

end
