(* ===== verification/ServerSession.thy ===== *)
theory ServerSession
  imports DispatcherSpec WriterRuns Unpacker
begin

section \<open>ServerSession (include/detail/server\_session.h, src/detail/server\_session.cpp)\<close>

text \<open>
  A session is an AsyncWriter with a reader. Its state adds to the writer's: the unpacker,
  whether an \<open>async_read_some\<close> is outstanding, the decoded messages posted to the io_context
  and not yet taken by a worker, the suppress flag and the session id (the address of the
  object). The handlers a session posts on the write strand are the four constructors of
  \<open>session_task\<close>; those that call the parent server return that call, which the theory Server
  carries out.
\<close>

datatype session_task = WriteResponse response | CloseTask | CloseSessionsTask | Deregister

record sess =
  ss_writer :: "session_task writer"
  ss_unpac :: unpacker
  ss_reading :: bool
  ss_jobs :: "mobj list"
  ss_suppress :: bool
  ss_id :: "64 word"

datatype parent_call = NoCall | CallCloseSession | CallCloseSessions

definition ServerSession_new :: "msgpack \<Rightarrow> bool \<Rightarrow> 64 word \<Rightarrow> sess" where
  "ServerSession_new mp suppress sid =
     \<lparr>ss_writer = AsyncWriter_new, ss_unpac = unpacker_new mp, ss_reading = False,
      ss_jobs = [], ss_suppress = suppress, ss_id = sid\<rparr>"

definition with_writer :: "(session_task writer \<Rightarrow> fault + session_task writer) \<Rightarrow> sess \<Rightarrow> fault + sess" where
  "with_writer f s = map_sum id (\<lambda>w. s\<lparr>ss_writer := w\<rparr>) (f (ss_writer s))"

subsection \<open>close and the reader\<close>

text \<open>\<open>AsyncWriter::close\<close> first posts the shutdown, then the session posts its own removal.\<close>

definition session_close :: "sess \<Rightarrow> sess" where
  "session_close s =
     s\<lparr>ss_writer := post_on_strand (Derived Deregister) (writer_close (ss_writer s))\<rparr>"

definition session_do_read :: "sess \<Rightarrow> fault + sess" where
  "session_do_read s = (case start_read (ss_unpac s) of
       Inl f \<Rightarrow> Inl f
     | Inr u \<Rightarrow> Inr (s\<lparr>ss_unpac := u, ss_reading := True\<rparr>))"

definition session_start :: "sess \<Rightarrow> fault + sess" where
  "session_start s = session_do_read s"

text \<open>
  The loop \<open>while (unpac_.next(result) \<and> \<not> is_closed())\<close>, which posts one job per object. Every
  object consumes at least a byte, so the length of the buffer bounds the iterations.
\<close>

fun session_decode :: "msgpack \<Rightarrow> nat \<Rightarrow> sess \<Rightarrow> fault + sess" where
  "session_decode mp 0 s = Inl OutOfFuel"
| "session_decode mp (Suc n) s = (case unpacker_next mp (ss_unpac s) of
       NoObject \<Rightarrow> Inr s
     | NextThrows x \<Rightarrow> Inl (Escaped x)
     | NextObject ob u \<Rightarrow>
         if is_closed (ss_writer s) then Inr (s\<lparr>ss_unpac := u\<rparr>)
         else session_decode mp n (s\<lparr>ss_unpac := u, ss_jobs := ss_jobs s @ [ob]\<rparr>))"

definition decode_fuel :: "sess \<Rightarrow> nat" where
  "decode_fuel s = Suc (length (u_buf (ss_unpac s)))"

text \<open>The completion handler of do_read.\<close>

definition session_on_read :: "msgpack \<Rightarrow> read_result \<Rightarrow> sess \<Rightarrow> fault + sess" where
  "session_on_read mp rr s0 =
     (let s = s0\<lparr>ss_reading := False\<rparr> in
      if is_closed (ss_writer s) then Inr s
      else case rr of
          ReadOk bs \<Rightarrow>
            (let s1 = s\<lparr>ss_unpac := buffer_consumed bs (ss_unpac s)\<rparr> in
             case session_decode mp (decode_fuel s1) s1 of
               Inl f \<Rightarrow> Inl f
             | Inr s2 \<Rightarrow>
                 if \<not> is_closed (ss_writer s2)
                 then session_do_read (s2\<lparr>ss_unpac := reserve_if_low mp (ss_unpac s2)\<rparr>)
                 else Inr s2)
        | ReadEof \<Rightarrow> Inr (session_close s)
        | ReadReset \<Rightarrow> Inr (session_close s)
        | ReadError \<Rightarrow> Inr s)"

subsection \<open>A worker takes a message\<close>

text \<open>
  The posted job: reset the thread's contexts, dispatch, and decide what is sent. The result
  is the handlers it posts on the write strand, in order. A disabled response returns before
  the exit and stop requests are looked at.
\<close>

definition captured :: "'w ctx \<Rightarrow> response \<Rightarrow> response" where
  "captured c resp =
     (if th_error (handler c) \<noteq> MNil then capture_error (th_error (handler c)) resp
      else if th_resp (handler c) \<noteq> MNil then capture_result (th_resp (handler c)) resp
      else resp)"

definition answer_tasks :: "'w ctx \<Rightarrow> response \<Rightarrow> session_task list" where
  "answer_tasks c resp0 =
     (if \<not> th_resp_enabled (handler c) then []
      else let resp = captured c resp0 in
        (if \<not> is_empty resp then [WriteResponse resp] else []) @
        (if ts_exit (session c) then [CloseTask] else []) @
        (if stopping c then [CloseSessionsTask] else []))"

definition process_request ::
  "msgpack \<Rightarrow> 'w dispatcher \<Rightarrow> bool \<Rightarrow> 64 word \<Rightarrow> mobj \<Rightarrow> ('w ctx, thrown, session_task list) throwing" where
  "process_request mp d suppress sid msg_obj = (\<lambda>c.
     case dispatch mp d msg_obj suppress (reset_ctx sid c) of
       (Inl x, c') \<Rightarrow> (Inl x, c')
     | (Inr resp, c') \<Rightarrow> (Inr (answer_tasks c' resp), c'))"

definition post_tasks :: "session_task list \<Rightarrow> sess \<Rightarrow> sess" where
  "post_tasks ts s = s\<lparr>ss_writer := fold (\<lambda>t. post_on_strand (Derived t)) ts (ss_writer s)\<rparr>"

text \<open>With several workers any posted job may be the next to run; \<open>k\<close> says which.\<close>

definition run_job ::
  "msgpack \<Rightarrow> 'w dispatcher \<Rightarrow> nat \<Rightarrow> sess \<Rightarrow> 'w ctx \<Rightarrow> fault + sess \<times> 'w ctx" where
  "run_job mp d k s c =
     (if k < length (ss_jobs s)
      then (case process_request mp d (ss_suppress s) (ss_id s) (ss_jobs s ! k) c of
          (Inl x, c') \<Rightarrow> Inl (Escaped x)
        | (Inr ts, c') \<Rightarrow>
            Inr (post_tasks ts (s\<lparr>ss_jobs := take k (ss_jobs s) @ drop (Suc k) (ss_jobs s)\<rparr>), c'))
      else Inr (s, c))"

subsection \<open>The write strand\<close>

definition run_session_task :: "msgpack \<Rightarrow> session_task \<Rightarrow> sess \<Rightarrow> fault + sess \<times> parent_call" where
  "run_session_task mp t s = (case t of
       WriteResponse resp \<Rightarrow>
         map_sum id (\<lambda>s'. (s', NoCall)) (with_writer (writer_write (response_data mp resp)) s)
     | CloseTask \<Rightarrow> Inr (session_close s, NoCall)
     | CloseSessionsTask \<Rightarrow> Inr (s, CallCloseSessions)
     | Deregister \<Rightarrow> Inr (s, CallCloseSession))"

definition run_strand :: "msgpack \<Rightarrow> sess \<Rightarrow> fault + sess \<times> parent_call" where
  "run_strand mp s = (case w_strand (ss_writer s) of
       [] \<Rightarrow> Inr (s, NoCall)
     | t # ts \<Rightarrow>
         (let s' = s\<lparr>ss_writer := (ss_writer s)\<lparr>w_strand := ts\<rparr>\<rparr> in
          case t of
            ShutdownSocket \<Rightarrow> Inr (s'\<lparr>ss_writer := shutdown_socket (ss_writer s')\<rparr>, NoCall)
          | Derived u \<Rightarrow> run_session_task mp u s'))"

definition session_on_write :: "msgpack \<Rightarrow> write_result \<Rightarrow> sess \<Rightarrow> fault + sess" where
  "session_on_write mp ec s = with_writer (complete mp ec) s"

text \<open>The definitions that are unfolded to execute a handler of a session on a concrete state.\<close>

lemmas session_defs [handler_defs] =
  session_do_read_def session_start_def session_on_read_def decode_fuel_def run_job_def
  run_strand_def run_session_task_def session_on_write_def with_writer_def session_close_def
  start_read_def is_closed_def buffer_consumed_def

end
