(* ===== verification/SessionRuns.thy ===== *)
theory SessionRuns
  imports ServerSession
begin

section \<open>Runs of a session\<close>

text \<open>
  The session with its environment as a machine: a read completes, a worker runs one of the
  posted jobs, the write strand runs its next handler, the outstanding write completes, and
  the server closes the session. The calls of the parent server leave the session's own state
  alone. A fault stops the machine.
\<close>

datatype sess_event =
  Read read_result | Job nat | Strand | Wrote write_result | CloseRequested

definition sess_step ::
  "msgpack \<Rightarrow> 'w dispatcher \<Rightarrow> sess \<times> 'w ctx \<Rightarrow> sess_event \<Rightarrow> fault + sess \<times> 'w ctx" where
  "sess_step mp d sc e = (case sc of (s, c) \<Rightarrow> (case e of
       Read rr \<Rightarrow>
         if ss_reading s then map_sum id (\<lambda>s'. (s', c)) (session_on_read mp rr s) else Inr (s, c)
     | Job k \<Rightarrow> run_job mp d k s c
     | Strand \<Rightarrow> map_sum id (\<lambda>(s', pc). (s', c)) (run_strand mp s)
     | Wrote ec \<Rightarrow> map_sum id (\<lambda>s'. (s', c)) (session_on_write mp ec s)
     | CloseRequested \<Rightarrow> Inr (session_close s, c)))"

definition sess_machine ::
  "msgpack \<Rightarrow> 'w dispatcher \<Rightarrow> fault + sess \<times> 'w ctx \<Rightarrow> sess_event \<Rightarrow> fault + sess \<times> 'w ctx" where
  "sess_machine mp d st e = (case st of Inl f \<Rightarrow> Inl f | Inr sc \<Rightarrow> sess_step mp d sc e)"

lemma sess_machine_simps [simp]:
  "sess_machine mp d (Inl f) e = Inl f"
  "sess_machine mp d (Inr sc) e = sess_step mp d sc e"
  by (simp_all add: sess_machine_def)

lemma sess_machine_stuck [simp]: "run_events (sess_machine mp d) (Inl f) es = Inl f"
  by (induction es) simp_all

text \<open>A session that was accepted and started.\<close>

definition sess_started :: "msgpack \<Rightarrow> bool \<Rightarrow> 64 word \<Rightarrow> 'w ctx \<Rightarrow> fault + sess \<times> 'w ctx" where
  "sess_started mp suppress sid c =
     map_sum id (\<lambda>s. (s, c)) (session_start (ServerSession_new mp suppress sid))"

lemma sess_started_eq:
  "buffer_laws mp \<Longrightarrow> sess_started mp suppress sid c =
     Inr ((ServerSession_new mp suppress sid)\<lparr>ss_reading := True\<rparr>, c)"
  using unpacker_new_cap [of mp]
  by (simp add: sess_started_def session_start_def session_do_read_def start_read_def
      ServerSession_new_def)

subsection \<open>Helper facts\<close>

lemma session_close_fields [simp]:
  "ss_unpac (session_close s) = ss_unpac s" "ss_jobs (session_close s) = ss_jobs s"
  "ss_reading (session_close s) = ss_reading s" "ss_suppress (session_close s) = ss_suppress s"
  "ss_id (session_close s) = ss_id s"
  "ss_writer (session_close s) = (ss_writer s)\<lparr>w_exit := True,
     w_strand := w_strand (ss_writer s) @ [ShutdownSocket, Derived Deregister]\<rparr>"
  by (simp_all add: session_close_def writer_close_def post_on_strand_def)

lemma post_on_strand_fold:
  "fold (\<lambda>t. post_on_strand (Derived t)) ts w = w\<lparr>w_strand := w_strand w @ map Derived ts\<rparr>"
  by (induction ts arbitrary: w) (simp_all add: post_on_strand_def)

lemma post_tasks_fields [simp]:
  "ss_unpac (post_tasks ts s) = ss_unpac s" "ss_jobs (post_tasks ts s) = ss_jobs s"
  "ss_reading (post_tasks ts s) = ss_reading s" "ss_suppress (post_tasks ts s) = ss_suppress s"
  "ss_id (post_tasks ts s) = ss_id s"
  "ss_writer (post_tasks ts s) =
     (ss_writer s)\<lparr>w_strand := w_strand (ss_writer s) @ map Derived ts\<rparr>"
  by (simp_all add: post_tasks_def post_on_strand_fold)

text \<open>The decoding loop: it ends, and on a buffer of complete objects it posts all of them.\<close>

lemma session_decode_cases:
  "codec_laws mp \<Longrightarrow> length (u_buf (ss_unpac s)) < n \<Longrightarrow>
     (\<exists>x. session_decode mp n s = Inl (Escaped x)) \<or>
     (\<exists>s'. session_decode mp n s = Inr s' \<and> ss_writer s' = ss_writer s \<and>
        ss_suppress s' = ss_suppress s \<and> ss_id s' = ss_id s)"
proof (induction n arbitrary: s)
  case 0
  then show ?case by simp
next
  case (Suc n)
  show ?case
  proof (cases "mp_parse mp (u_buf (ss_unpac s))")
    case (Parsed ob r)
    then have "length r < length (u_buf (ss_unpac s))" by (rule parse_consumes [OF Suc.prems(1)])
    with Suc.prems Suc.IH [of "s\<lparr>ss_unpac := (ss_unpac s)\<lparr>u_buf := r\<rparr>, ss_jobs := ss_jobs s @ [ob]\<rparr>"]
    show ?thesis by (simp add: unpacker_next_def Parsed)
  qed (simp_all add: unpacker_next_def)
qed

lemma session_decode_frames:
  "frames mp bs obs rest \<Longrightarrow> codec_laws mp \<Longrightarrow> u_buf (ss_unpac s) = bs \<Longrightarrow>
     \<not> w_exit (ss_writer s) \<Longrightarrow> length bs < n \<Longrightarrow>
     session_decode mp n s = Inr (s\<lparr>ss_unpac := (ss_unpac s)\<lparr>u_buf := rest\<rparr>,
       ss_jobs := ss_jobs s @ obs\<rparr>)"
proof (induction arbitrary: s n rule: frames.induct)
  case (frames_end bs)
  then obtain m where "n = Suc m" by (cases n) auto
  with frames_end show ?case by (simp add: unpacker_next_def)
next
  case (frames_obj bs ob r obs rest)
  obtain m where n: "n = Suc m" using frames_obj.prems by (cases n) auto
  have "length r < m"
    using parse_consumes [OF frames_obj.prems(1) frames_obj.hyps(1)] frames_obj.prems(4) n by simp
  with frames_obj n show ?case by (simp add: unpacker_next_def is_closed_def)
qed

subsection \<open>No undefined behaviour in any schedule\<close>

text \<open>
  Whatever the environment does, the only fault a session can have is an exception that leaves
  a handler.
\<close>

definition sess_good :: "msgpack \<Rightarrow> fault + sess \<times> 'w ctx \<Rightarrow> bool" where
  "sess_good mp st \<longleftrightarrow> (codec_laws mp \<longrightarrow> buffer_laws mp \<longrightarrow> (case st of
       Inl f \<Rightarrow> (\<exists>x. f = Escaped x) | Inr (s, c) \<Rightarrow> writer_inv (ss_writer s)))"

lemma session_do_read_reserved:
  "buffer_laws mp \<Longrightarrow>
     session_do_read (s\<lparr>ss_unpac := reserve_if_low mp (ss_unpac s)\<rparr>) =
       Inr (s\<lparr>ss_unpac := reserve_if_low mp (ss_unpac s), ss_reading := True\<rparr>)"
  using reserve_if_low_cap [of mp "ss_unpac s"]
  by (simp add: session_do_read_def start_read_def)

lemma on_read_good:
  assumes "codec_laws mp" and "buffer_laws mp" and "writer_inv (ss_writer s)"
  shows "sess_good mp (map_sum id (\<lambda>s'. (s', c)) (session_on_read mp rr s))"
proof (cases rr)
  case (ReadOk bs)
  let ?s = "s\<lparr>ss_reading := False, ss_unpac := buffer_consumed bs (ss_unpac s)\<rparr>"
  have "length (u_buf (ss_unpac ?s)) < decode_fuel ?s" by (simp add: decode_fuel_def)
  from session_decode_cases [OF assms(1) this] assms ReadOk show ?thesis
    by (auto simp: session_on_read_def sess_good_def session_do_read_reserved Let_def)
qed (use assms in \<open>auto simp: session_on_read_def sess_good_def Let_def writer_inv_def\<close>)

lemma run_strand_good:
  assumes "writer_inv (ss_writer s)"
  shows "sess_good mp (map_sum id (\<lambda>(s', pc). (s', c)) (run_strand mp s))"
proof (cases "w_strand (ss_writer s)")
  case Nil
  with assms show ?thesis by (simp add: run_strand_def sess_good_def)
next
  case (Cons t ts)
  have inv: "writer_inv ((ss_writer s)\<lparr>w_strand := ts\<rparr>)"
    using assms by (simp add: writer_inv_def)
  show ?thesis
  proof (cases t)
    case ShutdownSocket
    with Cons inv show ?thesis by (simp add: run_strand_def sess_good_def)
  next
    case (Derived u)
    show ?thesis
    proof (cases u)
      case (WriteResponse r)
      obtain w where w: "writer_write (response_data mp r) ((ss_writer s)\<lparr>w_strand := ts\<rparr>) = Inr w"
        using writer_write_total [OF inv] by blast
      with writer_write_inv [OF inv w] Cons Derived WriteResponse show ?thesis
        by (simp add: run_strand_def run_session_task_def with_writer_def sess_good_def)
    qed (use Cons Derived inv in \<open>simp_all add: run_strand_def run_session_task_def sess_good_def
        writer_inv_def\<close>)
  qed
qed

lemma on_write_good:
  assumes "writer_inv (ss_writer s)"
  shows "sess_good mp (map_sum id (\<lambda>s'. (s', c)) (session_on_write mp ec s))"
proof (cases "w_inflight (ss_writer s)")
  case None
  with assms show ?thesis
    by (simp add: session_on_write_def with_writer_def complete_def sess_good_def)
next
  case (Some b)
  with assms obtain q where q: "w_queue (ss_writer s) = b # q" by (auto simp: writer_inv_def)
  show ?thesis
  proof (cases "complete mp ec (ss_writer s)")
    case (Inl f)
    with Some q show ?thesis
      by (cases ec) (auto simp: session_on_write_def with_writer_def sess_good_def complete_cases
          split: sum.splits if_splits)
  next
    case (Inr w)
    with complete_inv [OF assms this] show ?thesis
      by (simp add: session_on_write_def with_writer_def sess_good_def)
  qed
qed

lemma run_job_good: "writer_inv (ss_writer s) \<Longrightarrow> sess_good mp (run_job mp d k s c)"
  by (auto simp: run_job_def sess_good_def writer_inv_def split: prod.splits sum.splits)

interpretation sess_safe: kept_by_steps "sess_machine mp d" "sess_good mp" for mp d
proof
  fix mp d st e
  assume good: "sess_good mp st"
  show "sess_good mp (sess_machine mp d st e)"
  proof (cases "codec_laws mp \<and> buffer_laws mp")
    case False
    then show ?thesis by (auto simp: sess_good_def)
  next
    case laws: True
    show ?thesis
    proof (cases st)
      case (Inl f)
      with good show ?thesis by simp
    next
      case (Inr sc)
      obtain s c where sc: "sc = (s, c)" by (cases sc)
      with good laws Inr have w: "writer_inv (ss_writer s)" by (simp add: sess_good_def)
      with laws Inr sc show ?thesis
        by (cases e) (auto simp: sess_step_def run_job_good on_write_good run_strand_good
            on_read_good, auto simp: sess_good_def writer_inv_def)
    qed
  qed
qed

text \<open>C26. Whatever happens to a started session, in any order and with any number of workers (reads
  of any bytes, jobs taken in any order, writes that succeed or fail, close from outside at any
  time), it never takes from an empty queue, never overlaps two writes, never reads into too
  small a buffer and never gets stuck in its decoding loop. The only fault left is an exception
  that leaves a handler.\<close>

theorem session_only_fault_is_escape:
  assumes "codec_laws mp" and "buffer_laws mp"
    and "run_events (sess_machine mp d) (sess_started mp suppress sid c) es = Inl f"
  shows "\<exists>x. f = Escaped x"
proof -
  have "sess_good mp (sess_started mp suppress sid c)"
    using assms(2) by (simp add: sess_started_eq sess_good_def ServerSession_new_def writer_inv_def
        AsyncWriter_new_def)
  from sess_safe.run_keeps [OF this, of d es] assms show ?thesis by (simp add: sess_good_def)
qed

theorem session_only_fault_is_escape_witness:
  "\<exists>x. Escaped (StdException ''parse error'') = Escaped x"
proof (rule session_only_fault_is_escape [OF ref_codec_laws ref_buffer_laws])
  show "run_events (sess_machine ref_msgpack Dispatcher_new)
      (sess_started ref_msgpack True 1 (fresh_ctx ())) [Job 0, Strand, Read (ReadOk [0])]
    = Inl (Escaped (StdException ''parse error''))"
    by (simp add: sess_started_eq sess_step_def handler_defs ServerSession_new_def unpacker_next_def
        AsyncWriter_new_def ref_msgpack_simps ref_parse_def Let_def)
      (simp add: ref_msgpack_def)
qed

text \<open>Bytes that are not a msgpack object end the thread that reads them: the exception of the
  unpacker leaves the read handler of an open session, whatever the suppress flag says.\<close>

lemma malformed_input_escapes:
  assumes "mp_parse mp (u_buf (ss_unpac s) @ bs) = Malformed" and "\<not> w_exit (ss_writer s)"
    and "ss_reading s"
  shows "sess_step mp d (s, c) (Read (ReadOk bs)) =
     Inl (Escaped (StdException (mp_parse_error mp)))"
  using assms by (simp add: sess_step_def session_on_read_def is_closed_def decode_fuel_def
      buffer_consumed_def unpacker_next_def)

lemma malformed_input_escapes_witness:
  "sess_step ref_msgpack Dispatcher_new
      ((ServerSession_new ref_msgpack True 1)\<lparr>ss_reading := True\<rparr>, fresh_ctx ()) (Read (ReadOk [0])) =
     Inl (Escaped (StdException (mp_parse_error ref_msgpack)))"
  by (rule malformed_input_escapes)
    (simp_all add: ServerSession_new_def AsyncWriter_new_def ref_msgpack_simps ref_parse_def)

end
