(* ===== verification/SessionOrder.thy ===== *)
theory SessionOrder
  imports SessionRuns "HOL-Library.Sublist"
begin

section \<open>What a session puts on the wire\<close>

text \<open>
  The abstract specification of a session with one worker: the requests are served one after
  the other in a context, and the responses are their answers in that order. The theorems show
  that the session, with its buffered reads, job queue, strand and write queue, never sends
  anything but a prefix of those answers, and that it sends all of them when it is let to run.
\<close>

subsection \<open>The specification\<close>

definition responses_in :: "session_task list \<Rightarrow> response list" where
  "responses_in ts = concat (map (\<lambda>t. case t of WriteResponse r \<Rightarrow> [r] | _ \<Rightarrow> []) ts)"

fun serve ::
  "msgpack \<Rightarrow> 'w dispatcher \<Rightarrow> bool \<Rightarrow> 64 word \<Rightarrow> mobj list \<Rightarrow> 'w ctx \<Rightarrow> response list \<times> 'w ctx option" where
  "serve mp d suppress sid [] c = ([], Some c)"
| "serve mp d suppress sid (m # ms) c = (case process_request mp d suppress sid m c of
       (Inl x, c') \<Rightarrow> ([], None)
     | (Inr ts, c') \<Rightarrow>
         (case serve mp d suppress sid ms c' of (rs, end_c) \<Rightarrow> (responses_in ts @ rs, end_c)))"

abbreviation answers :: "msgpack \<Rightarrow> 'w dispatcher \<Rightarrow> bool \<Rightarrow> 64 word \<Rightarrow> mobj list \<Rightarrow> 'w ctx \<Rightarrow> response list" where
  "answers mp d suppress sid ms c \<equiv> fst (serve mp d suppress sid ms c)"

lemma responses_in_simps [simp]:
  "responses_in [] = []" "responses_in (xs @ ys) = responses_in xs @ responses_in ys"
  "responses_in (WriteResponse r # ts) = r # responses_in ts"
  "responses_in (CloseTask # ts) = responses_in ts"
  "responses_in (CloseSessionsTask # ts) = responses_in ts"
  "responses_in (Deregister # ts) = responses_in ts"
  by (simp_all add: responses_in_def)

lemma responses_in_map [simp]: "responses_in (map WriteResponse rs) = rs"
  by (induction rs) simp_all

lemma serve_append:
  "serve mp d p i xs c = (rs, Some c') \<Longrightarrow>
     serve mp d p i (xs @ ys) c = (rs @ answers mp d p i ys c', snd (serve mp d p i ys c'))"
  by (induction xs arbitrary: c rs)
    (auto split: prod.splits sum.splits simp: prod_eq_iff)

text \<open>Requests whose handlers do not ask to close: only responses are posted.\<close>

definition only_responses :: "session_task list \<Rightarrow> bool" where
  "only_responses ts \<longleftrightarrow> ts = map WriteResponse (responses_in ts)"

fun quiet ::
  "msgpack \<Rightarrow> 'w dispatcher \<Rightarrow> bool \<Rightarrow> 64 word \<Rightarrow> mobj list \<Rightarrow> 'w ctx \<Rightarrow> bool" where
  "quiet mp d suppress sid [] c = True"
| "quiet mp d suppress sid (m # ms) c = (case process_request mp d suppress sid m c of
       (Inl x, c') \<Rightarrow> False
     | (Inr ts, c') \<Rightarrow> only_responses ts \<and> quiet mp d suppress sid ms c')"

definition well_formed_requests :: "msgpack \<Rightarrow> mobj list \<Rightarrow> bool" where
  "well_formed_requests mp obs \<longleftrightarrow> (\<forall>m \<in> set obs. packable m \<and>
     (mp_array_size mp m = 4 \<longrightarrow> mp_as_call mp m \<noteq> None) \<and>
     (mp_array_size mp m = 3 \<longrightarrow> mp_as_notification mp m \<noteq> None))"

subsection \<open>The invariant of the runs\<close>

definition derived_tasks :: "'t strand_task list \<Rightarrow> 't list" where
  "derived_tasks ts = concat (map (\<lambda>t. case t of Derived u \<Rightarrow> [u] | _ \<Rightarrow> []) ts)"

lemma derived_tasks_simps [simp]:
  "derived_tasks [] = []" "derived_tasks (xs @ ys) = derived_tasks xs @ derived_tasks ys"
  "derived_tasks (ShutdownSocket # ts) = derived_tasks ts"
  "derived_tasks (Derived u # ts) = u # derived_tasks ts"
  "derived_tasks (map Derived us) = us"
  by (simp_all add: derived_tasks_def) (induction us; simp)

text \<open>The writer against the responses \<open>rs\<close> of the requests that were taken: what is on the
  wire, in the queue and on the strand.\<close>

definition carries :: "msgpack \<Rightarrow> response list \<Rightarrow> session_task writer \<Rightarrow> bool" where
  "carries mp rs w \<longleftrightarrow> writer_inv w \<and>
     (\<exists>left. map (response_data mp) rs = w_wire w @ w_queue w @ left \<and>
        (w_exit w \<or> left = map (response_data mp) (responses_in (derived_tasks (w_strand w)))))"

definition sendable :: "msgpack \<Rightarrow> response list \<Rightarrow> bool" where
  "sendable mp rs \<longleftrightarrow> (\<forall>r \<in> set rs. packable (response_obj r))"

definition serving ::
  "msgpack \<Rightarrow> 'w dispatcher \<Rightarrow> bool \<Rightarrow> 64 word \<Rightarrow> 'w ctx \<Rightarrow> mobj list \<Rightarrow> bytes \<Rightarrow> sess \<times> 'w ctx \<Rightarrow> bool" where
  "serving mp d p i c0 obs unread sc \<longleftrightarrow> (case sc of (s, c) \<Rightarrow>
     ss_suppress s = p \<and> ss_id s = i \<and>
     (\<exists>taken later rs. obs = taken @ ss_jobs s @ later \<and>
        (ss_reading s \<longrightarrow> u_buf (ss_unpac s) @ unread = stream mp later) \<and>
        serve mp d p i taken c0 = (rs, Some c) \<and> carries mp rs (ss_writer s)))"

lemma servingI:
  "obs = taken @ ss_jobs s @ later \<Longrightarrow>
     (ss_reading s \<longrightarrow> u_buf (ss_unpac s) @ unread = stream mp later) \<Longrightarrow>
     serve mp d p i taken c0 = (rs, Some c) \<Longrightarrow> carries mp rs (ss_writer s) \<Longrightarrow>
     ss_suppress s = p \<Longrightarrow> ss_id s = i \<Longrightarrow> serving mp d p i c0 obs unread (s, c)"
  unfolding serving_def by auto

definition event_bytes :: "sess_event \<Rightarrow> bytes" where
  "event_bytes e = (case e of Read (ReadOk bs) \<Rightarrow> bs | _ \<Rightarrow> [])"

definition well_packed :: "mobj list \<Rightarrow> bool" where
  "well_packed obs \<longleftrightarrow> (\<forall>ob \<in> set obs. packable ob)"

lemma carries_close [simp]:
  "carries mp rs w \<Longrightarrow> carries mp rs (w\<lparr>w_exit := True, w_strand := ts\<rparr>)"
  by (auto simp: carries_def writer_inv_def)

lemma carries_post:
  "carries mp rs w \<Longrightarrow> carries mp (rs @ responses_in ts) (w\<lparr>w_strand := w_strand w @ map Derived ts\<rparr>)"
  by (auto simp: carries_def writer_inv_def)

lemma carries_drop_strand:
  "carries mp rs w \<Longrightarrow> w_strand w = t # ts \<Longrightarrow> (\<forall>r. t \<noteq> Derived (WriteResponse r)) \<Longrightarrow>
     carries mp rs (w\<lparr>w_strand := ts\<rparr>)"
  by (cases t rule: strand_task.exhaust; (simp; fail)?)
    (auto simp: carries_def writer_inv_def, (case_tac x2; auto)+)

lemma carries_write:
  assumes "carries mp rs w" and "w_strand w = Derived (WriteResponse r) # ts"
    and "writer_write (response_data mp r) (w\<lparr>w_strand := ts\<rparr>) = Inr w'"
  shows "carries mp rs w'"
proof -
  have inv: "writer_inv (w\<lparr>w_strand := ts\<rparr>)" using assms(1) by (simp add: carries_def writer_inv_def)
  show ?thesis
    using assms writer_write_inv [OF inv assms(3)]
    by (auto simp: writer_write_total [OF inv] carries_def split: if_splits)
qed

lemma response_never_notification:
  assumes "codec_laws mp" and "view_laws mp" and "packable (response_obj r)"
  shows "mp_unpack mp (response_data mp r) = Inr (response_obj r)"
    and "mp_array_size mp (response_obj r) = 4"
  using assms by (simp_all add: response_data_def) (simp add: response_obj_def)

lemma carries_complete_total:
  assumes "carries mp rs w" and "codec_laws mp" and "view_laws mp" and "sendable mp rs"
  shows "\<exists>w'. complete mp ec w = Inr w'"
proof (cases "w_inflight w")
  case None
  then show ?thesis by (simp add: complete_def)
next
  case (Some b)
  with assms(1) obtain q left where q: "w_queue w = b # q"
      "map (response_data mp) rs = w_wire w @ b # q @ left"
    by (auto simp: carries_def writer_inv_def)
  then have "b \<in> set (map (response_data mp) rs)" by (metis in_set_conv_decomp)
  then obtain r where "b = response_data mp r" "packable (response_obj r)"
    using assms(4) by (auto simp: sendable_def)
  with response_never_notification [OF assms(2,3)] Some q(1) show ?thesis
    by (cases ec) (auto simp: complete_cases)
qed

lemma carries_complete:
  assumes "carries mp rs w" and "complete mp ec w = Inr w'"
    and "codec_laws mp" and "view_laws mp" and "sendable mp rs"
  shows "carries mp rs w'"
proof (cases "w_inflight w")
  case None
  with assms show ?thesis by (simp add: complete_def)
next
  case (Some b)
  with assms(1) obtain q where q: "w_queue w = b # q" by (auto simp: carries_def writer_inv_def)
  with assms(1) obtain left where "map (response_data mp) rs = w_wire w @ b # q @ left"
    by (auto simp: carries_def)
  then have "b \<in> set (map (response_data mp) rs)" by (metis in_set_conv_decomp)
  then obtain r where "b = response_data mp r" "packable (response_obj r)"
    using assms(5) by (auto simp: sendable_def)
  with response_never_notification [OF assms(3,4)] Some q assms(1,2)
    complete_inv [OF _ assms(2)]
  show ?thesis by (cases ec) (auto simp: carries_def complete_cases)
qed

text \<open>Every step of a session with one worker keeps the invariant.\<close>

lemma serving_close:
  assumes "serving mp d p i c0 obs unread (s, c)"
  shows "serving mp d p i c0 obs unread (session_close s, c)"
proof -
  obtain taken later rs where "obs = taken @ ss_jobs s @ later"
      "ss_reading s \<longrightarrow> u_buf (ss_unpac s) @ unread = stream mp later"
      "serve mp d p i taken c0 = (rs, Some c)" "carries mp rs (ss_writer s)"
      "ss_suppress s = p" "ss_id s = i"
    using assms by (auto simp: serving_def)
  then show ?thesis
    by (intro servingI [where taken = taken and later = later and rs = rs]) simp_all
qed

lemma unread_later:
  "serving mp d p i c0 obs us (s, c) \<Longrightarrow> serving mp d p i c0 obs us' (s\<lparr>ss_reading := False\<rparr>, c)"
  by (auto simp: serving_def)

text \<open>A read of the next bytes of a stream decodes the objects they complete, wherever the
  stream is cut.\<close>

lemma on_read_stream:
  assumes "codec_laws mp" and "buffer_laws mp" and "well_packed later"
    and "u_buf (ss_unpac s) @ bs @ unread = stream mp later" and "\<not> w_exit (ss_writer s)"
  shows "\<exists>u ds es. later = ds @ es \<and> u_buf u @ unread = stream mp es \<and>
     mp_parse mp (u_buf u) = Insufficient \<and>
     session_on_read mp (ReadOk bs) s =
       Inr (s\<lparr>ss_reading := True, ss_unpac := u, ss_jobs := ss_jobs s @ ds\<rparr>)"
proof -
  from assms(3) have pk: "\<forall>ob \<in> set later. packable ob" by (simp add: well_packed_def)
  obtain ds es tail where cut: "later = ds @ es" "u_buf (ss_unpac s) @ bs = stream mp ds @ tail"
      "mp_parse mp tail = Insufficient" "tail @ unread = stream mp es"
    using stream_cut [OF assms(1) pk, of "u_buf (ss_unpac s) @ bs" unread] assms(4) by auto
  let ?s = "s\<lparr>ss_reading := False, ss_unpac := buffer_consumed bs (ss_unpac s)\<rparr>"
  let ?u = "reserve_if_low mp ((buffer_consumed bs (ss_unpac s))\<lparr>u_buf := tail\<rparr>)"
  have "frames mp (u_buf (ss_unpac ?s)) ds tail"
    using frames_packed [OF assms(1) _ cut(3), of ds] pk cut(1,2)
    by (simp add: buffer_consumed_def stream_def)
  then have "session_decode mp (decode_fuel ?s) ?s = Inr (?s\<lparr>ss_unpac := (ss_unpac ?s)\<lparr>u_buf := tail\<rparr>,
      ss_jobs := ss_jobs ?s @ ds\<rparr>)"
    using assms(5) by (intro session_decode_frames [OF _ assms(1) refl]) (simp_all add: decode_fuel_def)
  then have "session_on_read mp (ReadOk bs) s =
      Inr (s\<lparr>ss_reading := True, ss_unpac := ?u, ss_jobs := ss_jobs s @ ds\<rparr>)"
    using assms(5)
    by (simp add: session_on_read_def is_closed_def Let_def
        session_do_read_reserved [OF assms(2), of "s\<lparr>ss_reading := False,
          ss_unpac := (buffer_consumed bs (ss_unpac s))\<lparr>u_buf := tail\<rparr>, ss_jobs := ss_jobs s @ ds\<rparr>",
          simplified])
  moreover have "u_buf ?u @ unread = stream mp es" "mp_parse mp (u_buf ?u) = Insufficient"
    using cut(3,4) by simp_all
  ultimately show ?thesis using cut(1) by blast
qed

text \<open>What a completed read does to the rest of a stream, whatever its result.\<close>

lemma on_read_rest:
  assumes "codec_laws mp" and "buffer_laws mp" and "well_packed later"
    and "u_buf (ss_unpac s) @ event_bytes (Read rr) @ unread = stream mp later"
  shows "\<exists>s' ds es. session_on_read mp rr s = Inr s' \<and> later = ds @ es \<and>
     ss_jobs s' = ss_jobs s @ ds \<and> (ss_reading s' \<longrightarrow> u_buf (ss_unpac s') @ unread = stream mp es) \<and>
     (\<forall>rs. carries mp rs (ss_writer s) \<longrightarrow> carries mp rs (ss_writer s')) \<and>
     ss_suppress s' = ss_suppress s \<and> ss_id s' = ss_id s"
proof (cases "w_exit (ss_writer s)")
  case True
  then have "session_on_read mp rr s = Inr (s\<lparr>ss_reading := False\<rparr>)"
    by (simp add: session_on_read_def is_closed_def)
  then show ?thesis by (intro exI [of _ "s\<lparr>ss_reading := False\<rparr>"] exI [of _ "[]"] exI [of _ later]) simp
next
  case running: False
  show ?thesis
  proof (cases rr)
    case (ReadOk bs)
    from on_read_stream [OF assms(1-3) _ running, of bs unread] assms(4) ReadOk obtain u ds es
      where "later = ds @ es" "u_buf u @ unread = stream mp es"
        "session_on_read mp rr s = Inr (s\<lparr>ss_reading := True, ss_unpac := u, ss_jobs := ss_jobs s @ ds\<rparr>)"
      by (auto simp: event_bytes_def)
    then show ?thesis
      by (intro exI [of _ "s\<lparr>ss_reading := True, ss_unpac := u, ss_jobs := ss_jobs s @ ds\<rparr>"]
          exI [of _ ds] exI [of _ es]) simp
  next
    case ReadError
    with running show ?thesis
      by (intro exI [of _ "s\<lparr>ss_reading := False\<rparr>"] exI [of _ "[]"] exI [of _ later])
        (simp add: session_on_read_def is_closed_def)
  qed (intro exI [of _ "session_close (s\<lparr>ss_reading := False\<rparr>)"] exI [of _ "[]"] exI [of _ later],
      use running in \<open>simp add: session_on_read_def is_closed_def\<close>)+
qed

lemma serving_read:
  assumes "codec_laws mp" and "buffer_laws mp" and "well_packed obs" and "ss_reading s"
    and "serving mp d p i c0 obs (event_bytes (Read rr) @ unread) (s, c)"
  shows "\<exists>s'. session_on_read mp rr s = Inr s' \<and> serving mp d p i c0 obs unread (s', c)"
proof -
  obtain taken later rs where inv: "obs = taken @ ss_jobs s @ later"
      "u_buf (ss_unpac s) @ event_bytes (Read rr) @ unread = stream mp later"
      "serve mp d p i taken c0 = (rs, Some c)" "carries mp rs (ss_writer s)"
      "ss_suppress s = p" "ss_id s = i"
    using assms(4,5) by (auto simp: serving_def)
  have "well_packed later" using assms(3) inv(1) by (simp add: well_packed_def)
  from on_read_rest [OF assms(1,2) this inv(2)] obtain s' ds es where
      step: "session_on_read mp rr s = Inr s'" "later = ds @ es" "ss_jobs s' = ss_jobs s @ ds"
      "ss_reading s' \<longrightarrow> u_buf (ss_unpac s') @ unread = stream mp es"
      "\<forall>rs. carries mp rs (ss_writer s) \<longrightarrow> carries mp rs (ss_writer s')"
      "ss_suppress s' = ss_suppress s" "ss_id s' = ss_id s"
    by blast
  have "serving mp d p i c0 obs unread (s', c)"
    using inv step by (intro servingI [where taken = taken and later = es and rs = rs]) simp_all
  with step(1) show ?thesis by blast
qed

lemma serving_job:
  assumes "serving mp d p i c0 obs unread (s, c)" and "run_job mp d 0 s c = Inr (s', c')"
  shows "serving mp d p i c0 obs unread (s', c')"
proof (cases "ss_jobs s")
  case Nil
  with assms show ?thesis by (simp add: run_job_def)
next
  case (Cons m ms)
  obtain taken later rs where inv: "obs = taken @ (m # ms) @ later"
      "ss_reading s \<longrightarrow> u_buf (ss_unpac s) @ unread = stream mp later"
      "serve mp d p i taken c0 = (rs, Some c)" "carries mp rs (ss_writer s)"
      "ss_suppress s = p" "ss_id s = i"
    using assms(1) Cons by (auto simp: serving_def)
  obtain ts where ts: "process_request mp d p i m c = (Inr ts, c')"
      "s' = post_tasks ts (s\<lparr>ss_jobs := ms\<rparr>)"
    using assms(2) Cons inv(5,6) by (auto simp: run_job_def split: prod.splits sum.splits)
  have "serve mp d p i (taken @ [m]) c0 = (rs @ responses_in ts, Some c')"
    using serve_append [OF inv(3), of "[m]"] ts(1) by (simp add: prod_eq_iff)
  moreover have "carries mp (rs @ responses_in ts) (ss_writer s')"
    using carries_post [OF inv(4)] ts(2) by simp
  moreover have "obs = (taken @ [m]) @ ss_jobs s' @ later" using inv(1) ts(2) by simp
  ultimately show ?thesis
    using inv(2,5,6) ts(2)
    by (intro servingI [where taken = "taken @ [m]" and later = later and rs = "rs @ responses_in ts"])
      simp_all
qed

text \<open>A handler of the strand touches the writer alone, and keeps what it carries.\<close>

lemma run_strand_frames:
  "run_strand mp s = Inr (s', pc) \<Longrightarrow> ss_jobs s' = ss_jobs s \<and> ss_reading s' = ss_reading s \<and>
     ss_unpac s' = ss_unpac s \<and> ss_suppress s' = ss_suppress s \<and> ss_id s' = ss_id s"
  by (auto simp: run_strand_def run_session_task_def with_writer_def map_sum_def Let_def
      split: list.splits strand_task.splits session_task.splits sum.splits)

lemma strand_carries:
  assumes "run_strand mp s = Inr (s', pc)" and "carries mp rs (ss_writer s)"
  shows "carries mp rs (ss_writer s')"
proof (cases "w_strand (ss_writer s)")
  case Nil
  with assms show ?thesis by (simp add: run_strand_def)
next
  case (Cons t ts)
  let ?w = "(ss_writer s)\<lparr>w_strand := ts\<rparr>"
  have dropped: "carries mp rs ?w" if "\<forall>r. t \<noteq> Derived (WriteResponse r)"
    using carries_drop_strand [OF assms(2) Cons that] .
  show ?thesis
  proof (cases t)
    case ShutdownSocket
    then have "s' = s\<lparr>ss_writer := shutdown_socket ?w\<rparr>"
      using assms(1) Cons by (simp add: run_strand_def)
    with dropped ShutdownSocket show ?thesis
      by (auto simp: carries_def shutdown_socket_def writer_inv_def)
  next
    case (Derived u)
    show ?thesis
    proof (cases u)
      case (WriteResponse r)
      then obtain w where w: "writer_write (response_data mp r) ?w = Inr w" "s' = s\<lparr>ss_writer := w\<rparr>"
        using assms(1) Cons Derived
        by (auto simp: run_strand_def run_session_task_def with_writer_def map_sum_def
            split: sum.splits)
      from carries_write [OF assms(2) _ w(1)] Cons Derived WriteResponse w(2) show ?thesis by simp
    next
      case CloseTask
      then have "s' = session_close (s\<lparr>ss_writer := ?w\<rparr>)"
        using assms(1) Cons Derived by (simp add: run_strand_def run_session_task_def)
      with dropped Derived CloseTask carries_close [of mp rs ?w] show ?thesis by simp
    qed (use assms(1) Cons Derived dropped in
        \<open>auto simp: run_strand_def run_session_task_def\<close>)
  qed
qed

lemma serving_strand:
  assumes "serving mp d p i c0 obs unread (s, c)" and "run_strand mp s = Inr (s', pc)"
  shows "serving mp d p i c0 obs unread (s', c)"
  using assms(1) run_strand_frames [OF assms(2)] strand_carries [OF assms(2)]
  by (auto simp: serving_def)

text \<open>A completed write touches the writer alone, and keeps what it carries when the messages
  are well-formed.\<close>

lemma on_write_carries:
  assumes "session_on_write mp ec s = Inr s'" and "carries mp rs (ss_writer s)"
    and "codec_laws mp" and "view_laws mp" and "sendable mp rs"
  shows "carries mp rs (ss_writer s')" and "s' = s\<lparr>ss_writer := ss_writer s'\<rparr>"
proof -
  obtain w where w: "complete mp ec (ss_writer s) = Inr w" "s' = s\<lparr>ss_writer := w\<rparr>"
    using assms(1) by (auto simp: session_on_write_def with_writer_def map_sum_def split: sum.splits)
  from carries_complete [OF assms(2) w(1) assms(3-5)] w(2)
  show "carries mp rs (ss_writer s')" "s' = s\<lparr>ss_writer := ss_writer s'\<rparr>" by simp_all
qed

lemma serving_write:
  assumes "serving mp d p i c0 obs unread (s, c)" and "session_on_write mp ec s = Inr s'"
    and "codec_laws mp" and "view_laws mp" and "sendable mp (answers mp d p i obs c0)"
  shows "serving mp d p i c0 obs unread (s', c)"
proof -
  obtain taken later rs where inv: "obs = taken @ ss_jobs s @ later"
      "ss_reading s \<longrightarrow> u_buf (ss_unpac s) @ unread = stream mp later"
      "serve mp d p i taken c0 = (rs, Some c)" "carries mp rs (ss_writer s)"
      "ss_suppress s = p" "ss_id s = i"
    using assms(1) by (auto simp: serving_def)
  have "sendable mp rs"
    using assms(5) serve_append [OF inv(3)] inv(1) by (simp add: sendable_def)
  note w = on_write_carries [OF assms(2) inv(4) assms(3,4) this]
  show ?thesis
    using inv w(1) by (subst w(2)) (intro servingI [where taken = taken and later = later and rs = rs]; simp)
qed

definition single_worker :: "sess_event list \<Rightarrow> bool" where
  "single_worker es \<longleftrightarrow> (\<forall>e \<in> set es. case e of Job k \<Rightarrow> k = 0 | _ \<Rightarrow> True)"

lemma serving_step:
  assumes "codec_laws mp" and "view_laws mp" and "buffer_laws mp" and "well_packed obs"
    and "sendable mp (answers mp d p i obs c0)" and "single_worker [e]"
    and "serving mp d p i c0 obs (event_bytes e @ unread) sc" and "sess_step mp d sc e = Inr sc'"
  shows "serving mp d p i c0 obs unread sc'"
proof -
  obtain s c where sc: "sc = (s, c)" by (cases sc)
  show ?thesis
  proof (cases e)
    case (Read rr)
    show ?thesis
    proof (cases "ss_reading s")
      case True
      then obtain s' where "session_on_read mp rr s = Inr s'" "serving mp d p i c0 obs unread (s', c)"
        using serving_read [OF assms(1,3,4) True] assms(7) sc Read by blast
      with True assms(8) sc Read show ?thesis by (simp add: sess_step_def)
    next
      case False
      with assms(7,8) sc Read show ?thesis by (auto simp: sess_step_def serving_def)
    qed
  next
    case (Job k)
    with assms(6-8) sc serving_job [of mp d p i c0 obs unread s c] show ?thesis
      by (cases sc') (simp add: sess_step_def event_bytes_def single_worker_def)
  next
    case Strand
    with assms(7,8) sc serving_strand [of mp d p i c0 obs unread s c] show ?thesis
      by (auto simp: sess_step_def event_bytes_def map_sum_def split: sum.splits)
  next
    case (Wrote ec)
    with assms(7,8) sc serving_write [OF _ _ assms(1,2,5)] show ?thesis
      by (auto simp: sess_step_def event_bytes_def map_sum_def split: sum.splits)
  next
    case CloseRequested
    with assms(7,8) sc serving_close [of mp d p i c0 obs unread s c] show ?thesis
      by (auto simp: sess_step_def event_bytes_def)
  qed
qed

lemma serving_run:
  assumes "codec_laws mp" and "view_laws mp" and "buffer_laws mp" and "well_packed obs"
    and "sendable mp (answers mp d p i obs c0)"
  shows "single_worker es \<Longrightarrow> serving mp d p i c0 obs (concat (map event_bytes es) @ unread) sc \<Longrightarrow>
     run_events (sess_machine mp d) (Inr sc) es = Inr sc' \<Longrightarrow> serving mp d p i c0 obs unread sc'"
proof (induction es arbitrary: sc)
  case Nil
  then show ?case by simp
next
  case (Cons e es)
  from Cons.prems(3) obtain sc1 where sc1: "sess_step mp d sc e = Inr sc1"
    by (cases "sess_step mp d sc e") auto
  have "single_worker [e]" using Cons.prems(1) by (simp add: single_worker_def)
  moreover have "serving mp d p i c0 obs (event_bytes e @ concat (map event_bytes es) @ unread) sc"
    using Cons.prems(2) by simp
  ultimately have "serving mp d p i c0 obs (concat (map event_bytes es) @ unread) sc1"
    by (rule serving_step [OF assms _ _ sc1])
  moreover have "single_worker es" using Cons.prems(1) by (simp add: single_worker_def)
  moreover have "run_events (sess_machine mp d) (Inr sc1) es = Inr sc'"
    using Cons.prems(3) sc1 by simp
  ultimately show ?case by (intro Cons.IH)
qed

lemma serving_started:
  assumes "buffer_laws mp" and "bs @ unread = stream mp obs"
  shows "serving mp d p i c0 obs (bs @ unread) ((ServerSession_new mp p i)\<lparr>ss_reading := True\<rparr>, c0)"
  using assms by (intro servingI [where taken = "[]" and later = obs and rs = "[]"])
    (simp_all add: ServerSession_new_def carries_def AsyncWriter_new_def writer_inv_def)

text \<open>A stream for the witnesses: a call, a notification and a call of an unbound name, of a
  dispatcher that binds an addition, cut in the middle of the second request.\<close>

definition sample_disp :: "mobj list list dispatcher" where
  "sample_disp = store ''add'' (bound_call ref_msgpack ''add'' sample_add) Dispatcher_new"

definition sample_requests :: "mobj list" where
  "sample_requests =
     [call_obj 7 ''add'' [MInt 2, MInt 3], notify_obj ''add'' [MInt 2, MInt 3], call_obj 8 ''sub'' []]"

definition sample_answers :: "response list" where
  "sample_answers = [make_result_handle 7 (MInt 5),
     not_found_response ref_msgpack 8 ''sub'' (call_obj 8 ''sub'' [])]"

definition sample_chunks :: "bytes list" where
  "sample_chunks = [take 50 (stream ref_msgpack sample_requests),
     drop 50 (stream ref_msgpack sample_requests)]"

lemma sample_lookup [simp]:
  "map_of (funcs sample_disp) ''add'' = Some (bound_call ref_msgpack ''add'' sample_add)"
  "map_of (funcs sample_disp) ''sub'' = None"
  by (simp_all add: sample_disp_def store_def Dispatcher_new_def)

lemma sample_served:
  "process_request ref_msgpack sample_disp p i (call_obj 7 ''add'' [MInt 2, MInt 3]) c =
     (Inr [WriteResponse (make_result_handle 7 (MInt 5))],
      (reset_ctx i c)\<lparr>world := world c @ [[MInt 2, MInt 3]]\<rparr>)"
  "process_request ref_msgpack sample_disp p i (notify_obj ''add'' [MInt 2, MInt 3]) c =
     (Inr [], (reset_ctx i c)\<lparr>world := world c @ [[MInt 2, MInt 3]]\<rparr>)"
  "process_request ref_msgpack sample_disp p i (call_obj 8 ''sub'' []) c =
     (Inr [WriteResponse (not_found_response ref_msgpack 8 ''sub'' (call_obj 8 ''sub'' []))],
      reset_ctx i c)"
  by (simp_all add: process_request_def dispatch_call_obj dispatch_notify_obj bound_call_def
      answer_tasks_def captured_def reset_ctx_eq fresh_ctx_def stopping_def is_empty_def
      not_found_response_def)

lemma sample_serve:
  "serve ref_msgpack sample_disp p i sample_requests c =
     (sample_answers, Some (reset_ctx i (c\<lparr>world := world c @ [[MInt 2, MInt 3]] @ [[MInt 2, MInt 3]]\<rparr>)))"
  by (simp add: sample_requests_def sample_served sample_answers_def)
    (simp add: reset_ctx_eq fresh_ctx_def)

lemma sample_quiet: "quiet ref_msgpack sample_disp p i sample_requests c"
  by (simp add: sample_requests_def sample_served only_responses_def)

lemma sample_well_formed:
  "well_formed_requests ref_msgpack sample_requests" "well_packed sample_requests"
  by (simp_all add: well_formed_requests_def well_packed_def sample_requests_def packable_call_def)

lemma sample_sendable: "sendable ref_msgpack (answers ref_msgpack sample_disp p i sample_requests c)"
proof -
  have "fmt_nat 4 = ''4''" by code_simp
  then show ?thesis
    by (simp add: sample_serve sample_answers_def sendable_def packable_response_obj
        not_found_response_def quote_def)
qed

lemma sample_stream: "concat sample_chunks = stream ref_msgpack sample_requests"
  by (simp add: sample_chunks_def)

text \<open>Order of the responses: at every moment of every run with one worker, however the request
  stream is cut into reads, however reads, jobs, strand handlers and write completions
  interleave, and whatever fails or is closed, the requests taken so far are the first ones of
  the stream, they were served in that order, and what is on the wire is a prefix of their
  answers in that order: no response is sent twice, overtakes another or is sent for a request
  that did not ask.\<close>

lemma session_wire_order:
  assumes "codec_laws mp" and "view_laws mp" and "buffer_laws mp" and "well_packed obs"
    and "sendable mp (answers mp d suppress sid obs c0)"
    and "concat (map event_bytes es) @ unread = stream mp obs" and "single_worker es"
    and "run_events (sess_machine mp d) (sess_started mp suppress sid c0) es = Inr (s, c)"
  shows "\<exists>taken later rs. obs = taken @ ss_jobs s @ later \<and>
     serve mp d suppress sid taken c0 = (rs, Some c) \<and>
     prefix (w_wire (ss_writer s)) (map (response_data mp) rs)"
proof -
  have "serving mp d suppress sid c0 obs unread (s, c)"
    using serving_run [OF assms(1-5,7) serving_started [OF assms(3,6)]] assms(8)
    by (simp add: sess_started_eq [OF assms(3)])
  then show ?thesis by (fastforce simp: serving_def carries_def)
qed

subsection \<open>No crash on well-formed input\<close>

lemma run_strand_total: "writer_inv (ss_writer s) \<Longrightarrow> \<exists>s' pc. run_strand mp s = Inr (s', pc)"
proof (cases "w_strand (ss_writer s)")
  case (Cons t ts)
  assume "writer_inv (ss_writer s)"
  then have "writer_inv ((ss_writer s)\<lparr>w_strand := ts\<rparr>)" by (simp add: writer_inv_def)
  note writer_write_total [OF this]
  with Cons show ?thesis
    by (cases t; (simp add: run_strand_def; fail)?)
      (rename_tac u, case_tac u; simp add: run_strand_def run_session_task_def with_writer_def)
qed (simp add: run_strand_def)

lemma job_total:
  assumes "well_formed_requests mp obs" and "set (ss_jobs s) \<subseteq> set obs" and "ss_suppress s"
  shows "\<exists>s' c'. run_job mp d k s c = Inr (s', c')"
proof (cases "k < length (ss_jobs s)")
  case True
  then have "ss_jobs s ! k \<in> set obs" using assms(2) nth_mem by blast
  with assms(1) have "\<nexists>x. fst (dispatch mp d (ss_jobs s ! k) True (reset_ctx (ss_id s) c)) = Inl x"
    unfolding suppressed_throws by (auto simp: well_formed_requests_def)
  then show ?thesis
    using assms(3) True by (cases "dispatch mp d (ss_jobs s ! k) True (reset_ctx (ss_id s) c)")
      (auto simp: run_job_def process_request_def split: sum.splits)
qed (simp add: run_job_def)

lemma serving_step_total:
  assumes "codec_laws mp" and "view_laws mp" and "buffer_laws mp" and "well_formed_requests mp obs"
    and "sendable mp (answers mp d True i obs c0)"
    and "serving mp d True i c0 obs (event_bytes e @ unread) sc"
  shows "\<exists>sc'. sess_step mp d sc e = Inr sc'"
proof -
  obtain s c where sc: "sc = (s, c)" by (cases sc)
  obtain taken later rs where inv: "obs = taken @ ss_jobs s @ later"
      "serve mp d True i taken c0 = (rs, Some c)" "carries mp rs (ss_writer s)" "ss_suppress s"
    using assms(6) sc by (auto simp: serving_def)
  have pk: "well_packed obs" using assms(4) by (simp add: well_formed_requests_def well_packed_def)
  have w: "writer_inv (ss_writer s)" using inv(3) by (simp add: carries_def)
  have snd: "sendable mp rs"
    using assms(5) serve_append [OF inv(2)] inv(1) by (simp add: sendable_def)
  show ?thesis
  proof (cases e)
    case (Read rr)
    with serving_read [OF assms(1,3) pk] assms(6) sc show ?thesis
      by (cases "ss_reading s") (fastforce simp: sess_step_def)+
  next
    case (Job k)
    with job_total [OF assms(4) _ inv(4), of d k c] inv(1) sc show ?thesis
      by (auto simp: sess_step_def)
  next
    case Strand
    with run_strand_total [OF w, of mp] sc show ?thesis by (auto simp: sess_step_def)
  next
    case (Wrote ec)
    with carries_complete_total [OF inv(3) assms(1,2) snd, of ec] sc show ?thesis
      by (auto simp: sess_step_def session_on_write_def with_writer_def)
  qed (use sc in \<open>simp add: sess_step_def\<close>)
qed

text \<open>With suppressed exceptions, a session with one worker that receives well-formed requests
  whose answers can be packed never faults: every run, with any reads, interleaving, write
  failures and closes, ends in a proper state, whatever the bound functions throw.\<close>

lemma session_never_crashes:
  assumes "codec_laws mp" and "view_laws mp" and "buffer_laws mp" and "well_formed_requests mp obs"
    and "sendable mp (answers mp d True sid obs c0)"
    and "concat (map event_bytes es) @ unread = stream mp obs" and "single_worker es"
  shows "\<exists>s c. run_events (sess_machine mp d) (sess_started mp True sid c0) es = Inr (s, c)"
proof -
  have pk: "well_packed obs" using assms(4) by (simp add: well_formed_requests_def well_packed_def)
  have "single_worker es \<Longrightarrow> serving mp d True sid c0 obs (concat (map event_bytes es) @ unread) sc \<Longrightarrow>
      \<exists>sc'. run_events (sess_machine mp d) (Inr sc) es = Inr sc'" for es sc
  proof (induction es arbitrary: sc)
    case Nil
    then show ?case by simp
  next
    case (Cons e es)
    have one: "single_worker [e]" "single_worker es"
      using Cons.prems(1) by (simp_all add: single_worker_def)
    have here: "serving mp d True sid c0 obs (event_bytes e @ concat (map event_bytes es) @ unread) sc"
      using Cons.prems(2) by simp
    obtain sc1 where sc1: "sess_step mp d sc e = Inr sc1"
      using serving_step_total [OF assms(1-5) here] by blast
    from Cons.IH [OF one(2) serving_step [OF assms(1-3) pk assms(5) one(1) here sc1]] sc1
    show ?case by simp
  qed
  from this [OF assms(7) serving_started [OF assms(3,6)]] show ?thesis
    by (simp add: sess_started_eq [OF assms(3)])
qed

subsection \<open>Everything is answered\<close>

lemma read_all:
  assumes "codec_laws mp" and "buffer_laws mp"
  shows "well_packed later \<Longrightarrow> ss_reading s \<Longrightarrow> \<not> w_exit (ss_writer s) \<Longrightarrow>
     mp_parse mp (u_buf (ss_unpac s)) = Insufficient \<Longrightarrow>
     u_buf (ss_unpac s) @ concat chunks = stream mp later \<Longrightarrow>
     \<exists>u. run_events (sess_machine mp d) (Inr (s, c)) (map (\<lambda>bs. Read (ReadOk bs)) chunks) =
       Inr (s\<lparr>ss_reading := True, ss_unpac := u, ss_jobs := ss_jobs s @ later\<rparr>, c)"
proof (induction chunks arbitrary: s later)
  case Nil
  have "later = []"
  proof (cases later)
    case (Cons ob obs)
    with Nil.prems(1) have "packable ob" by (simp add: well_packed_def)
    with Nil.prems(4,5) Cons parse_pack [OF assms(1)] show ?thesis by simp
  qed
  with Nil.prems(2) show ?case by (intro exI [of _ "ss_unpac s"]) (cases s; simp)
next
  case (Cons bs chunks)
  have "u_buf (ss_unpac s) @ bs @ concat chunks = stream mp later" using Cons.prems(5) by simp
  from on_read_stream [OF assms Cons.prems(1) this Cons.prems(3)] obtain u ds es where step:
      "later = ds @ es" "u_buf u @ concat chunks = stream mp es" "mp_parse mp (u_buf u) = Insufficient"
      "session_on_read mp (ReadOk bs) s =
         Inr (s\<lparr>ss_reading := True, ss_unpac := u, ss_jobs := ss_jobs s @ ds\<rparr>)"
    by blast
  have "well_packed es" using Cons.prems(1) step(1) by (simp add: well_packed_def)
  with Cons.IH [of es "s\<lparr>ss_reading := True, ss_unpac := u, ss_jobs := ss_jobs s @ ds\<rparr>"]
    step Cons.prems(2,3) show ?case by (auto simp: sess_step_def)
qed

lemma jobs_all:
  "quiet mp d (ss_suppress s) (ss_id s) (ss_jobs s) c \<Longrightarrow>
     \<exists>c'. run_events (sess_machine mp d) (Inr (s, c)) (replicate (length (ss_jobs s)) (Job 0)) =
       Inr (s\<lparr>ss_jobs := [], ss_writer := (ss_writer s)\<lparr>w_strand := w_strand (ss_writer s) @
         map (\<lambda>r. Derived (WriteResponse r)) (answers mp d (ss_suppress s) (ss_id s) (ss_jobs s) c)\<rparr>\<rparr>, c') \<and>
       snd (serve mp d (ss_suppress s) (ss_id s) (ss_jobs s) c) = Some c'"
proof (induction "ss_jobs s" arbitrary: s c)
  case Nil
  then have "ss_jobs s = []" by simp
  then show ?case by (intro exI [of _ c]) (cases s; cases "ss_writer s"; simp)
next
  case (Cons m ms)
  note jobs = Cons.hyps(2) [symmetric]
  obtain ts c1 where ts: "process_request mp d (ss_suppress s) (ss_id s) m c = (Inr ts, c1)"
      "only_responses ts" "quiet mp d (ss_suppress s) (ss_id s) ms c1"
    using Cons.prems by (auto simp: jobs split: prod.splits sum.splits)
  let ?s = "post_tasks ts (s\<lparr>ss_jobs := ms\<rparr>)"
  have "sess_step mp d (s, c) (Job 0) = Inr (?s, c1)"
    using ts(1) by (simp add: sess_step_def run_job_def jobs)
  moreover have "map Derived ts = map (\<lambda>r. Derived (WriteResponse r)) (responses_in ts)"
    using ts(2) by (subst only_responses_def [THEN iffD1]) (simp_all add: comp_def)
  ultimately show ?case
    using Cons.hyps(1) [of ?s c1] ts by (simp add: jobs post_tasks_def post_on_strand_fold prod.case_eq_if)
qed

lemma put_message_strand [simp]:
  "put_message b (w\<lparr>w_strand := ts\<rparr>) = (put_message b w)\<lparr>w_strand := ts\<rparr>"
  by (auto simp: put_message_def or_unchanged_def writer_write_def do_write_def Let_def
      split: list.splits)

lemma writer_open_strand [simp]: "writer_open (w\<lparr>w_strand := ts\<rparr>) = writer_open w"
  by (simp add: writer_open_def)

lemma write_open: "writer_open w \<Longrightarrow> writer_write b w = Inr (put_message b w)"
  by (simp add: put_message_def or_unchanged_def writer_write_total [OF writer_open_inv])

lemma complete_open: "writer_open w \<Longrightarrow> complete mp WriteOk w = Inr (transfer mp w)"
  by (cases "w_queue w")
    (auto simp: transfer_def or_unchanged_def writer_open_def complete_ok, simp add: complete_def)

lemma strand_all:
  "writer_open (ss_writer s) \<Longrightarrow> w_strand (ss_writer s) = map (\<lambda>r. Derived (WriteResponse r)) rs \<Longrightarrow>
     run_events (sess_machine mp d) (Inr (s, c)) (replicate (length rs) Strand) =
       Inr (s\<lparr>ss_writer := fold put_message (map (response_data mp) rs)
         ((ss_writer s)\<lparr>w_strand := []\<rparr>)\<rparr>, c)"
proof (induction rs arbitrary: s)
  case Nil
  then show ?case by (cases s; cases "ss_writer s"; simp)
next
  case (Cons r rs)
  let ?w = "(put_message (response_data mp r) (ss_writer s))\<lparr>
    w_strand := map (\<lambda>r. Derived (WriteResponse r)) rs\<rparr>"
  have "sess_step mp d (s, c) Strand = Inr (s\<lparr>ss_writer := ?w\<rparr>, c)"
    using Cons.prems by (simp add: sess_step_def run_strand_def run_session_task_def
        with_writer_def write_open)
  moreover have "writer_open ?w" using Cons.prems(1) chan.ready_put by simp
  ultimately show ?case using Cons.IH [of "s\<lparr>ss_writer := ?w\<rparr>"] by simp
qed

lemma writes_all:
  "writer_open (ss_writer s) \<Longrightarrow>
     run_events (sess_machine mp d) (Inr (s, c)) (replicate n (Wrote WriteOk)) =
       Inr (s\<lparr>ss_writer := (transfer mp ^^ n) (ss_writer s)\<rparr>, c)"
proof (induction n arbitrary: s)
  case 0
  then show ?case by (cases s; simp)
next
  case (Suc n)
  let ?t = "s\<lparr>ss_writer := transfer mp (ss_writer s)\<rparr>"
  have "sess_step mp d (s, c) (Wrote WriteOk) = Inr (?t, c)"
    using Suc.prems by (simp add: sess_step_def session_on_write_def with_writer_def complete_open)
  moreover have "writer_open (ss_writer ?t)" using Suc.prems chan.ready_deliver by simp
  ultimately show ?case using Suc.IH [of ?t] by (simp add: funpow_swap1)
qed

lemma strand_kept:
  assumes "writer_open w"
  shows "w_strand ((transfer mp ^^ n) (fold put_message ds w)) = w_strand w"
proof -
  have p: "writer_open w \<Longrightarrow> w_strand (fold put_message ds w) = w_strand w" for w :: "'t writer"
    by (induction ds arbitrary: w) (auto simp: chan.ready_put, auto simp: put_message_open)
  have o: "writer_open w \<Longrightarrow> writer_open ((transfer mp ^^ n) w)" for n and w :: "'t writer"
    by (induction n) (simp_all add: chan.ready_deliver)
  have t: "writer_open w \<Longrightarrow> w_strand ((transfer mp ^^ n) w) = w_strand w" for w :: "'t writer"
  proof (induction n)
    case (Suc n)
    with o [of w n] show ?case
      by (cases "w_queue ((transfer mp ^^ n) w)") (simp_all add: transfer_open transfer_idle)
  qed simp
  from assms chan.put_all [OF assms, of ds] p t show ?thesis by metis
qed

lemma new_writer_strand [simp]: "AsyncWriter_new\<lparr>w_strand := []\<rparr> = AsyncWriter_new"
  by (simp add: AsyncWriter_new_def)

text \<open>The schedule in which everything is read, then served, then posted, then written.\<close>

definition full_schedule :: "bytes list \<Rightarrow> nat \<Rightarrow> nat \<Rightarrow> sess_event list" where
  "full_schedule chunks n k = map (\<lambda>bs. Read (ReadOk bs)) chunks @
     replicate n (Job 0) @ replicate k Strand @ replicate k (Wrote WriteOk)"

lemma full_schedule_run:
  assumes "codec_laws mp" and "buffer_laws mp" and "well_packed obs"
    and "quiet mp d suppress sid obs c0" and "concat chunks = stream mp obs"
    and "rs = answers mp d suppress sid obs c0"
  shows "\<exists>s c. run_events (sess_machine mp d) (sess_started mp suppress sid c0)
       (full_schedule chunks (length obs) (length rs)) = Inr (s, c) \<and>
     w_wire (ss_writer s) = map (response_data mp) rs \<and>
     w_queue (ss_writer s) = [] \<and> w_strand (ss_writer s) = [] \<and> ss_jobs s = [] \<and>
     serve mp d suppress sid obs c0 = (rs, Some c)"
proof -
  let ?s = "(ServerSession_new mp suppress sid)\<lparr>ss_reading := True\<rparr>"
  note new = ServerSession_new_def AsyncWriter_new_def writer_open_def
  obtain u where u: "run_events (sess_machine mp d) (Inr (?s, c0)) (map (\<lambda>bs. Read (ReadOk bs)) chunks)
      = Inr (?s\<lparr>ss_unpac := u, ss_jobs := obs\<rparr>, c0)"
    using read_all [OF assms(1-3), of ?s chunks d c0] assms(5) parse_empty [OF assms(1)]
    by (auto simp: new)
  obtain c1 where c1: "run_events (sess_machine mp d) (Inr (?s\<lparr>ss_unpac := u, ss_jobs := obs\<rparr>, c0))
      (replicate (length obs) (Job 0)) = Inr (?s\<lparr>ss_unpac := u, ss_jobs := [],
        ss_writer := AsyncWriter_new\<lparr>w_strand := map (\<lambda>r. Derived (WriteResponse r)) rs\<rparr>\<rparr>, c1)"
      "snd (serve mp d suppress sid obs c0) = Some c1"
    using jobs_all [of mp d "?s\<lparr>ss_unpac := u, ss_jobs := obs\<rparr>" c0] assms(4,6) by (auto simp: new)
  let ?w = "AsyncWriter_new :: session_task writer"
  let ?d = "map (response_data mp) rs"
  have open_new: "writer_open ?w" "w_queue ?w = []" "w_wire ?w = []" "w_strand ?w = []"
    by (simp_all add: new)
  have "writer_open (fold put_message ?d ?w)"
    using chan.put_all [OF open_new(1)] by blast
  then have "run_events (sess_machine mp d) (sess_started mp suppress sid c0)
      (full_schedule chunks (length obs) (length rs)) =
      Inr (?s\<lparr>ss_unpac := u, ss_jobs := [],
        ss_writer := (transfer mp ^^ length ?d) (fold put_message ?d ?w)\<rparr>, c1)"
    using u c1(1) open_new
    by (simp add: full_schedule_def sess_started_eq [OF assms(2)] strand_all writes_all)
  moreover note chan.drained [OF open_new(1,2), where mp = mp and bs = ?d]
  moreover have "w_strand ((transfer mp ^^ n) (fold put_message ds ?w)) = []" for n ds
    using strand_kept [where w = ?w and mp = mp and n = n and ds = ds] open_new(1,4) by simp
  ultimately show ?thesis using open_new(3) c1(2) assms(6) by (simp add: prod_eq_iff)
qed



subsection \<open>The sample run of the ordering theorems\<close>

definition sample_schedule :: "sess_event list" where
  "sample_schedule = full_schedule sample_chunks 3 2"

lemma sample_schedule_facts:
  "concat (map event_bytes sample_schedule) @ [] = stream ref_msgpack sample_requests"
  "single_worker sample_schedule"
  using sample_stream
  by (auto simp: sample_schedule_def full_schedule_def sample_chunks_def event_bytes_def
      single_worker_def)

lemma sample_schedule_runs:
  "\<exists>s c. run_events (sess_machine ref_msgpack sample_disp)
       (sess_started ref_msgpack p 1 (fresh_ctx [])) sample_schedule = Inr (s, c)"
proof -
  have "length sample_requests = 3" "length sample_answers = 2"
    by (simp_all add: sample_requests_def sample_answers_def)
  then show ?thesis
    using full_schedule_run [OF ref_codec_laws ref_buffer_laws sample_well_formed(2)
        sample_quiet [of p 1 "fresh_ctx []"] sample_stream refl]
    by (auto simp: sample_serve sample_schedule_def)
qed

lemma session_wire_order_example:
  "\<exists>s c taken later rs. run_events (sess_machine ref_msgpack sample_disp)
       (sess_started ref_msgpack False 1 (fresh_ctx [])) sample_schedule = Inr (s, c) \<and>
     sample_requests = taken @ ss_jobs s @ later \<and>
     serve ref_msgpack sample_disp False 1 taken (fresh_ctx []) = (rs, Some c) \<and>
     prefix (w_wire (ss_writer s)) (map (response_data ref_msgpack) rs)"
proof -
  obtain s c where run: "run_events (sess_machine ref_msgpack sample_disp)
       (sess_started ref_msgpack False 1 (fresh_ctx [])) sample_schedule = Inr (s, c)"
    using sample_schedule_runs by blast
  from session_wire_order [OF ref_codec_laws ref_view_laws ref_buffer_laws sample_well_formed(2)
      sample_sendable sample_schedule_facts this] run
  show ?thesis by blast
qed

lemma session_never_crashes_witness:
  "\<exists>s c. run_events (sess_machine ref_msgpack sample_disp)
       (sess_started ref_msgpack True 1 (fresh_ctx [])) sample_schedule = Inr (s, c)"
  by (rule session_never_crashes [OF ref_codec_laws ref_view_laws ref_buffer_laws
        sample_well_formed(1) sample_sendable sample_schedule_facts])

end
