(* ===== verification/SessionSpec.thy ===== *)
theory SessionSpec
  imports SessionOrder
begin

section \<open>What a session does with one request\<close>

subsection \<open>Isolation\<close>

text \<open>A request sees nothing of what earlier requests of the same worker left in the
  thread-local objects: whatever context it is processed in, its tasks and the context it
  leaves are those of a fresh thread with the same application state.\<close>

lemma request_isolation:
  "process_request mp d suppress sid m c = process_request mp d suppress sid m (fresh_ctx (world c))"
  by (simp add: process_request_def reset_ctx_eq) (simp add: fresh_ctx_def)

subsection \<open>At most one answer\<close>

lemma captured_fields [simp]:
  "r_id (captured c r) = r_id r" "r_empty (captured c r) = r_empty r"
  by (simp_all add: captured_def)

lemma answer_shape:
  assumes "process_request mp d suppress sid m c = (Inr ts, c')"
  shows "\<exists>rs closes. ts = map WriteResponse rs @ closes \<and>
     set closes \<subseteq> {CloseTask, CloseSessionsTask} \<and> length rs \<le> 1 \<and>
     (rs \<noteq> [] \<longleftrightarrow> mp_array_size mp m = 4 \<and> th_resp_enabled (handler c')) \<and>
     (\<forall>r \<in> set rs. \<exists>code name args. mp_as_call mp m = Some (code, r_id r, name, args))"
proof -
  obtain resp where resp: "dispatch mp d m suppress (reset_ctx sid c) = (Inr resp, c')"
      "ts = answer_tasks c' resp"
    using assms by (auto simp: process_request_def split: prod.splits sum.splits)
  have "fst (dispatch mp d m suppress (reset_ctx sid c)) = Inr resp"
    using resp(1) by simp
  note shape = dispatch_answer_shape [OF this]
  let ?rs = "if th_resp_enabled (handler c') \<and> \<not> r_empty resp then [captured c' resp] else []"
  let ?cs = "if th_resp_enabled (handler c')
      then (if ts_exit (session c') then [CloseTask] else []) @
           (if stopping c' then [CloseSessionsTask] else []) else []"
  have "ts = map WriteResponse ?rs @ ?cs"
    by (simp add: resp(2) answer_tasks_def is_empty_def)
  moreover have "set ?cs \<subseteq> {CloseTask, CloseSessionsTask}" "length ?rs \<le> 1" by auto
  moreover have "?rs \<noteq> [] \<longleftrightarrow> mp_array_size mp m = 4 \<and> th_resp_enabled (handler c')"
    using shape by auto
  moreover have "\<forall>r \<in> set ?rs. \<exists>code name args. mp_as_call mp m = Some (code, r_id r, name, args)"
    using shape by auto
  ultimately show ?thesis by blast
qed

text \<open>C33. One answer per request: the tasks a request posts are at most one response, then the
  requested closes; a response is posted exactly when the message has the size of a call and
  the handler did not disable it, and it carries the id of the call.\<close>

theorem request_one_answer:
  assumes "process_request mp d suppress sid m c = (Inr ts, c')"
  shows "\<exists>rs closes. ts = map WriteResponse rs @ closes \<and>
     set closes \<subseteq> {CloseTask, CloseSessionsTask} \<and> length rs \<le> 1 \<and>
     (rs \<noteq> [] \<longleftrightarrow> mp_array_size mp m = 4 \<and> th_resp_enabled (handler c')) \<and>
     (\<forall>r \<in> set rs. \<exists>code name args. mp_as_call mp m = Some (code, r_id r, name, args))"
  using assms by (rule answer_shape)

theorem request_one_answer_witness:
  "\<exists>rs closes. [WriteResponse (make_result_handle 7 (MInt 5))] = map WriteResponse rs @ closes \<and>
     set closes \<subseteq> {CloseTask, CloseSessionsTask} \<and> length rs \<le> 1 \<and> rs \<noteq> []"
  using request_one_answer [OF sample_served(1) [of True 1 "fresh_ctx []"]]
  by (auto simp: reset_ctx_eq fresh_ctx_def)

subsection \<open>Handlers that answer by hand\<close>

lemma process_bound_call:
  assumes "view_laws mp" and "bind mp name f d = Inr d'"
    and "length args = bound_arity f" and "bound_args mp f (MArray args) = Some as"
    and "fn_body f as (reset_ctx sid c) = (Inl x, c1)"
    and "catch_call mp suppress i name (MArray args) (call_obj i name args) x = Inr resp"
  shows "process_request mp d' suppress sid (call_obj i name args) c = (Inr (answer_tasks c1 resp), c1)"
  using assms by (simp add: process_request_def dispatch_call_obj lookup_bound bound_call_def)

lemma catch_tags:
  "catch_call mp s i name args msg HandlerError = Inr (not_found_response mp i name msg)"
  "catch_call mp s i name args msg HandlerSpecResponse = Inr (not_found_response mp i name msg)"
  by (simp_all add: catch_call_def)

text \<open>A handler that calls respond\_error with a value other than nil is answered with that
  value: the response has the id of the call and the value as its error and no result, the
  request is otherwise handled as if the handler had returned, and nothing escapes, whatever
  the suppress flag says.\<close>

lemma respond_error_answer:
  assumes "view_laws mp" and "bind mp name f d = Inr d'"
    and "length args = bound_arity f" and "bound_args mp f (MArray args) = Some as"
    and "fn_body f as (reset_ctx sid c) = respond_error e c0"
    and "th_resp_enabled (handler c0)" and "e \<noteq> MNil"
  shows "\<exists>resp closes c1. process_request mp d' suppress sid (call_obj i name args) c =
       (Inr (WriteResponse resp # closes), c1) \<and> world c1 = world c0 \<and>
     r_id resp = i \<and> r_error resp = Some e \<and> r_result resp = None"
proof -
  let ?c1 = "c0\<lparr>handler := (handler c0)\<lparr>th_error := e\<rparr>\<rparr>"
  have "process_request mp d' suppress sid (call_obj i name args) c =
      (Inr (answer_tasks ?c1 (not_found_response mp i name (call_obj i name args))), ?c1)"
    using assms(5) by (intro process_bound_call [OF assms(1-4) _ catch_tags(1)])
      (simp add: respond_error_def)
  moreover have "answer_tasks ?c1 (not_found_response mp i name (call_obj i name args)) =
      WriteResponse (capture_error e (not_found_response mp i name (call_obj i name args))) #
      tl (answer_tasks ?c1 (not_found_response mp i name (call_obj i name args)))"
    using assms(6,7) by (simp add: answer_tasks_def captured_def is_empty_def not_found_response_def)
  ultimately show ?thesis
    by (intro exI [of _ "capture_error e (not_found_response mp i name (call_obj i name args))"]
        exI [of _ "tl (answer_tasks ?c1 (not_found_response mp i name (call_obj i name args)))"]
        exI [of _ ?c1])
      (simp add: not_found_response_def)
qed

text \<open>C34. A handler that calls respond with a value other than nil is answered with that value
  and, at the same time, with the error of an unbound function: the client that reads the
  response finds an error in it.\<close>

theorem respond_answer_has_error:
  assumes "view_laws mp" and "bind mp name f d = Inr d'"
    and "length args = bound_arity f" and "bound_args mp f (MArray args) = Some as"
    and "fn_body f as (reset_ctx sid c) = respond v c0"
    and "th_resp_enabled (handler c0)" and "th_error (handler c0) = MNil" and "v \<noteq> MNil"
  shows "\<exists>resp closes c1 text. process_request mp d' suppress sid (call_obj i name args) c =
       (Inr (WriteResponse resp # closes), c1) \<and> r_id resp = i \<and> r_result resp = Some v \<and>
     text = ''rpclib: server could not find function '' @ quote @ name @ quote @
       '' wtith argument count 4.'' \<and>
     Response_of mp (response_obj resp) =
       Inr (Response_default\<lparr>r_id := i, r_error := Some (MStr text), r_result := Some v\<rparr>)"
proof -
  let ?c1 = "c0\<lparr>handler := (handler c0)\<lparr>th_resp := v\<rparr>\<rparr>"
  let ?nf = "not_found_response mp i name (call_obj i name args)"
  have "process_request mp d' suppress sid (call_obj i name args) c =
      (Inr (answer_tasks ?c1 ?nf), ?c1)"
    using assms(5) by (intro process_bound_call [OF assms(1-4) _ catch_tags(2)])
      (simp add: respond_def)
  moreover have "answer_tasks ?c1 ?nf =
      WriteResponse (capture_result v ?nf) # tl (answer_tasks ?c1 ?nf)"
    using assms(6-8) by (simp add: answer_tasks_def captured_def is_empty_def not_found_response_def)
  moreover have "fmt_nat 4 = ''4''" by code_simp
  ultimately show ?thesis
    using assms(1)
    by (intro exI [of _ "capture_result v ?nf"] exI [of _ "tl (answer_tasks ?c1 ?nf)"]
        exI [of _ ?c1] exI conjI)
      (simp_all add: not_found_response_def Response_of_obj received_def capture_result_def
        make_error_def Response_default_def Let_def)
qed

text \<open>Disabling the response wins over everything else: a handler that disables it and then
  asks for the session or the server to be closed is not answered, and neither close is
  carried out.\<close>

lemma disable_response_drops_exit:
  assumes "view_laws mp" and "bind mp name f d = Inr d'"
    and "length args = bound_arity f" and "bound_args mp f (MArray args) = Some as"
    and "fn_body f as (reset_ctx sid c) =
      (Inr v, server_stop (post_exit (disable_response (reset_ctx sid c))))"
  shows "fst (process_request mp d' suppress sid (call_obj i name args) c) = Inr []"
  using assms by (simp add: process_request_def dispatch_call_obj lookup_bound bound_call_def
      answer_tasks_def this_context_defs)

subsection \<open>After close\<close>

text \<open>From a closed writer to a later one: only the outstanding write may still have finished.\<close>

definition winds_down :: "'t writer \<Rightarrow> 't writer \<Rightarrow> bool" where
  "winds_down w w' \<longleftrightarrow> w_exit w' \<and>
     (w_inflight w' = w_inflight w \<and> w_wire w' = w_wire w \<or>
      w_inflight w' = None \<and> (w_wire w' = w_wire w \<or>
        (\<exists>b. w_inflight w = Some b \<and> w_wire w' = w_wire w @ [b])))"

lemma winds_down_refl: "w_exit w \<Longrightarrow> winds_down w w"
  by (simp add: winds_down_def)

lemma winds_down_trans: "winds_down w w' \<Longrightarrow> winds_down w' w'' \<Longrightarrow> winds_down w w''"
  by (auto simp: winds_down_def)

lemma winds_down_strand [simp]: "winds_down w (w'\<lparr>w_strand := ts\<rparr>) = winds_down w w'"
  by (simp add: winds_down_def)

lemma winds_down_close: "w_exit w \<Longrightarrow> winds_down w (w\<lparr>w_exit := True\<rparr>)"
  by (simp add: winds_down_def)

lemma winds_down_complete:
  assumes "w_exit w" and "complete mp ec w = Inr w'" and "writer_inv w"
  shows "winds_down w w'"
proof (cases "w_inflight w")
  case None
  with assms show ?thesis by (simp add: complete_def winds_down_refl)
next
  case (Some b)
  with assms(3) obtain q where "w_queue w = b # q" by (auto simp: writer_inv_def)
  with Some assms(1,2) show ?thesis
    by (cases ec) (auto simp: winds_down_def complete_cases next_inflight_def
        split: sum.splits if_splits)
qed

lemma closed_step:
  assumes "w_exit (ss_writer s)" and "writer_inv (ss_writer s)"
    and "sess_step mp d (s, c) e = Inr (s', c')"
  shows "winds_down (ss_writer s) (ss_writer s') \<and> writer_inv (ss_writer s')"
proof (cases e)
  case (Read rr)
  with assms show ?thesis
    by (auto simp: sess_step_def session_on_read_def is_closed_def winds_down_refl split: if_splits)
next
  case (Job k)
  with assms show ?thesis
    by (auto simp: sess_step_def run_job_def writer_inv_def winds_down_refl
        split: if_splits sum.splits prod.splits)
next
  case Strand
  have inv: "writer_inv ((ss_writer s)\<lparr>w_strand := ts\<rparr>)" for ts
    using assms(2) by (simp add: writer_inv_def)
  show ?thesis
  proof (cases "w_strand (ss_writer s)")
    case Nil
    with Strand assms show ?thesis by (simp add: sess_step_def run_strand_def winds_down_refl)
  next
    case (Cons t ts)
    show ?thesis
    proof (cases t)
      case ShutdownSocket
      with Cons Strand assms show ?thesis
        by (auto simp: sess_step_def run_strand_def shutdown_socket_def winds_down_def writer_inv_def)
    next
      case (Derived u)
      with Cons Strand assms inv show ?thesis
        by (cases u) (auto simp: sess_step_def run_strand_def run_session_task_def with_writer_def
            writer_write_total [OF inv] winds_down_refl winds_down_close, auto simp: writer_inv_def)
    qed
  qed
next
  case (Wrote ec)
  with assms winds_down_complete complete_inv [OF assms(2)] show ?thesis
    by (cases "complete mp ec (ss_writer s)")
      (auto simp: sess_step_def session_on_write_def with_writer_def)
next
  case CloseRequested
  with assms show ?thesis
    by (auto simp: sess_step_def winds_down_close writer_inv_def)
qed

lemma closed_run:
  "w_exit (ss_writer s) \<Longrightarrow> writer_inv (ss_writer s) \<Longrightarrow>
     run_events (sess_machine mp d) (Inr (s, c)) es = Inr (s', c') \<Longrightarrow>
     winds_down (ss_writer s) (ss_writer s')"
proof (induction es arbitrary: s c)
  case Nil
  then show ?case by (simp add: winds_down_refl)
next
  case (Cons e es)
  from Cons.prems(3) obtain s1 c1 where s1: "sess_step mp d (s, c) e = Inr (s1, c1)"
    by (cases "sess_step mp d (s, c) e") auto
  from closed_step [OF Cons.prems(1,2) s1] have step:
      "winds_down (ss_writer s) (ss_writer s1)" "writer_inv (ss_writer s1)" by simp_all
  then have "w_exit (ss_writer s1)" by (simp add: winds_down_def)
  with Cons.IH [of s1 c1] Cons.prems(3) s1 step show ?case
    by (auto intro: winds_down_trans)
qed

text \<open>A handler that asks for its session to be closed loses its own answer whenever another
  response is still being written: although the response is posted before the close, it only
  joins the queue, the close stops the queue, and in every continuation at most the message
  whose write was outstanding reaches the wire.\<close>

lemma exit_loses_queued_answer:
  assumes "writer_inv (ss_writer s)" and "w_inflight (ss_writer s) = Some b"
    and "w_strand (ss_writer s) = Derived (WriteResponse r) # Derived CloseTask # ts"
    and "run_events (sess_machine mp d) (Inr (s, c)) (Strand # Strand # es) = Inr (s', c')"
  shows "w_wire (ss_writer s') = w_wire (ss_writer s) \<or>
    w_wire (ss_writer s') = w_wire (ss_writer s) @ [b]"
proof -
  have inv: "writer_inv ((ss_writer s)\<lparr>w_strand := t\<rparr>)" for t
    using assms(1) by (simp add: writer_inv_def)
  obtain q where q: "w_queue (ss_writer s) = b # q"
    using assms(1,2) by (auto simp: writer_inv_def)
  obtain s2 where s2: "run_events (sess_machine mp d) (Inr (s, c)) [Strand, Strand] = Inr (s2, c)"
      "w_exit (ss_writer s2)" "w_inflight (ss_writer s2) = Some b"
      "w_wire (ss_writer s2) = w_wire (ss_writer s)" "w_queue (ss_writer s2) \<noteq> []"
      "hd (w_queue (ss_writer s2)) = b"
    using assms(2,3) q by (cases "w_exit (ss_writer s)")
      (simp_all add: sess_step_def run_strand_def run_session_task_def with_writer_def
        writer_write_total [OF inv])
  then have "writer_inv (ss_writer s2)" by (cases "w_queue (ss_writer s2)") (auto simp: writer_inv_def)
  from closed_run [OF s2(2) this, of mp d c es s' c'] assms(4) s2 show ?thesis
    by (auto simp: winds_down_def)
qed

subsection \<open>Witnesses\<close>

text \<open>A callable without parameters that runs a given body.\<close>

definition sample_thunk :: "(mobj list list ctx \<Rightarrow> (thrown + mobj) \<times> mobj list list ctx) \<Rightarrow> mobj list list bound_func" where
  "sample_thunk body =
     \<lparr>fn_callable = Functor (MemFn ''lambda'' (TInt 32) [] True), fn_body = (\<lambda>as. body)\<rparr>"

lemma sample_thunk_simps [simp]:
  "bound_arity (sample_thunk b) = 0" "bound_args mp (sample_thunk b) a = Some []"
  "fn_body (sample_thunk b) as = b"
  by (simp_all add: sample_thunk_def bound_arity_def bound_args_def)

lemma bind_sample_thunk:
  "bind mp ''f'' (sample_thunk b) Dispatcher_new =
     Inr (store ''f'' (bound_call mp ''f'' (sample_thunk b)) Dispatcher_new)"
  by (simp add: bind_overloads_spec names_def Dispatcher_new_def)

lemma respond_error_answer_witness:
  "\<exists>resp closes c1. process_request ref_msgpack
       (store ''f'' (bound_call ref_msgpack ''f'' (sample_thunk (respond_error (MInt 404)))) Dispatcher_new)
       False 1 (call_obj 3 ''f'' []) (fresh_ctx []) = (Inr (WriteResponse resp # closes), c1) \<and>
     world c1 = [] \<and> r_id resp = 3 \<and> r_error resp = Some (MInt 404) \<and> r_result resp = None"
  using respond_error_answer [OF ref_view_laws bind_sample_thunk, of "[]" "respond_error (MInt 404)"
      "[]" 1 "fresh_ctx []" "MInt 404" "reset_ctx 1 (fresh_ctx [])" False 3]
  by (simp add: reset_ctx_eq fresh_ctx_def)

theorem respond_answer_has_error_witness:
  "\<exists>resp closes c1. process_request ref_msgpack
       (store ''f'' (bound_call ref_msgpack ''f'' (sample_thunk (respond (MInt 1)))) Dispatcher_new)
       True 1 (call_obj 3 ''f'' []) (fresh_ctx []) = (Inr (WriteResponse resp # closes), c1) \<and>
     r_id resp = 3 \<and> r_result resp = Some (MInt 1) \<and> 
     Response_of ref_msgpack (response_obj resp) = Inr (Response_default\<lparr>r_id := 3,
       r_error := Some (MStr (''rpclib: server could not find function '' @ quote @ ''f'' @ quote @
         '' wtith argument count 4.'')), r_result := Some (MInt 1)\<rparr>)"
  using respond_answer_has_error [OF ref_view_laws bind_sample_thunk, of "[]" "respond (MInt 1)"
      "[]" 1 "fresh_ctx []" "MInt 1" "reset_ctx 1 (fresh_ctx [])" True 3]
  by (simp add: reset_ctx_eq fresh_ctx_def)

lemma disable_response_drops_exit_witness:
  "fst (process_request ref_msgpack
       (store ''f'' (bound_call ref_msgpack ''f'' (sample_thunk
         (\<lambda>c. (Inr MNil, server_stop (post_exit (disable_response c)))))) Dispatcher_new)
       False 1 (call_obj 3 ''f'' []) (fresh_ctx [])) = Inr []"
  by (rule disable_response_drops_exit [OF ref_view_laws bind_sample_thunk]) simp_all

text \<open>A session whose first response is being written and whose handler asked to close.\<close>

definition sample_exiting :: sess where
  "sample_exiting = (ServerSession_new ref_msgpack True 1)\<lparr>ss_writer := AsyncWriter_new\<lparr>
     w_queue := [[1]], w_inflight := Some [1],
     w_strand := [Derived (WriteResponse (make_result 2 MNil)), Derived CloseTask]\<rparr>\<rparr>"

lemma exit_loses_queued_answer_witness:
  "\<exists>s' c'. run_events (sess_machine ref_msgpack Dispatcher_new) (Inr (sample_exiting, fresh_ctx ()))
      [Strand, Strand, Wrote WriteOk, Wrote WriteOk] = Inr (s', c') \<and>
    (w_wire (ss_writer s') = [] \<or> w_wire (ss_writer s') = [[1]])"
proof -
  have fields: "writer_inv (ss_writer sample_exiting)"
    "w_inflight (ss_writer sample_exiting) = Some [1]" "w_wire (ss_writer sample_exiting) = []"
    "w_strand (ss_writer sample_exiting) =
      [Derived (WriteResponse (make_result 2 MNil)), Derived CloseTask]"
    by (simp_all add: sample_exiting_def writer_inv_def AsyncWriter_new_def)
  have "\<exists>s' c'. run_events (sess_machine ref_msgpack Dispatcher_new)
      (Inr (sample_exiting, fresh_ctx ())) [Strand, Strand, Wrote WriteOk, Wrote WriteOk] = Inr (s', c')"
    by (simp add: sess_step_def handler_defs sample_exiting_def AsyncWriter_new_def
        ServerSession_new_def Let_def)
  then obtain s' c' where run: "run_events (sess_machine ref_msgpack Dispatcher_new)
      (Inr (sample_exiting, fresh_ctx ())) [Strand, Strand, Wrote WriteOk, Wrote WriteOk] = Inr (s', c')"
    by blast
  from exit_loses_queued_answer [OF fields(1,2,4) run] run fields(3) show ?thesis by auto
qed

end
