(* ===== verification/ThreadGroup.thy ===== *)
theory ThreadGroup
  imports Prelude
begin

section \<open>ThreadGroup (include/detail/thread\_group.h)\<close>

text \<open>
  A vector of \<open>std::thread\<close> objects. Each names a thread of the program by its number and is
  joinable until it was joined. Joining blocks until the thread has finished, which is a
  predicate on thread numbers here; a thread that joins itself gets the \<open>system_error\<close> that
  the standard prescribes (resource\_deadlock\_would\_occur). The call is executed by the
  thread \<open>self\<close>.
\<close>

record std_thread =
  st_id :: nat
  st_joinable :: bool

type_synonym thread_group = "std_thread list"

definition ThreadGroup_new :: thread_group where
  "ThreadGroup_new = []"

text \<open>
  The loop \<open>for (i = 0; i \<noteq> thread_count; ++i)\<close>: every round starts a thread, which gets the next
  unused number, and appends its object.
\<close>

fun create_threads :: "nat \<Rightarrow> nat \<Rightarrow> thread_group \<Rightarrow> thread_group" where
  "create_threads next_id 0 g = g"
| "create_threads next_id (Suc n) g =
     create_threads (Suc next_id) n (g @ [\<lparr>st_id = next_id, st_joinable = True\<rparr>])"

datatype join_result = Joined | JoinBlocks | JoinThrows

fun join_all :: "(nat \<Rightarrow> bool) \<Rightarrow> nat \<Rightarrow> thread_group \<Rightarrow> join_result \<times> thread_group" where
  "join_all finished self [] = (Joined, [])"
| "join_all finished self (t # ts) =
     (if st_joinable t
      then if st_id t = self then (JoinThrows, t # ts)
        else if finished (st_id t)
          then (case join_all finished self ts of (r, ts') \<Rightarrow> (r, t\<lparr>st_joinable := False\<rparr> # ts'))
          else (JoinBlocks, t # ts)
      else (case join_all finished self ts of (r, ts') \<Rightarrow> (r, t # ts')))"

text \<open>The destructor joins all threads.\<close>

definition destroy_group :: "(nat \<Rightarrow> bool) \<Rightarrow> nat \<Rightarrow> thread_group \<Rightarrow> join_result \<times> thread_group" where
  "destroy_group finished self g = join_all finished self g"

subsection \<open>Joining\<close>

lemma create_threads_spec:
  "create_threads next_id n g = g @ map (\<lambda>i. \<lparr>st_id = i, st_joinable = True\<rparr>) [next_id..<next_id + n]"
proof (induction n arbitrary: next_id g)
  case (Suc n)
  then show ?case by (simp del: upt_Suc add: upt_conv_Cons)
qed simp

text \<open>The threads that still have to be joined.\<close>

definition unjoined :: "thread_group \<Rightarrow> nat set" where
  "unjoined g = st_id ` {t \<in> set g. st_joinable t}"

lemma unjoined_simps [simp]:
  "unjoined [] = {}"
  "unjoined (t # g) = (if st_joinable t then insert (st_id t) (unjoined g) else unjoined g)"
  "unjoined (g @ h) = unjoined g \<union> unjoined h"
  by (auto simp: unjoined_def)

lemma unjoined_ids: "unjoined g \<subseteq> set (map st_id g)"
  by (auto simp: unjoined_def)

lemma unjoined_created [simp]:
  "unjoined (create_threads next_id n g) = unjoined g \<union> {next_id..<next_id + n}"
  by (force simp: create_threads_spec unjoined_def)

lemma join_all_joined:
  "fst (join_all finished self g) = Joined \<longleftrightarrow> self \<notin> unjoined g \<and> (\<forall>i \<in> unjoined g. finished i)"
  by (induction g) (auto split: prod.splits)

lemma join_all_unjoined:
  "join_all finished self g = (Joined, g') \<Longrightarrow> unjoined g' = {}"
  by (induction g arbitrary: g') (auto split: prod.splits if_splits)

lemma join_all_subset:
  "unjoined (snd (join_all finished self g)) \<subseteq> unjoined g"
  by (induction g) (auto split: prod.splits)

lemma join_all_ids: "map st_id (snd (join_all finished self g)) = map st_id g"
  by (induction g) (auto split: prod.splits)

lemma join_all_again: "unjoined g = {} \<Longrightarrow> join_all finished self g = (Joined, g)"
  by (induction g) (auto split: if_splits)

lemma join_self_throws:
  "self \<in> unjoined g \<Longrightarrow> (\<forall>i \<in> unjoined g. i \<noteq> self \<longrightarrow> finished i) \<Longrightarrow>
     fst (join_all finished self g) = JoinThrows"
  by (induction g) (auto split: prod.splits if_splits)

lemma join_throws_self: "fst (join_all finished self g) = JoinThrows \<Longrightarrow> self \<in> unjoined g"
  by (induction g) (auto split: prod.splits if_splits)

lemma join_blocked:
  "i \<in> unjoined g \<Longrightarrow> \<not> finished i \<Longrightarrow> i \<in> unjoined (snd (join_all finished self g))"
  by (induction g) (auto split: prod.splits if_splits)

end
