(* ===== verification/Server.thy ===== *)
theory Server
  imports SessionSpec ThreadGroup
begin

section \<open>Server (include/server.h, src/server.cpp)\<close>

text \<open>
  The state of a server is that of its \<open>impl\<close> together with the threads of the program.
  A \<open>shared_ptr<ServerSession>\<close> is the position of the session in \<open>sv_objs\<close>, the list of all
  session objects ever made; that position also stands for the address a session has as its id.
  Every thread has its own thread-local objects \<open>th_local\<close>; thread 0 is the application's
  thread and the others are the workers of async\_run. The application state \<open>sv_world\<close> is
  shared. A handler runs on one thread from its start to its end without interruption.

  A Server object is identified by its address. \<open>sv_owner\<close> is the address of the object whose
  \<open>pimpl_\<close> and \<open>disp_\<close> are not null, and \<open>sv_parent\<close> the value of \<open>impl::parent\<close>, which every
  session takes over as its \<open>parent_\<close>. Opening, binding and listening belong to Boost.Asio; the
  local port the acceptor ends up with is an argument of the constructor.
\<close>

datatype thread_state = Starting | Running | Finished

record thread =
  th_local :: "unit ctx"
  th_state :: thread_state

definition new_thread :: "thread_state \<Rightarrow> thread" where
  "new_thread st = \<lparr>th_local = fresh_ctx (), th_state = st\<rparr>"

record 'w srv =
  sv_parent :: nat
  sv_owner :: nat
  sv_port :: "16 word"
  sv_disp :: "'w dispatcher"
  sv_objs :: "sess list"
  sv_disp_null :: "nat list"
  sv_sessions :: "nat list"
  sv_suppress :: bool
  sv_accepting :: bool
  sv_cancelled :: bool
  sv_stopped :: bool
  sv_group :: thread_group
  sv_threads :: "thread list"
  sv_world :: 'w

text \<open>What ends the program in a handler of the server: a fault of a session, a call through the
  null \<open>disp_\<close>, or a call through the null \<open>pimpl_\<close> of the parent.\<close>

datatype srv_fault = InSession fault | NullDispatcher | NullImpl

definition start_accept :: "'w srv \<Rightarrow> 'w srv" where
  "start_accept v = v\<lparr>sv_accepting := True\<rparr>"

definition impl_new :: "nat \<Rightarrow> 16 word \<Rightarrow> 'w \<Rightarrow> 'w srv" where
  "impl_new self port w =
     \<lparr>sv_parent = self, sv_owner = self, sv_port = port, sv_disp = Dispatcher_new, sv_objs = [],
      sv_disp_null = [], sv_sessions = [], sv_suppress = False, sv_accepting = False,
      sv_cancelled = False, sv_stopped = False, sv_group = ThreadGroup_new,
      sv_threads = [new_thread Finished], sv_world = w\<rparr>"

definition Server_new :: "nat \<Rightarrow> 16 word \<Rightarrow> 'w \<Rightarrow> 'w srv" where
  "Server_new self port w = start_accept (impl_new self port w)"

text \<open>
  The constructors open, bind and listen before anything else exists. \<open>listen_on\<close> stands for these
  calls of Boost.Asio: given the address, or none for the overload without one, and the port,
  they end with the port that is bound or throw, and then there is no server.
\<close>

definition impl_construct ::
  "(string option \<Rightarrow> 16 word \<Rightarrow> thrown + 16 word) \<Rightarrow> nat \<Rightarrow> string option \<Rightarrow> 16 word \<Rightarrow> 'w \<Rightarrow> thrown + 'w srv" where
  "impl_construct listen_on self address port w =
     map_sum id (\<lambda>bound. impl_new self bound w) (listen_on address port)"

definition Server_construct ::
  "(string option \<Rightarrow> 16 word \<Rightarrow> thrown + 16 word) \<Rightarrow> nat \<Rightarrow> string option \<Rightarrow> 16 word \<Rightarrow> 'w \<Rightarrow> thrown + 'w srv" where
  "Server_construct listen_on self address port w =
     map_sum id start_accept (impl_construct listen_on self address port w)"

lemma Server_construct_cases:
  "Server_construct listen_on self address port w = (case listen_on address port of
     Inl x \<Rightarrow> Inl x | Inr bound \<Rightarrow> Inr (Server_new self bound w))"
  by (simp add: Server_construct_def impl_construct_def Server_new_def split: sum.splits)

subsection \<open>Threads and their contexts\<close>

definition thread_at :: "'w srv \<Rightarrow> nat \<Rightarrow> thread" where
  "thread_at v t = sv_threads v ! t"

definition in_thread :: "'w srv \<Rightarrow> nat \<Rightarrow> 'w ctx" where
  "in_thread v t = (let l = th_local (thread_at v t) in
     \<lparr>handler = handler l, session = session l, server = server l, world = sv_world v\<rparr>)"

definition leave_ctx :: "nat \<Rightarrow> 'w ctx \<Rightarrow> 'w srv \<Rightarrow> 'w srv" where
  "leave_ctx t c v = v\<lparr>sv_world := world c, sv_threads := (sv_threads v)[t := (thread_at v t)\<lparr>
     th_local := \<lparr>handler = handler c, session = session c, server = server c, world = ()\<rparr>\<rparr>]\<rparr>"

definition set_state :: "nat \<Rightarrow> thread_state \<Rightarrow> 'w srv \<Rightarrow> 'w srv" where
  "set_state t st v = v\<lparr>sv_threads := (sv_threads v)[t := (thread_at v t)\<lparr>th_state := st\<rparr>]\<rparr>"

definition has_state :: "'w srv \<Rightarrow> nat \<Rightarrow> thread_state \<Rightarrow> bool" where
  "has_state v t st \<longleftrightarrow> t < length (sv_threads v) \<and> th_state (thread_at v t) = st"

subsection \<open>The public operations\<close>

definition server_bind :: "msgpack \<Rightarrow> string \<Rightarrow> 'w bound_func \<Rightarrow> 'w srv \<Rightarrow> thrown + 'w srv" where
  "server_bind mp name f v = map_sum id (\<lambda>d. v\<lparr>sv_disp := d\<rparr>) (bind mp name f (sv_disp v))"

definition server_unbind :: "string \<Rightarrow> 'w srv \<Rightarrow> 'w srv" where
  "server_unbind name v = v\<lparr>sv_disp := unbind name (sv_disp v)\<rparr>"

definition server_names :: "'w srv \<Rightarrow> string list" where
  "server_names v = names (sv_disp v)"

definition suppress_exceptions :: "bool \<Rightarrow> 'w srv \<Rightarrow> 'w srv" where
  "suppress_exceptions suppress v = v\<lparr>sv_suppress := suppress\<rparr>"

definition server_port :: "'w srv \<Rightarrow> 16 word" where
  "server_port v = sv_port v"

text \<open>async\_run adds the worker threads, which then enter the loop one by one.\<close>

definition async_run :: "nat \<Rightarrow> 'w srv \<Rightarrow> 'w srv" where
  "async_run worker_threads v =
     v\<lparr>sv_group := create_threads (length (sv_threads v)) worker_threads (sv_group v),
       sv_threads := sv_threads v @ replicate worker_threads (new_thread Starting)\<rparr>"

text \<open>
  \<open>io_context::run\<close> returns at once when the context is stopped; otherwise the thread takes
  handlers from now on. run and the function of a worker thread both call it.
\<close>

definition enter_loop :: "nat \<Rightarrow> 'w srv \<Rightarrow> 'w srv" where
  "enter_loop t v = set_state t (if sv_stopped v then Finished else Running) v"

text \<open>
  It returns when the context is stopped or out of work, and running out of work stops the
  context: no accept, read or write is outstanding and no handler is posted.
\<close>

definition out_of_work :: "'w srv \<Rightarrow> bool" where
  "out_of_work v \<longleftrightarrow> \<not> sv_accepting v \<and> (\<forall>s \<in> set (sv_objs v). \<not> ss_reading s \<and> ss_jobs s = [] \<and>
     w_inflight (ss_writer s) = None \<and> w_strand (ss_writer s) = [])"

definition leave_loop :: "nat \<Rightarrow> 'w srv \<Rightarrow> 'w srv" where
  "leave_loop t v =
     (if sv_stopped v then set_state t Finished v
      else if out_of_work v then set_state t Finished (v\<lparr>sv_stopped := True\<rparr>)
      else v)"

text \<open>
  \<open>impl::stop\<close> as executed by thread \<open>self\<close>: the context is stopped, then the workers are joined
  as far as they have finished. A call whose join blocks goes on when it is repeated.
\<close>

definition impl_stop :: "nat \<Rightarrow> 'w srv \<Rightarrow> join_result \<times> 'w srv" where
  "impl_stop self v =
     (let v1 = v\<lparr>sv_stopped := True\<rparr> in
      case join_all (\<lambda>t. has_state v1 t Finished) self (sv_group v1) of
        (r, g) \<Rightarrow> (r, v1\<lparr>sv_group := g\<rparr>))"

definition stop_server :: "nat \<Rightarrow> 'w srv \<Rightarrow> join_result \<times> 'w srv" where
  "stop_server self v = impl_stop self v"

text \<open>
  The implicit destructor of impl joins the threads of the group; the destructor of Server at
  address \<open>a\<close> stops first, if its \<open>pimpl_\<close> is not null.
\<close>

definition destroy_impl :: "nat \<Rightarrow> 'w srv \<Rightarrow> join_result \<times> 'w srv" where
  "destroy_impl self v = (case destroy_group (\<lambda>t. has_state v t Finished) self (sv_group v) of
     (r, g) \<Rightarrow> (r, v\<lparr>sv_group := g\<rparr>))"

definition destroy_server :: "nat \<Rightarrow> nat \<Rightarrow> 'w srv \<Rightarrow> join_result \<times> 'w srv" where
  "destroy_server self a v =
     (if sv_owner v = a
      then (case impl_stop self v of (Joined, v1) \<Rightarrow> destroy_impl self v1 | (r, v1) \<Rightarrow> (r, v1))
      else (Joined, v))"

text \<open>
  The move constructor at address \<open>a\<close> takes \<open>pimpl_\<close> and \<open>disp_\<close>. Move assignment to the object at
  \<open>a\<close> does the same and destroys the impl that was there, which was not stopped.
\<close>

definition move_server :: "nat \<Rightarrow> 'w srv \<Rightarrow> 'w srv" where
  "move_server a other = other\<lparr>sv_owner := a\<rparr>"

definition move_assign_server :: "nat \<Rightarrow> nat \<Rightarrow> 'w srv \<Rightarrow> 'w srv \<Rightarrow> join_result \<times> 'w srv" where
  "move_assign_server self a old other = (fst (destroy_impl self old), move_server a other)"

definition close_session :: "nat \<Rightarrow> 'w srv \<Rightarrow> 'w srv" where
  "close_session s v = v\<lparr>sv_sessions := remove1 s (sv_sessions v)\<rparr>"

text \<open>The list is copied and cleared under the lock, then every session in the copy is closed. The
  flag that cancels the acceptor is that of the thread \<open>t\<close> that makes the call.\<close>

definition close_all :: "nat list \<Rightarrow> sess list \<Rightarrow> sess list" where
  "close_all copy objs = fold (\<lambda>k os. os[k := session_close (os ! k)]) copy objs"

definition close_sessions :: "nat \<Rightarrow> 'w srv \<Rightarrow> 'w srv" where
  "close_sessions t v =
     (let sessions_copy = sv_sessions v;
          v1 = v\<lparr>sv_sessions := []\<rparr>;
          v2 = v1\<lparr>sv_objs := close_all sessions_copy (sv_objs v1)\<rparr>
      in if stopping (in_thread v2 t) then v2\<lparr>sv_cancelled := True\<rparr> else v2)"

text \<open>The completion handler of start\_accept, on thread \<open>t\<close>. The new session takes over
  \<open>parent->disp_\<close>, which is null when the parent has been moved from.\<close>

definition on_accept :: "msgpack \<Rightarrow> nat \<Rightarrow> bool \<Rightarrow> 'w srv \<Rightarrow> srv_fault + 'w srv" where
  "on_accept mp t ok v0 =
     (let v = v0\<lparr>sv_accepting := False\<rparr>;
          again = (\<lambda>u. if \<not> stopping (in_thread u t) then start_accept u else u);
          k = length (sv_objs v)
      in if ok
         then (case session_start (ServerSession_new mp (sv_suppress v) (of_nat k)) of
             Inl f \<Rightarrow> Inl (InSession f)
           | Inr s \<Rightarrow> Inr (again (v\<lparr>sv_objs := sv_objs v @ [s],
               sv_disp_null := (if sv_parent v = sv_owner v then sv_disp_null v else k # sv_disp_null v),
               sv_sessions := sv_sessions v @ [k]\<rparr>)))
         else Inr (again v))"

subsection \<open>The server with its sessions and threads as a machine\<close>

text \<open>
  Events of the application's thread: async\_run, run, stop, close\_sessions,
  suppress\_exceptions. Events of a thread \<open>t\<close>: it enters or leaves the loop, completes an
  accept, or takes a step of session \<open>k\<close>. \<open>Strand\<close> steps carry out the calls of the parent.
  Only a thread in the loop takes handlers, and none does once the context is stopped. The
  event \<open>CloseRequested\<close> of a session is the server's own call and no event here.
\<close>

datatype srv_event =
    AsyncRun nat | RunCalled | StopCalled | CloseAllCalled | SuppressCalled bool
  | Enter nat | Leave nat | AcceptDone nat bool | SessionStep nat nat sess_event

definition parent_calls :: "nat \<Rightarrow> nat \<Rightarrow> parent_call \<Rightarrow> 'w srv \<Rightarrow> srv_fault + 'w srv" where
  "parent_calls t k pc v =
     (if pc = NoCall then Inr v
      else if sv_parent v \<noteq> sv_owner v then Inl NullImpl
      else Inr (if pc = CallCloseSession then close_session k v else close_sessions t v))"

definition takes_job :: "sess_event \<Rightarrow> sess \<Rightarrow> bool" where
  "takes_job se s = (case se of Job j \<Rightarrow> j < length (ss_jobs s) | _ \<Rightarrow> False)"

definition session_step :: "msgpack \<Rightarrow> nat \<Rightarrow> nat \<Rightarrow> sess_event \<Rightarrow> 'w srv \<Rightarrow> srv_fault + 'w srv" where
  "session_step mp t k se v =
     (let s0 = sv_objs v ! k in
      case se of
        CloseRequested \<Rightarrow> Inr v
      | Strand \<Rightarrow>
          (case run_strand mp s0 of
             Inl f \<Rightarrow> Inl (InSession f)
           | Inr (s, pc) \<Rightarrow> parent_calls t k pc (v\<lparr>sv_objs := (sv_objs v)[k := s]\<rparr>))
      | _ \<Rightarrow>
          (if takes_job se s0 \<and> k \<in> set (sv_disp_null v)
           then Inl NullDispatcher
           else (case sess_step mp (sv_disp v) (s0, in_thread v t) se of
               Inl f \<Rightarrow> Inl (InSession f)
             | Inr (s, c) \<Rightarrow> Inr (leave_ctx t c (v\<lparr>sv_objs := (sv_objs v)[k := s]\<rparr>)))))"

definition srv_step :: "msgpack \<Rightarrow> 'w srv \<Rightarrow> srv_event \<Rightarrow> srv_fault + 'w srv" where
  "srv_step mp v e =
     (case e of
        AsyncRun n \<Rightarrow> Inr (if has_state v 0 Finished then async_run n v else v)
      | RunCalled \<Rightarrow> Inr (if has_state v 0 Finished then enter_loop 0 v else v)
      | StopCalled \<Rightarrow> Inr (if has_state v 0 Finished then snd (stop_server 0 v) else v)
      | CloseAllCalled \<Rightarrow> Inr (if has_state v 0 Finished then close_sessions 0 v else v)
      | SuppressCalled b \<Rightarrow> Inr (if has_state v 0 Finished then suppress_exceptions b v else v)
      | Enter t \<Rightarrow> Inr (if has_state v t Starting then enter_loop t v else v)
      | Leave t \<Rightarrow> Inr (if has_state v t Running then leave_loop t v else v)
      | AcceptDone t ok \<Rightarrow>
          if has_state v t Running \<and> \<not> sv_stopped v \<and> sv_accepting v then on_accept mp t ok v else Inr v
      | SessionStep t k se \<Rightarrow>
          if has_state v t Running \<and> \<not> sv_stopped v \<and> k < length (sv_objs v)
          then session_step mp t k se v else Inr v)"

definition srv_machine :: "msgpack \<Rightarrow> srv_fault + 'w srv \<Rightarrow> srv_event \<Rightarrow> srv_fault + 'w srv" where
  "srv_machine mp st e = (case st of Inl f \<Rightarrow> Inl f | Inr v \<Rightarrow> srv_step mp v e)"

lemma srv_machine_simps [simp]:
  "srv_machine mp (Inl f) e = Inl f" "srv_machine mp (Inr v) e = srv_step mp v e"
  by (simp_all add: srv_machine_def)

text \<open>A server with its functions bound, before it runs.\<close>

definition serving_with :: "'w dispatcher \<Rightarrow> bool \<Rightarrow> 'w \<Rightarrow> 'w srv" where
  "serving_with d suppress w = suppress_exceptions suppress ((Server_new 0 8080 w)\<lparr>sv_disp := d\<rparr>)"

lemmas server_defs [handler_defs] =
  start_accept_def impl_new_def Server_new_def thread_at_def in_thread_def leave_ctx_def
  set_state_def has_state_def suppress_exceptions_def async_run_def enter_loop_def
  leave_loop_def impl_stop_def stop_server_def close_session_def close_sessions_def
  on_accept_def parent_calls_def takes_job_def session_step_def srv_step_def new_thread_def
  ThreadGroup_new_def

end
