(* ===== verification/ServerRuns.thy ===== *)
theory ServerRuns
  imports Server
begin

section \<open>Runs of a server\<close>

text \<open>
  The invariants of a server that runs on any number of threads: which sessions are registered,
  and how the threads of the program relate to the thread group. Then what close\_sessions and
  stop achieve from every reachable state.
\<close>

subsection \<open>Which sessions are registered\<close>

definition open_sess :: "sess \<Rightarrow> bool" where
  "open_sess s \<longleftrightarrow> \<not> w_exit (ss_writer s)"

text \<open>A session asks to be deregistered only after it was closed.\<close>

definition deregisters_closed :: "sess \<Rightarrow> bool" where
  "deregisters_closed s \<longleftrightarrow> (Derived Deregister \<in> set (w_strand (ss_writer s)) \<longrightarrow> \<not> open_sess s)"

text \<open>
  Registered sessions exist and are registered once, every open session is registered, and no
  session has been closed behind the back of the list.
\<close>

definition srv_inv :: "'w srv \<Rightarrow> bool" where
  "srv_inv v \<longleftrightarrow> distinct (sv_sessions v) \<and> set (sv_sessions v) \<subseteq> {..<length (sv_objs v)} \<and>
     (\<forall>k < length (sv_objs v). open_sess (sv_objs v ! k) \<longrightarrow> k \<in> set (sv_sessions v)) \<and>
     (\<forall>s \<in> set (sv_objs v). deregisters_closed s)"

lemma session_decode_writer: "session_decode mp n s = Inr s' \<Longrightarrow> ss_writer s' = ss_writer s"
proof (induction n arbitrary: s)
  case (Suc n)
  then show ?case
    by (auto split: next_result.splits if_splits)
qed simp

lemma writer_frames:
  "writer_write d w = Inr w' \<Longrightarrow> w_exit w' = w_exit w \<and> w_strand w' = w_strand w"
  "complete mp ec w = Inr w' \<Longrightarrow> w_exit w' = w_exit w \<and> w_strand w' = w_strand w"
  by (auto simp: writer_defs Let_def split: if_splits list.splits option.splits
      write_result.splits sum.splits)

lemma request_never_deregisters:
  "process_request mp d p i m c = (Inr ts, c') \<Longrightarrow> Deregister \<notin> set ts"
  by (drule answer_shape) auto

lemma registration_closed:
  "(open_sess (session_close s) \<longrightarrow> open_sess s) \<and> deregisters_closed (session_close s)"
  by (simp add: open_sess_def deregisters_closed_def)

lemma sess_step_registration:
  assumes "sess_step mp d (s, c) e = Inr (s', c')" and "deregisters_closed s"
  shows "(open_sess s' \<longrightarrow> open_sess s) \<and> deregisters_closed s'"
proof (cases e)
  case (Read rr)
  have "s' = session_close (s\<lparr>ss_reading := False\<rparr>) \<or> ss_writer s' = ss_writer s"
    using assms(1) Read
    by (cases rr) (auto simp: sess_step_def session_on_read_def session_do_read_def start_read_def
        Let_def dest!: session_decode_writer split: if_splits sum.splits)
  then show ?thesis
    using registration_closed assms(2) by (auto simp: open_sess_def deregisters_closed_def)
next
  case (Job k)
  then show ?thesis
    using assms
    by (auto simp: sess_step_def run_job_def open_sess_def deregisters_closed_def
        dest!: request_never_deregisters split: if_splits prod.splits sum.splits)
next
  case Strand
  show ?thesis
  proof (cases "w_strand (ss_writer s)")
    case Nil
    with Strand assms show ?thesis by (simp add: sess_step_def run_strand_def)
  next
    case (Cons t ts)
    show ?thesis
    proof (cases t)
      case ShutdownSocket
      with Strand assms Cons show ?thesis
        by (auto simp: sess_step_def run_strand_def shutdown_socket_def open_sess_def
            deregisters_closed_def)
    next
      case (Derived u)
      with Strand assms Cons show ?thesis
        by (cases u) (auto simp: sess_step_def run_strand_def run_session_task_def with_writer_def
            map_sum_def open_sess_def deregisters_closed_def dest!: writer_frames(1) split: sum.splits)
    qed
  qed
next
  case (Wrote ec)
  with assms show ?thesis
    by (auto simp: sess_step_def session_on_write_def with_writer_def map_sum_def open_sess_def
        deregisters_closed_def dest!: writer_frames(2) split: sum.splits)
next
  case CloseRequested
  with assms registration_closed show ?thesis by (auto simp: sess_step_def)
qed

lemma run_strand_registration:
  assumes "run_strand mp s = Inr (s', pc)" and "deregisters_closed s"
  shows "(open_sess s' \<longrightarrow> open_sess s) \<and> deregisters_closed s'"
    and "pc = CallCloseSession \<Longrightarrow> \<not> open_sess s'"
proof -
  show "(open_sess s' \<longrightarrow> open_sess s) \<and> deregisters_closed s'"
    using sess_step_registration [of mp Dispatcher_new s "fresh_ctx ()" Strand s' "fresh_ctx ()"] assms
    by (simp add: sess_step_def)
  assume "pc = CallCloseSession"
  with assms(1) obtain ts where "w_strand (ss_writer s) = Derived Deregister # ts"
      "open_sess s' = open_sess s"
    by (auto simp: run_strand_def run_session_task_def with_writer_def map_sum_def open_sess_def Let_def
        split: list.splits strand_task.splits session_task.splits sum.splits)
  with assms(2) show "\<not> open_sess s'" by (simp add: deregisters_closed_def)
qed

lemma close_all_rec [simp]:
  "close_all [] objs = objs"
  "close_all (j # copy) objs = close_all copy (objs[j := session_close (objs ! j)])"
  by (simp_all add: close_all_def)

lemma length_close_all [simp]: "length (close_all copy objs) = length objs"
  by (induction copy arbitrary: objs) simp_all

lemma close_all_open:
  "k < length objs \<Longrightarrow>
     open_sess (close_all copy objs ! k) \<longleftrightarrow> open_sess (objs ! k) \<and> k \<notin> set copy"
proof (induction copy arbitrary: objs)
  case (Cons j copy)
  have "open_sess (objs[j := session_close (objs ! j)] ! k) \<longleftrightarrow> open_sess (objs ! k) \<and> k \<noteq> j"
    using Cons.prems by (cases "k = j") (simp_all add: open_sess_def)
  with Cons.IH [of "objs[j := session_close (objs ! j)]"] Cons.prems show ?case by auto
qed simp

lemma close_all_ball:
  assumes "\<And>s. A s \<Longrightarrow> A (session_close s)" and "\<forall>s \<in> set objs. A s"
  shows "\<forall>s \<in> set (close_all copy objs). A s"
  using assms(2)
proof (induction copy arbitrary: objs)
  case (Cons j copy)
  have "\<forall>s \<in> set (objs[j := session_close (objs ! j)]). A s"
    using Cons.prems assms(1) by (cases "j < length objs")
      (auto simp: list_update_beyond dest!: set_update_subset_insert [THEN subsetD])
  with Cons.IH show ?case by simp
qed simp

lemma close_all_registration:
  "\<forall>s \<in> set objs. deregisters_closed s \<Longrightarrow> \<forall>s \<in> set (close_all copy objs). deregisters_closed s"
  using registration_closed by (intro close_all_ball) blast+

lemma close_sessions_fields [simp]:
  "sv_objs (close_sessions t v) = close_all (sv_sessions v) (sv_objs v)"
  "sv_sessions (close_sessions t v) = []"
  "sv_group (close_sessions t v) = sv_group v" "sv_threads (close_sessions t v) = sv_threads v"
  "sv_world (close_sessions t v) = sv_world v" "sv_stopped (close_sessions t v) = sv_stopped v"
  "sv_accepting (close_sessions t v) = sv_accepting v" "sv_owner (close_sessions t v) = sv_owner v"
  "sv_parent (close_sessions t v) = sv_parent v" "sv_disp (close_sessions t v) = sv_disp v"
  "sv_disp_null (close_sessions t v) = sv_disp_null v"
  by (simp_all add: close_sessions_def Let_def)

lemma close_sessions_inv:
  assumes "srv_inv v"
  shows "srv_inv (close_sessions t v)"
    and "\<forall>s \<in> set (sv_objs (close_sessions t v)). \<not> open_sess s"
proof -
  have closed: "\<not> open_sess (close_all (sv_sessions v) (sv_objs v) ! k)" if "k < length (sv_objs v)" for k
    using assms that by (auto simp: close_all_open srv_inv_def)
  then show "\<forall>s \<in> set (sv_objs (close_sessions t v)). \<not> open_sess s"
    by (auto simp: in_set_conv_nth)
  show "srv_inv (close_sessions t v)"
    using assms closed close_all_registration [of "sv_objs v" "sv_sessions v"]
    by (simp add: srv_inv_def)
qed

text \<open>The invariant reads two fields only.\<close>

lemma srv_inv_cong:
  "sv_sessions v' = sv_sessions v \<Longrightarrow> sv_objs v' = sv_objs v \<Longrightarrow> srv_inv v' \<longleftrightarrow> srv_inv v"
  by (simp add: srv_inv_def)

lemma update_session_inv:
  assumes "srv_inv v" and "k < length (sv_objs v)"
    and "(open_sess s \<longrightarrow> open_sess (sv_objs v ! k)) \<and> deregisters_closed s"
  shows "srv_inv (v\<lparr>sv_objs := (sv_objs v)[k := s]\<rparr>)"
  using assms by (auto simp: srv_inv_def nth_list_update dest!: set_update_subset_insert [THEN subsetD])

lemma on_accept_inv:
  "srv_inv v \<Longrightarrow> on_accept mp t ok v = Inr v' \<Longrightarrow> srv_inv v'"
  by (auto simp: on_accept_def start_accept_def Let_def srv_inv_def less_Suc_eq
      nth_append session_start_def session_do_read_def start_read_def ServerSession_new_def
      AsyncWriter_new_def deregisters_closed_def split: if_splits sum.splits)

lemma parent_calls_inv:
  assumes "srv_inv v" and "k < length (sv_objs v)" and "parent_calls t k pc v = Inr v'"
    and "pc = CallCloseSession \<Longrightarrow> \<not> open_sess (sv_objs v ! k)"
  shows "srv_inv v'"
proof (cases pc)
  case CallCloseSession
  with assms show ?thesis
    by (auto simp: parent_calls_def close_session_def srv_inv_def in_set_remove1 split: if_splits
        dest: set_remove1_subset [THEN subsetD])
next
  case CallCloseSessions
  with assms close_sessions_inv(1) [OF assms(1)] show ?thesis
    by (auto simp: parent_calls_def split: if_splits)
qed (use assms in \<open>auto simp: parent_calls_def\<close>)

text \<open>A session step is the step of that session alone, or one of its strand handlers followed by
  the call of the parent.\<close>

lemma session_step_cases:
  assumes "session_step mp t k se v = Inr v'"
  obtains (closing) "se = CloseRequested" "v' = v"
  | (strand) s pc where "se = Strand" "run_strand mp (sv_objs v ! k) = Inr (s, pc)"
      "parent_calls t k pc (v\<lparr>sv_objs := (sv_objs v)[k := s]\<rparr>) = Inr v'"
  | (own) s c where "se \<noteq> Strand" "se \<noteq> CloseRequested"
      "sess_step mp (sv_disp v) (sv_objs v ! k, in_thread v t) se = Inr (s, c)"
      "v' = leave_ctx t c (v\<lparr>sv_objs := (sv_objs v)[k := s]\<rparr>)"
  using assms by (cases se) (auto simp: session_step_def Let_def split: if_splits sum.splits)

lemma session_step_inv:
  assumes "srv_inv v" and "k < length (sv_objs v)" and "session_step mp t k se v = Inr v'"
  shows "srv_inv v'"
  using assms(3)
proof (cases rule: session_step_cases)
  case closing
  with assms(1) show ?thesis by simp
next
  case (strand s pc)
  have dc: "deregisters_closed (sv_objs v ! k)" using assms(1,2) by (simp add: srv_inv_def)
  note reg = run_strand_registration [OF strand(2) dc]
  show ?thesis
    using update_session_inv [OF assms(1,2) reg(1)] _ strand(3)
    by (rule parent_calls_inv) (use reg(2) assms(2) in simp_all)
next
  case (own s c)
  have "deregisters_closed (sv_objs v ! k)" using assms(1,2) by (simp add: srv_inv_def)
  from update_session_inv [OF assms(1,2) sess_step_registration [OF own(3) this]] show ?thesis
    unfolding own(4) by (subst srv_inv_cong) (simp_all add: leave_ctx_def)
qed

subsection \<open>Threads and the thread group\<close>

text \<open>The group joins existing worker threads only, each at most once, and a thread it has joined
  has finished.\<close>

definition threads_inv :: "'w srv \<Rightarrow> bool" where
  "threads_inv v \<longleftrightarrow> sv_threads v \<noteq> [] \<and> distinct (map st_id (sv_group v)) \<and>
     set (map st_id (sv_group v)) = {1..<length (sv_threads v)} \<and>
     (\<forall>t. 0 < t \<longrightarrow> t < length (sv_threads v) \<longrightarrow> t \<notin> unjoined (sv_group v) \<longrightarrow> has_state v t Finished)"

lemma has_state_other [simp]:
  "has_state (v\<lparr>sv_group := g\<rparr>) = has_state v" "has_state (v\<lparr>sv_stopped := b\<rparr>) = has_state v"
  "has_state (v\<lparr>sv_suppress := b\<rparr>) = has_state v" "has_state (v\<lparr>sv_objs := os\<rparr>) = has_state v"
  "has_state (v\<lparr>sv_sessions := ks\<rparr>) = has_state v" "has_state (close_sessions t' v) = has_state v"
  "has_state (v\<lparr>sv_accepting := b\<rparr>) = has_state v"
  by (simp_all add: fun_eq_iff has_state_def thread_at_def)

lemma has_state_leave [simp]: "has_state (leave_ctx t' c v) = has_state v"
proof (intro ext)
  fix t st
  show "has_state (leave_ctx t' c v) t st = has_state v t st"
    by (cases "t = t'") (auto simp: has_state_def leave_ctx_def thread_at_def)
qed

lemma has_state_set [simp]:
  "has_state (set_state t' st v) t st' \<longleftrightarrow>
     (if t = t' then t < length (sv_threads v) \<and> st = st' else has_state v t st')"
  by (auto simp: has_state_def set_state_def thread_at_def nth_list_update)

lemma length_threads [simp]:
  "length (sv_threads (set_state t st v)) = length (sv_threads v)"
  "length (sv_threads (leave_ctx t c v)) = length (sv_threads v)"
  by (simp_all add: set_state_def leave_ctx_def)

lemma set_state_fields [simp]:
  "sv_group (set_state t st v) = sv_group v" "sv_stopped (set_state t st v) = sv_stopped v"
  "sv_objs (set_state t st v) = sv_objs v" "sv_world (set_state t st v) = sv_world v"
  "sv_sessions (set_state t st v) = sv_sessions v" "sv_accepting (set_state t st v) = sv_accepting v"
  by (simp_all add: set_state_def)

lemma leave_ctx_fields [simp]:
  "sv_group (leave_ctx t c v) = sv_group v" "sv_stopped (leave_ctx t c v) = sv_stopped v"
  "sv_objs (leave_ctx t c v) = sv_objs v" "sv_world (leave_ctx t c v) = world c"
  "sv_sessions (leave_ctx t c v) = sv_sessions v" "sv_accepting (leave_ctx t c v) = sv_accepting v"
  by (simp_all add: leave_ctx_def)

text \<open>What a handler leaves alone.\<close>

definition same_threads :: "'w srv \<Rightarrow> 'w srv \<Rightarrow> bool" where
  "same_threads v v' \<longleftrightarrow> sv_group v' = sv_group v \<and> sv_stopped v' = sv_stopped v \<and>
     length (sv_threads v') = length (sv_threads v) \<and> has_state v' = has_state v"

lemma on_accept_threads: "on_accept mp t ok v = Inr v' \<Longrightarrow> same_threads v v'"
  by (auto simp: on_accept_def start_accept_def Let_def same_threads_def has_state_def fun_eq_iff
      thread_at_def split: sum.splits if_splits)

lemma parent_calls_threads: "parent_calls t k pc v = Inr v' \<Longrightarrow> same_threads v v'"
  by (auto simp: parent_calls_def same_threads_def close_session_def has_state_def thread_at_def
      fun_eq_iff split: if_splits)

lemma session_step_threads: "session_step mp t k se v = Inr v' \<Longrightarrow> same_threads v v'"
  by (erule session_step_cases)
    (auto simp: same_threads_def dest!: parent_calls_threads)

lemma threads_inv_cong: "same_threads v v' \<Longrightarrow> threads_inv v \<Longrightarrow> threads_inv v'"
  by (auto simp: same_threads_def threads_inv_def)

lemma stop_server_fields [simp]:
  "sv_sessions (snd (stop_server self v)) = sv_sessions v" "sv_objs (snd (stop_server self v)) = sv_objs v"
  "sv_threads (snd (stop_server self v)) = sv_threads v" "sv_world (snd (stop_server self v)) = sv_world v"
  "sv_stopped (snd (stop_server self v))"
  "has_state (snd (stop_server self v)) = has_state v"
  by (simp_all add: stop_server_def impl_stop_def Let_def prod.case_eq_if has_state_def thread_at_def fun_eq_iff)

lemma stop_server_group:
  "stop_server self v = (fst (join_all (\<lambda>t. has_state v t Finished) self (sv_group v)),
     v\<lparr>sv_stopped := True, sv_group := snd (join_all (\<lambda>t. has_state v t Finished) self (sv_group v))\<rparr>)"
  by (simp add: stop_server_def impl_stop_def Let_def prod.case_eq_if)

lemma stop_threads_inv:
  assumes "threads_inv v" shows "threads_inv (snd (stop_server self v))"
proof -
  let ?g = "sv_group v"
  let ?g' = "snd (join_all (\<lambda>t. has_state v t Finished) self ?g)"
  have ids: "map st_id ?g' = map st_id ?g" by (rule join_all_ids)
  have "has_state v t Finished" if "0 < t" "t < length (sv_threads v)" "t \<notin> unjoined ?g'" for t
    using assms that join_blocked [of t ?g "\<lambda>t. has_state v t Finished" self]
    by (cases "t \<in> unjoined ?g") (auto simp: threads_inv_def)
  then show ?thesis using assms ids by (simp add: threads_inv_def stop_server_group)
qed

lemma async_run_threads_inv:
  assumes "threads_inv v" shows "threads_inv (async_run n v)"
proof -
  let ?m = "length (sv_threads v)"
  have "map st_id (create_threads ?m n (sv_group v)) = map st_id (sv_group v) @ [?m..<?m + n]"
    by (simp add: create_threads_spec comp_def)
  moreover have "Suc 0 \<le> x" if "?m \<le> x" for x
    using assms that by (cases "sv_threads v") (auto simp: threads_inv_def)
  ultimately show ?thesis
    using assms by (auto simp: threads_inv_def async_run_def has_state_def thread_at_def nth_append)
qed

lemma set_state_inv:
  assumes "threads_inv v" and "srv_inv v" and "st = Finished \<or> t = 0 \<or> t \<in> unjoined (sv_group v)"
  shows "srv_inv (set_state t st v) \<and> threads_inv (set_state t st v)"
proof -
  have "sv_threads (set_state t st v) \<noteq> []"
    using assms(1) by (simp add: threads_inv_def set_state_def)
  with assms srv_inv_cong [of "set_state t st v" v] show ?thesis by (auto simp: threads_inv_def)
qed

lemma srv_step_keeps:
  assumes "srv_inv v" and "threads_inv v" and "srv_step mp v e = Inr v'"
  shows "srv_inv v' \<and> threads_inv v'"
proof (cases e)
  case (AcceptDone t ok)
  with assms show ?thesis
    by (auto simp: srv_step_def split: if_splits
        dest: on_accept_inv threads_inv_cong [OF on_accept_threads])
next
  case (SessionStep t k se)
  with assms show ?thesis
    by (auto simp: srv_step_def split: if_splits
        dest: session_step_inv threads_inv_cong [OF session_step_threads])
next
  case StopCalled
  with assms stop_threads_inv [OF assms(2), of 0] show ?thesis
    by (auto simp: srv_step_def srv_inv_cong [of "snd (stop_server 0 v)" v])
next
  case (AsyncRun n)
  with assms async_run_threads_inv [OF assms(2), of n] srv_inv_cong [of "async_run n v" v]
  show ?thesis by (auto simp: srv_step_def async_run_def)
next
  case CloseAllCalled
  with assms close_sessions_inv(1) [OF assms(1)] show ?thesis
    by (auto simp: srv_step_def threads_inv_def split: if_splits)
next
  case (Enter t)
  have "t = 0 \<or> t \<in> unjoined (sv_group v)" if "has_state v t Starting"
    using assms(2) that by (auto simp: threads_inv_def has_state_def)
  with Enter assms set_state_inv [OF assms(2,1)] show ?thesis
    by (auto simp: srv_step_def enter_loop_def split: if_splits)
next
  case RunCalled
  with assms set_state_inv [OF assms(2,1), of _ 0] show ?thesis
    by (auto simp: srv_step_def enter_loop_def split: if_splits)
next
  case (SuppressCalled b)
  have "srv_inv (suppress_exceptions b v) \<and> threads_inv (suppress_exceptions b v)"
    using assms(1,2) srv_inv_cong [of "suppress_exceptions b v" v]
    by (simp add: suppress_exceptions_def threads_inv_def)
  with SuppressCalled assms show ?thesis by (simp add: srv_step_def split: if_splits)
next
  case (Leave t)
  have "srv_inv (v\<lparr>sv_stopped := True\<rparr>) \<and> threads_inv (v\<lparr>sv_stopped := True\<rparr>)"
    using assms(1,2) srv_inv_cong [of "v\<lparr>sv_stopped := True\<rparr>" v] by (simp add: threads_inv_def)
  with Leave assms set_state_inv [of v Finished t] set_state_inv [of "v\<lparr>sv_stopped := True\<rparr>" Finished t]
  show ?thesis by (simp add: srv_step_def leave_loop_def split: if_splits)
qed

definition srv_good :: "srv_fault + 'w srv \<Rightarrow> bool" where
  "srv_good st \<longleftrightarrow> (case st of Inl f \<Rightarrow> True | Inr v \<Rightarrow> srv_inv v \<and> threads_inv v)"

interpretation srv_safe: kept_by_steps "srv_machine mp" srv_good for mp
proof
  fix mp st e
  assume "srv_good st"
  then show "srv_good (srv_machine mp st e)"
    by (cases st; cases "srv_machine mp st e") (auto simp: srv_good_def dest: srv_step_keeps)
qed

lemma serving_with_inv: "srv_inv (serving_with d p w)" "threads_inv (serving_with d p w)"
  by (simp_all add: serving_with_def suppress_exceptions_def Server_new_def impl_new_def
      start_accept_def srv_inv_def threads_inv_def ThreadGroup_new_def)

lemma srv_run_inv:
  "run_events (srv_machine mp) (Inr (serving_with d p w)) es = Inr v \<Longrightarrow> srv_inv v \<and> threads_inv v"
  using srv_safe.run_keeps [of "Inr (serving_with d p w)" mp es] serving_with_inv [of d p w]
  by (simp add: srv_good_def)

text \<open>C30. The list of sessions is right in every reachable state, with any number of worker
  threads: no session is in it twice, every entry is a session that exists, and a session that
  has not been closed is in it. In particular a session leaves the list only after it was
  closed.\<close>

theorem server_registers_open_sessions:
  assumes "run_events (srv_machine mp) (Inr (serving_with d suppress w)) es = Inr v"
  shows "distinct (sv_sessions v) \<and> (\<forall>k \<in> set (sv_sessions v). k < length (sv_objs v)) \<and>
     (\<forall>k < length (sv_objs v). open_sess (sv_objs v ! k) \<longrightarrow> k \<in> set (sv_sessions v))"
  using srv_run_inv [OF assms] by (auto simp: srv_inv_def)

text \<open>C31. Closing all sessions closes all: from any reachable state, close\_sessions empties the
  list and leaves no session of the server open, whichever of them had been closed or had asked
  to be removed before, and whichever thread calls it.\<close>

theorem close_sessions_closes_all:
  assumes "run_events (srv_machine mp) (Inr (serving_with d suppress w)) es = Inr v"
  shows "sv_sessions (close_sessions t v) = [] \<and>
     (\<forall>s \<in> set (sv_objs (close_sessions t v)). is_closed (ss_writer s)) \<and>
     length (sv_objs (close_sessions t v)) = length (sv_objs v)"
  using close_sessions_inv(2) [of v t] srv_run_inv [OF assms]
  by (auto simp: is_closed_def open_sess_def)

subsection \<open>Stopping\<close>

text \<open>The messages a server has put on the wire of each session.\<close>

definition wires :: "'w srv \<Rightarrow> bytes list list" where
  "wires v = map (\<lambda>s. w_wire (ss_writer s)) (sv_objs v)"

lemma wires_close [simp]: "wires (close_sessions t v) = wires v"
proof -
  have "map (\<lambda>s. w_wire (ss_writer s)) (close_all ks os) = map (\<lambda>s. w_wire (ss_writer s)) os" for ks os
  proof (induction ks arbitrary: os)
    case (Cons k ks)
    have "map (\<lambda>s. w_wire (ss_writer s)) (os[k := session_close (os ! k)]) =
        map (\<lambda>s. w_wire (ss_writer s)) os"
      by (cases "k < length os") (simp_all add: map_update list_update_same_conv list_update_beyond)
    with Cons show ?case by simp
  qed simp
  then show ?thesis by (simp add: wires_def)
qed

definition silent :: "'w srv \<Rightarrow> 'w srv \<Rightarrow> bool" where
  "silent v v' \<longleftrightarrow> sv_stopped v' \<and> sv_world v' = sv_world v \<and> wires v' = wires v"

lemma stopped_step:
  assumes "sv_stopped v"
  shows "\<exists>v'. srv_step mp v e = Inr v' \<and> silent v v'"
proof -
  note simps = srv_step_def silent_def assms wires_def async_run_def enter_loop_def leave_loop_def
    suppress_exceptions_def
  show ?thesis
  proof (cases e)
    case CloseAllCalled
    with wires_close [of 0 v] show ?thesis by (auto simp: srv_step_def silent_def assms)
  qed (auto simp: simps)
qed

lemma stopped_run:
  "sv_stopped v \<Longrightarrow> \<exists>v'. run_events (srv_machine mp) (Inr v) es = Inr v' \<and> silent v v'"
proof (induction es arbitrary: v)
  case (Cons e es)
  obtain v1 where "srv_step mp v e = Inr v1" "silent v v1"
    using stopped_step [OF Cons.prems] by blast
  with Cons.IH [of v1] show ?case by (auto simp: silent_def)
qed (auto simp: silent_def)

text \<open>Every worker gets to run once more: it enters the loop if it had not yet, and leaves it.\<close>

definition workers :: "'w srv \<Rightarrow> nat list" where
  "workers v = map st_id (sv_group v)"

definition wind_down :: "nat list \<Rightarrow> srv_event list" where
  "wind_down ts = concat (map (\<lambda>t. [Enter t, Leave t]) ts)"

lemma leave_twice:
  assumes "sv_stopped v" and "t < length (sv_threads v)"
  shows "\<exists>v1. run_events (srv_machine mp) (Inr v) [Enter t, Leave t] = Inr v1 \<and> sv_stopped v1 \<and>
     sv_group v1 = sv_group v \<and> length (sv_threads v1) = length (sv_threads v) \<and>
     (\<forall>u. has_state v u Finished \<or> u = t \<longrightarrow> has_state v1 u Finished)"
proof (cases "th_state (thread_at v t)")
  case Starting
  then have "run_events (srv_machine mp) (Inr v) [Enter t, Leave t] = Inr (set_state t Finished v)"
    using assms by (simp add: srv_step_def enter_loop_def) (simp add: has_state_def)
  with assms show ?thesis by simp
next
  case Running
  then have "run_events (srv_machine mp) (Inr v) [Enter t, Leave t] = Inr (set_state t Finished v)"
    using assms by (simp add: srv_step_def leave_loop_def has_state_def)
  with assms show ?thesis by simp
next
  case Finished
  then have "run_events (srv_machine mp) (Inr v) [Enter t, Leave t] = Inr v"
    by (simp add: srv_step_def has_state_def)
  with assms Finished show ?thesis by (simp add: has_state_def)
qed

lemma wind_down_run:
  "sv_stopped v \<Longrightarrow> \<forall>t \<in> set ts. t < length (sv_threads v) \<Longrightarrow>
     \<exists>v'. run_events (srv_machine mp) (Inr v) (wind_down ts) = Inr v' \<and> sv_stopped v' \<and>
       sv_group v' = sv_group v \<and> length (sv_threads v') = length (sv_threads v) \<and>
       (\<forall>t. has_state v t Finished \<or> t \<in> set ts \<longrightarrow> has_state v' t Finished)"
proof (induction ts arbitrary: v)
  case (Cons t ts)
  obtain v1 where v1: "run_events (srv_machine mp) (Inr v) [Enter t, Leave t] = Inr v1"
      "sv_stopped v1" "sv_group v1 = sv_group v" "length (sv_threads v1) = length (sv_threads v)"
      "\<forall>u. has_state v u Finished \<or> u = t \<longrightarrow> has_state v1 u Finished"
    using leave_twice [of v t mp] Cons.prems by auto
  from Cons.IH [of v1] Cons.prems v1(2,4) obtain v' where
      "run_events (srv_machine mp) (Inr v1) (wind_down ts) = Inr v'" "sv_stopped v'"
      "sv_group v' = sv_group v1" "length (sv_threads v') = length (sv_threads v1)"
      "\<forall>u. has_state v1 u Finished \<or> u \<in> set ts \<longrightarrow> has_state v' u Finished"
    by auto
  with v1 show ?case by (intro exI [of _ v']) (auto simp: wind_down_def)
qed (auto simp: wind_down_def)

text \<open>C10. Stopping a server stops it: from any reachable state, once the application has called
  stop and every worker got to run once more, all threads have finished and the join of the
  same stop call returns with no thread left to join. Nothing the server could still be asked
  to do runs a handler again: whatever happens afterwards, no fault occurs, the application
  state stays as it was when stop was called, and so does the wire of every session.\<close>

theorem stop_joins_workers:
  assumes "run_events (srv_machine mp) (Inr (serving_with d suppress w)) es = Inr v"
    and "has_state v 0 Finished"
  shows "\<exists>v'. run_events (srv_machine mp) (Inr v) (StopCalled # wind_down (workers v) @ [StopCalled]) = Inr v' \<and>
     fst (stop_server 0 v') = Joined \<and> unjoined (sv_group v') = {} \<and>
     (\<forall>t < length (sv_threads v'). has_state v' t Finished) \<and>
     (\<exists>v''. run_events (srv_machine mp) (Inr v') later = Inr v'' \<and>
        sv_world v'' = sv_world v \<and> wires v'' = wires v)"
proof -
  have inv: "threads_inv v" using srv_run_inv [OF assms(1)] by simp
  let ?v1 = "snd (stop_server 0 v)"
  have one: "srv_step mp v StopCalled = Inr ?v1" by (simp add: srv_step_def assms(2))
  have w: "set (workers v) = {1..<length (sv_threads v)}" "workers ?v1 = workers v"
    using inv by (simp_all add: threads_inv_def workers_def stop_server_group join_all_ids)
  obtain v2 where v2: "run_events (srv_machine mp) (Inr ?v1) (wind_down (workers v)) = Inr v2"
      "sv_stopped v2" "sv_group v2 = sv_group ?v1" "length (sv_threads v2) = length (sv_threads v)"
      "\<forall>t. has_state v t Finished \<or> t \<in> set (workers v) \<longrightarrow> has_state v2 t Finished"
    using wind_down_run [of ?v1 "workers v" mp] w(1) by auto
  have fin: "has_state v2 t Finished" if "t < length (sv_threads v2)" for t
    using that v2(4,5) assms(2) w(1) by (cases "t = 0") auto
  let ?v3 = "snd (stop_server 0 v2)"
  have "workers v2 = workers v" using w(2) v2(3) unfolding workers_def by simp
  then have "unjoined (sv_group v2) \<subseteq> {1..<length (sv_threads v2)}"
    using unjoined_ids [of "sv_group v2"] w(1) v2(4) unfolding workers_def by simp
  with fin have "fst (join_all (\<lambda>t. has_state v2 t Finished) 0 (sv_group v2)) = Joined"
    by (auto simp: join_all_joined)
  then have none: "unjoined (sv_group ?v3) = {}"
    by (cases "join_all (\<lambda>t. has_state v2 t Finished) 0 (sv_group v2)")
      (simp add: stop_server_group join_all_unjoined)
  then have "fst (stop_server 0 ?v3) = Joined"
    by (simp add: stop_server_group [of _ ?v3] join_all_again)
  moreover have two: "srv_step mp v2 StopCalled = Inr ?v3"
    using v2(5) assms(2) by (simp add: srv_step_def)
  moreover have "run_events (srv_machine mp) (Inr v) (StopCalled # wind_down (workers v) @ [StopCalled]) = Inr ?v3"
    using v2(1) by (simp add: one two)
  moreover obtain v4 where "run_events (srv_machine mp) (Inr ?v1) (wind_down (workers v) @ [StopCalled] @ later) = Inr v4"
      "silent ?v1 v4"
    using stopped_run [of ?v1 mp "wind_down (workers v) @ [StopCalled] @ later"] by (auto simp del: run_events_append)
  then have "run_events (srv_machine mp) (Inr ?v3) later = Inr v4" "sv_world v4 = sv_world v" "wires v4 = wires v"
    using v2(1) by (simp_all add: two) (simp_all add: silent_def wires_def)
  ultimately show ?thesis
    using none fin by (intro exI [of _ ?v3]) (auto simp del: run_events.simps run_events_append)
qed

end
