(* ===== verification/SessionWorkers.thy ===== *)
theory SessionWorkers
  imports SessionSpec "HOL-Library.Multiset"
begin

section \<open>A session with any number of workers\<close>

text \<open>
  With several worker threads the jobs of a session are taken in any order. The requests are
  then still served one after the other, in the order they are taken, and everything that
  theory SessionOrder shows of a single worker holds of that order: the proof permutes the
  waiting requests whenever a worker takes one that is not the first.
\<close>

definition same_requests :: "mobj list \<Rightarrow> mobj list \<Rightarrow> bool" where
  "same_requests obs' obs \<longleftrightarrow> mset obs' = mset obs"

definition sendable_in_any_order ::
  "msgpack \<Rightarrow> 'w dispatcher \<Rightarrow> bool \<Rightarrow> 64 word \<Rightarrow> mobj list \<Rightarrow> 'w ctx \<Rightarrow> bool" where
  "sendable_in_any_order mp d p i obs c0 \<longleftrightarrow>
     (\<forall>obs'. same_requests obs' obs \<longrightarrow> sendable mp (answers mp d p i obs' c0))"

definition serving_any ::
  "msgpack \<Rightarrow> 'w dispatcher \<Rightarrow> bool \<Rightarrow> 64 word \<Rightarrow> 'w ctx \<Rightarrow> mobj list \<Rightarrow> bytes \<Rightarrow> sess \<times> 'w ctx \<Rightarrow> bool" where
  "serving_any mp d p i c0 obs unread sc \<longleftrightarrow>
     (\<exists>obs'. same_requests obs' obs \<and> serving mp d p i c0 obs' unread sc)"

lemma same_requests_set: "same_requests obs' obs \<Longrightarrow> set obs' = set obs"
  by (auto simp: same_requests_def dest: mset_eq_setD)

lemma same_requests_packed:
  "same_requests obs' obs \<Longrightarrow> well_packed obs' = well_packed obs"
  "same_requests obs' obs \<Longrightarrow> well_formed_requests mp obs' = well_formed_requests mp obs"
  by (simp_all add: well_packed_def well_formed_requests_def same_requests_set)

text \<open>The job a worker takes can be brought to the front without changing what is known.\<close>

definition pulled :: "nat \<Rightarrow> 'a list \<Rightarrow> 'a list" where
  "pulled k xs = xs ! k # take k xs @ drop (Suc k) xs"

lemma mset_pulled: "k < length xs \<Longrightarrow> mset (pulled k xs) = mset xs"
proof -
  assume "k < length xs"
  then have "mset (take k xs @ xs ! k # drop (Suc k) xs) = mset xs" by (simp flip: id_take_nth_drop)
  then show ?thesis by (simp add: pulled_def)
qed

lemma run_job_pulled:
  "k < length (ss_jobs s) \<Longrightarrow> run_job mp d k s c = run_job mp d 0 (s\<lparr>ss_jobs := pulled k (ss_jobs s)\<rparr>) c"
  by (auto simp: run_job_def pulled_def split: prod.splits sum.splits)

lemma serving_pulled:
  assumes "serving mp d p i c0 obs unread (s, c)" and "k < length (ss_jobs s)"
  shows "\<exists>obs'. same_requests obs' obs \<and>
     serving mp d p i c0 obs' unread (s\<lparr>ss_jobs := pulled k (ss_jobs s)\<rparr>, c)"
proof -
  obtain taken later rs where inv: "obs = taken @ ss_jobs s @ later"
      "ss_reading s \<longrightarrow> u_buf (ss_unpac s) @ unread = stream mp later"
      "serve mp d p i taken c0 = (rs, Some c)" "carries mp rs (ss_writer s)"
      "ss_suppress s = p" "ss_id s = i"
    using assms(1) by (auto simp: serving_def)
  have "same_requests (taken @ pulled k (ss_jobs s) @ later) obs"
    using mset_pulled [OF assms(2)] by (simp add: same_requests_def inv(1))
  moreover have "serving mp d p i c0 (taken @ pulled k (ss_jobs s) @ later) unread
      (s\<lparr>ss_jobs := pulled k (ss_jobs s)\<rparr>, c)"
    using inv(2-6) by (intro servingI [where taken = taken and later = later and rs = rs]) simp_all
  ultimately show ?thesis by blast
qed

lemma serving_any_step:
  assumes "codec_laws mp" and "view_laws mp" and "buffer_laws mp" and "well_packed obs"
    and "sendable_in_any_order mp d p i obs c0"
    and "serving_any mp d p i c0 obs (event_bytes e @ unread) sc" and "sess_step mp d sc e = Inr sc'"
  shows "serving_any mp d p i c0 obs unread sc'"
proof -
  obtain s c where sc: "sc = (s, c)" by (cases sc)
  obtain obs' where obs': "same_requests obs' obs" "serving mp d p i c0 obs' (event_bytes e @ unread) (s, c)"
    using assms(6) sc by (auto simp: serving_any_def)
  show ?thesis
  proof (cases "\<exists>k. e = Job k \<and> k < length (ss_jobs s)")
    case True
    then obtain k where k: "e = Job k" "k < length (ss_jobs s)" by blast
    obtain s' c' where s': "sc' = (s', c')" by (cases sc')
    obtain obs'' where obs'': "same_requests obs'' obs'"
        "serving mp d p i c0 obs'' unread (s\<lparr>ss_jobs := pulled k (ss_jobs s)\<rparr>, c)"
      using serving_pulled [OF _ k(2), of mp d p i c0 obs' unread c] obs'(2) k(1)
      by (auto simp: event_bytes_def)
    have "run_job mp d 0 (s\<lparr>ss_jobs := pulled k (ss_jobs s)\<rparr>) c = Inr (s', c')"
      using assms(7) k sc s' by (simp add: sess_step_def run_job_pulled)
    from serving_job [OF obs''(2) this] obs'' obs'(1) s' show ?thesis
      by (auto simp: serving_any_def same_requests_def)
  next
    case other: False
    then have idle: "e = Job k \<Longrightarrow> sc' = sc" for k
      using assms(7) sc by (auto simp: sess_step_def run_job_def)
    have "serving mp d p i c0 obs' unread sc'"
    proof (cases "single_worker [e]")
      case True
      then show ?thesis
        using obs' assms(1-5,7) sc
        by - (rule serving_step [where obs = obs' and e = e and sc = sc];
          simp add: same_requests_packed sendable_in_any_order_def)
    next
      case False
      then obtain k where "e = Job k" by (auto simp: single_worker_def split: sess_event.splits)
      with idle obs'(2) sc show ?thesis by (simp add: event_bytes_def)
    qed
    with obs'(1) show ?thesis by (auto simp: serving_any_def)
  qed
qed

lemma serving_any_step_total:
  assumes "codec_laws mp" and "view_laws mp" and "buffer_laws mp" and "well_formed_requests mp obs"
    and "sendable_in_any_order mp d True i obs c0"
    and "serving_any mp d True i c0 obs (event_bytes e @ unread) sc"
  shows "\<exists>sc'. sess_step mp d sc e = Inr sc'"
proof -
  obtain obs' where "same_requests obs' obs" "serving mp d True i c0 obs' (event_bytes e @ unread) sc"
    using assms(6) by (auto simp: serving_any_def)
  with assms(1-5) show ?thesis
    by - (rule serving_step_total [where obs = obs'];
      simp add: same_requests_packed sendable_in_any_order_def)
qed

lemma serving_any_run:
  assumes "codec_laws mp" and "view_laws mp" and "buffer_laws mp" and "well_packed obs"
    and "sendable_in_any_order mp d p i obs c0"
  shows "serving_any mp d p i c0 obs (concat (map event_bytes es) @ unread) sc \<Longrightarrow>
     run_events (sess_machine mp d) (Inr sc) es = Inr sc' \<Longrightarrow> serving_any mp d p i c0 obs unread sc'"
proof (induction es arbitrary: sc)
  case (Cons e es)
  show ?case
  proof (cases "sess_step mp d sc e")
    case (Inl f)
    with Cons.prems(2) show ?thesis by simp
  next
    case (Inr sc1)
    have "serving_any mp d p i c0 obs (event_bytes e @ concat (map event_bytes es) @ unread) sc"
      using Cons.prems(1) by simp
    from Cons.IH [OF serving_any_step [OF assms this Inr]] Cons.prems(2) Inr show ?thesis by simp
  qed
qed simp

subsection \<open>Who is answered\<close>

text \<open>The ids of the messages that have the size of a call.\<close>

definition call_id :: "msgpack \<Rightarrow> mobj \<Rightarrow> uint32 list" where
  "call_id mp m = (if mp_array_size mp m = 4
     then (case mp_as_call mp m of None \<Rightarrow> [] | Some (code, i, name, args) \<Rightarrow> [i]) else [])"

definition call_ids :: "msgpack \<Rightarrow> mobj list \<Rightarrow> uint32 list" where
  "call_ids mp obs = concat (map (call_id mp) obs)"

lemma call_ids_mset: "mset (call_ids mp obs) = (\<Sum>m \<in># mset obs. mset (call_id mp m))"
  by (induction obs) (simp_all add: call_ids_def)

lemma call_ids_subset: "mset xs \<subseteq># mset ys \<Longrightarrow> mset (call_ids mp xs) \<subseteq># mset (call_ids mp ys)"
proof -
  assume "mset xs \<subseteq># mset ys"
  then obtain M where "mset ys = mset xs + M" by (metis subset_mset.add_diff_inverse)
  then show ?thesis by (simp add: call_ids_mset)
qed

lemma responses_in_closes: "set ts \<subseteq> {CloseTask, CloseSessionsTask} \<Longrightarrow> responses_in ts = []"
  by (induction ts) (auto simp: responses_in_def)

lemma process_answers_call:
  assumes "process_request mp d p i m c = (Inr ts, c')"
  shows "mset (map r_id (responses_in ts)) \<subseteq># mset (call_id mp m)"
proof -
  obtain rs closes where ts: "ts = map WriteResponse rs @ closes"
      "set closes \<subseteq> {CloseTask, CloseSessionsTask}" "length rs \<le> 1"
      "rs \<noteq> [] \<longleftrightarrow> mp_array_size mp m = 4 \<and> th_resp_enabled (handler c')"
      "\<forall>r \<in> set rs. \<exists>code name args. mp_as_call mp m = Some (code, r_id r, name, args)"
    using answer_shape [OF assms] by blast
  show ?thesis
  proof (cases rs)
    case (Cons r rs')
    with ts(3-5) have "mp_array_size mp m = 4" "rs = [r]"
      "\<exists>code name args. mp_as_call mp m = Some (code, r_id r, name, args)" by auto
    then show ?thesis using ts(1,2) by (auto simp: call_id_def responses_in_closes)
  qed (use ts(1,2) in \<open>simp add: responses_in_closes\<close>)
qed

lemma serve_answers_calls:
  "serve mp d p i ms c = (rs, Some c') \<Longrightarrow> mset (map r_id rs) \<subseteq># mset (call_ids mp ms)"
proof (induction ms arbitrary: c rs)
  case Nil
  then show ?case by simp
next
  case (Cons m ms)
  obtain ts c1 rs' where "process_request mp d p i m c = (Inr ts, c1)"
      "serve mp d p i ms c1 = (rs', Some c')" "rs = responses_in ts @ rs'"
    using Cons.prems by (auto split: prod.splits sum.splits)
  with Cons.IH [of c1 rs'] process_answers_call [of mp d p i m c ts c1] show ?case
    by (simp add: call_ids_def subset_mset.add_mono)
qed

lemma serving_any_started:
  assumes "buffer_laws mp" and "bs @ unread = stream mp obs"
  shows "serving_any mp d p i c0 obs (bs @ unread) ((ServerSession_new mp p i)\<lparr>ss_reading := True\<rparr>, c0)"
  unfolding serving_any_def same_requests_def using serving_started [OF assms] by blast

text \<open>Any number of workers: in every run, whichever job each worker takes next, the requests taken
  so far, those still waiting and those not yet read are together the requests of the stream;
  the taken ones were served one after the other in the order they were taken; and the wire
  carries a prefix of their answers in that order, each answer for a different call of the
  stream. The workers change the order of the answers and nothing else.\<close>

lemma session_any_workers:
  assumes "codec_laws mp" and "view_laws mp" and "buffer_laws mp" and "well_packed obs"
    and "sendable_in_any_order mp d suppress sid obs c0"
    and "concat (map event_bytes es) @ unread = stream mp obs"
    and "run_events (sess_machine mp d) (sess_started mp suppress sid c0) es = Inr (s, c)"
  shows "\<exists>taken later rs. mset obs = mset taken + mset (ss_jobs s) + mset later \<and>
     serve mp d suppress sid taken c0 = (rs, Some c) \<and>
     prefix (w_wire (ss_writer s)) (map (response_data mp) rs) \<and>
     mset (map r_id rs) \<subseteq># mset (call_ids mp obs)"
proof -
  from serving_any_run [OF assms(1-5) serving_any_started [OF assms(3,6)]] assms(7)
  have "serving_any mp d suppress sid c0 obs unread (s, c)"
    by (simp add: sess_started_eq [OF assms(3)])
  then obtain obs' taken later rs where inv: "mset obs' = mset obs" "obs' = taken @ ss_jobs s @ later"
      "serve mp d suppress sid taken c0 = (rs, Some c)" "carries mp rs (ss_writer s)"
    by (auto simp: serving_any_def same_requests_def serving_def)
  have split: "mset obs = mset taken + mset (ss_jobs s) + mset later"
    using inv(1) by (simp add: inv(2) add.assoc)
  then have "mset taken \<subseteq># mset obs" by simp
  from call_ids_subset [OF this, of mp] serve_answers_calls [OF inv(3)]
  have "mset (map r_id rs) \<subseteq># mset (call_ids mp obs)" by (rule subset_mset.order_trans [rotated])
  moreover have "prefix (w_wire (ss_writer s)) (map (response_data mp) rs)"
    using inv(4) by (auto simp: carries_def)
  ultimately show ?thesis using split inv(3) by blast
qed

lemma any_workers_total:
  assumes "codec_laws mp" and "view_laws mp" and "buffer_laws mp" and "well_formed_requests mp obs"
    and "sendable_in_any_order mp d True sid obs c0"
  shows "serving_any mp d True sid c0 obs (concat (map event_bytes es) @ unread) sc \<Longrightarrow>
      \<exists>sc'. run_events (sess_machine mp d) (Inr sc) es = Inr sc'"
proof (induction es arbitrary: sc)
  case (Cons e es)
  have pk: "well_packed obs" using assms(4) by (simp add: well_formed_requests_def well_packed_def)
  have here: "serving_any mp d True sid c0 obs (event_bytes e @ concat (map event_bytes es) @ unread) sc"
    using Cons.prems by simp
  obtain sc1 where sc1: "sess_step mp d sc e = Inr sc1"
    using serving_any_step_total [OF assms here] by blast
  from Cons.IH [OF serving_any_step [OF assms(1-3) pk assms(5) here sc1]] sc1 show ?case by simp
qed simp

lemma any_workers_run:
  assumes "codec_laws mp" and "view_laws mp" and "buffer_laws mp" and "well_formed_requests mp obs"
    and "sendable_in_any_order mp d True sid obs c0"
    and "concat (map event_bytes es) @ unread = stream mp obs"
  shows "\<exists>s c. run_events (sess_machine mp d) (sess_started mp True sid c0) es = Inr (s, c)"
proof -
  from any_workers_total [OF assms(1-5) serving_any_started [OF assms(3,6)]] show ?thesis by (auto simp: sess_started_eq [OF assms(3)])
qed

text \<open>With suppressed exceptions, a session that receives well-formed requests whose answers can be
  packed never faults: every run on any number of workers, with any reads, interleaving, write
  failures and closes, ends in a proper state, whatever the bound functions throw.\<close>

lemma workers_never_crash:
  assumes "codec_laws mp" and "view_laws mp" and "buffer_laws mp" and "well_formed_requests mp obs"
    and "sendable_in_any_order mp d True sid obs c0"
    and "concat (map event_bytes es) @ unread = stream mp obs"
  shows "\<exists>s c. run_events (sess_machine mp d) (sess_started mp True sid c0) es = Inr (s, c)"
  using assms by (rule any_workers_run)

text \<open>For the witnesses: the sample requests, taken in the reverse order by a pool of workers.\<close>

definition sample_pool :: "sess_event list" where
  "sample_pool = map (\<lambda>bs. Read (ReadOk bs)) sample_chunks @
     [Job 2, Job 1, Job 0, Strand, Wrote WriteOk, Strand, Wrote WriteOk]"

lemma answers_Cons:
  "process_request mp d p i m c = (Inr ts, c') \<Longrightarrow>
     answers mp d p i (m # ms) c = responses_in ts @ answers mp d p i ms c'"
  by (simp split: prod.splits)

lemma sample_any_sendable:
  "set obs \<subseteq> set sample_requests \<Longrightarrow> sendable ref_msgpack (answers ref_msgpack sample_disp p i obs c)"
proof (induction obs arbitrary: c)
  case (Cons m ms)
  have four: "fmt_nat 4 = ''4''" by code_simp
  have "sendable ref_msgpack (answers ref_msgpack sample_disp p i ms c')" for c'
    using Cons by simp
  moreover have "m \<in> set sample_requests" using Cons.prems by simp
  then obtain ts c' where "process_request ref_msgpack sample_disp p i m c = (Inr ts, c')"
      "sendable ref_msgpack (responses_in ts)"
    by (auto simp: sample_requests_def sample_served sendable_def packable_response_obj
        not_found_response_def quote_def four)
  ultimately show ?case by (simp only: answers_Cons) (simp add: sendable_def ball_Un)
qed (simp add: sendable_def)

lemma sample_pool_facts:
  "sendable_in_any_order ref_msgpack sample_disp p i sample_requests c"
  "concat (map event_bytes sample_pool) @ [] = stream ref_msgpack sample_requests"
  using sample_stream
  by (auto simp: sendable_in_any_order_def same_requests_set intro!: sample_any_sendable)
    (simp add: sample_pool_def event_bytes_def comp_def)

lemma session_any_workers_witness:
  "\<exists>s c taken later rs. run_events (sess_machine ref_msgpack sample_disp)
       (sess_started ref_msgpack True 1 (fresh_ctx [])) sample_pool = Inr (s, c) \<and>
     mset sample_requests = mset taken + mset (ss_jobs s) + mset later \<and>
     serve ref_msgpack sample_disp True 1 taken (fresh_ctx []) = (rs, Some c) \<and>
     prefix (w_wire (ss_writer s)) (map (response_data ref_msgpack) rs) \<and>
     mset (map r_id rs) \<subseteq># {#7, 8#}"
proof -
  obtain s c where run: "run_events (sess_machine ref_msgpack sample_disp)
       (sess_started ref_msgpack True 1 (fresh_ctx [])) sample_pool = Inr (s, c)"
    using any_workers_run [OF ref_codec_laws ref_view_laws ref_buffer_laws sample_well_formed(1)
        sample_pool_facts] by blast
  have "mset (call_ids ref_msgpack sample_requests) = {#7, 8#}"
    by (simp add: call_ids_def call_id_def sample_requests_def)
  with session_any_workers [OF ref_codec_laws ref_view_laws ref_buffer_laws sample_well_formed(2)
      sample_pool_facts run] run show ?thesis by metis
qed

lemma workers_never_crash_witness:
  "\<exists>s c. run_events (sess_machine ref_msgpack sample_disp)
       (sess_started ref_msgpack True 1 (fresh_ctx [])) sample_pool = Inr (s, c)"
  by (rule workers_never_crash [OF ref_codec_laws ref_view_laws ref_buffer_laws
        sample_well_formed(1) sample_pool_facts])

end
