(* ===== verification/ServerOrder.thy ===== *)
theory ServerOrder
  imports ServerRuns SessionWorkers
begin

section \<open>What a server does for all its clients\<close>

text \<open>
  The abstract specification of a server: requests of any sessions are served one after the
  other, each in a fresh thread-local context and all on the one application state. Every run of
  the server, with any number of sessions and worker threads, is explained by one such sequence:
  the application state is what it leaves, and each wire carries the answers to the requests of
  its own session.
\<close>

subsection \<open>The specification\<close>

text \<open>A served request: the session, its suppress flag and the message.\<close>

type_synonym served = "nat \<times> bool \<times> mobj"

fun serve_all ::
  "msgpack \<Rightarrow> 'w dispatcher \<Rightarrow> served list \<Rightarrow> 'w \<Rightarrow> (nat \<times> response) list \<times> 'w option" where
  "serve_all mp d [] w = ([], Some w)"
| "serve_all mp d ((k, p, m) # hs) w =
     (case process_request mp d p (of_nat k) m (fresh_ctx w) of
        (Inl x, c) \<Rightarrow> ([], None)
      | (Inr ts, c) \<Rightarrow> (case serve_all mp d hs (world c) of
          (as, end_w) \<Rightarrow> (map (Pair k) (responses_in ts) @ as, end_w)))"

definition requests_of :: "nat \<Rightarrow> served list \<Rightarrow> mobj list" where
  "requests_of k hs = map (snd \<circ> snd) (filter (\<lambda>h. fst h = k) hs)"

definition answers_for :: "nat \<Rightarrow> (nat \<times> response) list \<Rightarrow> response list" where
  "answers_for k as = map snd (filter (\<lambda>a. fst a = k) as)"

lemma requests_of_simps [simp]:
  "requests_of k [] = []" "requests_of k (hs @ gs) = requests_of k hs @ requests_of k gs"
  "requests_of k ((j, p, m) # hs) = (if j = k then m # requests_of k hs else requests_of k hs)"
  by (simp_all add: requests_of_def)

lemma answers_for_simps [simp]:
  "answers_for k [] = []" "answers_for k (as @ bs) = answers_for k as @ answers_for k bs"
  "answers_for k (map (Pair j) rs) = (if j = k then rs else [])"
  by (simp_all add: answers_for_def filter_map comp_def)

lemma serve_all_append:
  "serve_all mp d hs w = (as, Some w') \<Longrightarrow>
     serve_all mp d (hs @ gs) w = (as @ fst (serve_all mp d gs w'), snd (serve_all mp d gs w'))"
  by (induction hs arbitrary: w as) (auto split: prod.splits sum.splits simp: prod_eq_iff)

lemma serve_all_sessions:
  "serve_all mp d hs w = (as, w') \<Longrightarrow> fst ` set as \<subseteq> fst ` set hs"
proof (induction hs arbitrary: w as w')
  case (Cons h hs)
  obtain k p m where h: "h = (k, p, m)" by (cases h)
  show ?case
  proof (cases "process_request mp d p (of_nat k) m (fresh_ctx w)")
    case (Pair r c)
    obtain bs w'' where rest: "serve_all mp d hs (world c) = (bs, w'')" by fastforce
    from Cons.IH [OF rest] Cons.prems show ?thesis
      by (cases r) (fastforce simp: h Pair rest)+
  qed
qed simp

lemma answers_for_other:
  "serve_all mp d hs w = (as, w') \<Longrightarrow> k \<notin> fst ` set hs \<Longrightarrow> answers_for k as = []"
  by (auto simp: answers_for_def filter_empty_conv dest!: serve_all_sessions)

lemma requests_of_other: "k \<notin> fst ` set hs \<Longrightarrow> requests_of k hs = []"
  by (auto simp: requests_of_def filter_empty_conv)

text \<open>Each answer goes to the session that asked, with the id of one of its calls.\<close>

lemma answers_for_calls:
  "serve_all mp d hs w = (as, Some w') \<Longrightarrow>
     mset (map r_id (answers_for k as)) \<subseteq># mset (call_ids mp (requests_of k hs))"
proof (induction hs arbitrary: w as)
  case (Cons h hs)
  obtain j p m where h: "h = (j, p, m)" by (cases h)
  obtain ts c as' where step: "process_request mp d p (of_nat j) m (fresh_ctx w) = (Inr ts, c)"
      "serve_all mp d hs (world c) = (as', Some w')" "as = map (Pair j) (responses_in ts) @ as'"
    using Cons.prems unfolding h by (auto split: prod.splits sum.splits)
  note IH = Cons.IH [OF step(2)]
  show ?case
  proof (cases "j = k")
    case True
    from subset_mset.add_mono [OF process_answers_call [OF step(1)] IH] True show ?thesis
      by (simp add: h step(3) call_ids_def)
  qed (use IH in \<open>simp add: h step(3)\<close>)
qed simp

text \<open>
  What the functions promise: as long as the application state satisfies \<open>P\<close>, serving a request
  of one of the streams keeps it so, and the answer can be packed.
\<close>

definition answers_fit ::
  "msgpack \<Rightarrow> 'w dispatcher \<Rightarrow> ('w \<Rightarrow> bool) \<Rightarrow> (nat \<Rightarrow> mobj list) \<Rightarrow> bool" where
  "answers_fit mp d P obs \<longleftrightarrow> (\<forall>k. \<forall>m \<in> set (obs k). \<forall>p sid w ts c. P w \<longrightarrow>
     process_request mp d p sid m (fresh_ctx w) = (Inr ts, c) \<longrightarrow>
     sendable mp (responses_in ts) \<and> P (world c))"

subsection \<open>The invariant\<close>

text \<open>The bytes the network delivers to session \<open>k\<close> in one event and in a run.\<close>

definition bytes_read :: "nat \<Rightarrow> 'w srv \<Rightarrow> srv_event \<Rightarrow> bytes" where
  "bytes_read k v e = (case e of
       SessionStep t j se \<Rightarrow>
         if j = k \<and> has_state v t Running \<and> \<not> sv_stopped v \<and> k < length (sv_objs v)
         then event_bytes se else []
     | _ \<Rightarrow> [])"

fun delivered :: "msgpack \<Rightarrow> nat \<Rightarrow> srv_fault + 'w srv \<Rightarrow> srv_event list \<Rightarrow> bytes" where
  "delivered mp k st [] = []"
| "delivered mp k st (e # es) =
     (case st of Inl f \<Rightarrow> [] | Inr v \<Rightarrow> bytes_read k v e @ delivered mp k (srv_step mp v e) es)"

text \<open>One session against the requests served so far and their answers.\<close>

definition accounted ::
  "msgpack \<Rightarrow> mobj list \<Rightarrow> bytes \<Rightarrow> served list \<Rightarrow> (nat \<times> response) list \<Rightarrow> nat \<Rightarrow> sess \<Rightarrow> bool" where
  "accounted mp obs unread hist as k s \<longleftrightarrow>
     ss_id s = of_nat k \<and> (\<forall>p m. (k, p, m) \<in> set hist \<longrightarrow> p = ss_suppress s) \<and>
     (\<exists>later. mset obs = mset (requests_of k hist) + mset (ss_jobs s) + mset later \<and>
        (ss_reading s \<longrightarrow> u_buf (ss_unpac s) @ unread = stream mp later)) \<and>
     carries mp (answers_for k as) (ss_writer s)"

text \<open>
  The sessions of a server against a sequence of requests and answers: what the sequence is, \<open>Q\<close>
  says. All that happens in a server but the service of requests keeps this.
\<close>

definition tracked ::
  "(served list \<Rightarrow> (nat \<times> response) list \<Rightarrow> bool) \<Rightarrow> msgpack \<Rightarrow> 'w dispatcher \<Rightarrow> (nat \<Rightarrow> mobj list) \<Rightarrow>
     (nat \<Rightarrow> bytes) \<Rightarrow> 'w srv \<Rightarrow> bool" where
  "tracked Q mp d obs unread v \<longleftrightarrow>
     sv_disp v = d \<and> sv_parent v = sv_owner v \<and> sv_disp_null v = [] \<and>
     (\<forall>k \<ge> length (sv_objs v). unread k = stream mp (obs k)) \<and>
     (\<exists>hist as. Q hist as \<and> sendable mp (map snd as) \<and>
        (\<forall>h \<in> set hist. fst h < length (sv_objs v)) \<and> (\<forall>a \<in> set as. fst a < length (sv_objs v)) \<and>
        (\<forall>k < length (sv_objs v). accounted mp (obs k) (unread k) hist as k (sv_objs v ! k)))"

definition explained ::
  "msgpack \<Rightarrow> 'w dispatcher \<Rightarrow> ('w \<Rightarrow> bool) \<Rightarrow> (nat \<Rightarrow> mobj list) \<Rightarrow> 'w \<Rightarrow> (nat \<Rightarrow> bytes) \<Rightarrow> 'w srv \<Rightarrow> bool" where
  "explained mp d P obs w0 unread v \<longleftrightarrow>
     sv_disp v = d \<and> sv_parent v = sv_owner v \<and> sv_disp_null v = [] \<and> P (sv_world v) \<and>
     (\<forall>k \<ge> length (sv_objs v). unread k = stream mp (obs k)) \<and>
     (\<exists>hist as. serve_all mp d hist w0 = (as, Some (sv_world v)) \<and> sendable mp (map snd as) \<and>
        (\<forall>h \<in> set hist. fst h < length (sv_objs v)) \<and>
        (\<forall>k < length (sv_objs v). accounted mp (obs k) (unread k) hist as k (sv_objs v ! k)))"

lemma explained_tracked:
  "explained mp d P obs w0 unread v \<longleftrightarrow> P (sv_world v) \<and>
     tracked (\<lambda>hist as. serve_all mp d hist w0 = (as, Some (sv_world v))) mp d obs unread v"
proof -
  have "\<forall>a \<in> set as. fst a < n" if "serve_all mp d hist w0 = (as, r)" "\<forall>h \<in> set hist. fst h < n"
    for hist and as :: "(nat \<times> response) list" and r n
    using serve_all_sessions [OF that(1)] that(2) by fastforce
  then show ?thesis unfolding explained_def tracked_def by blast
qed

lemma tracked_cong:
  "tracked Q mp d obs unread v \<Longrightarrow> sv_disp v' = sv_disp v \<Longrightarrow> sv_parent v' = sv_parent v \<Longrightarrow>
     sv_owner v' = sv_owner v \<Longrightarrow> sv_disp_null v' = sv_disp_null v \<Longrightarrow> sv_objs v' = sv_objs v \<Longrightarrow>
     tracked Q mp d obs unread v'"
  by (simp add: tracked_def)

lemma answers_for_sendable: "sendable mp (map snd as) \<Longrightarrow> sendable mp (answers_for k as)"
  by (auto simp: sendable_def answers_for_def)

text \<open>A step that changes one session, and nothing of what was served.\<close>

lemma tracked_session:
  assumes "tracked Q mp d obs pre v" and "k < length (sv_objs v)"
    and "\<And>j. j \<noteq> k \<Longrightarrow> pre j = post j"
    and "\<And>hist as. accounted mp (obs k) (pre k) hist as k (sv_objs v ! k) \<Longrightarrow>
      sendable mp (answers_for k as) \<Longrightarrow> accounted mp (obs k) (post k) hist as k s"
  shows "tracked Q mp d obs post (v\<lparr>sv_objs := (sv_objs v)[k := s]\<rparr>)"
proof -
  obtain hist as where h: "Q hist as" "sendable mp (map snd as)"
      "\<forall>h \<in> set hist. fst h < length (sv_objs v)" "\<forall>a \<in> set as. fst a < length (sv_objs v)"
      "\<forall>k < length (sv_objs v). accounted mp (obs k) (pre k) hist as k (sv_objs v ! k)"
    using assms(1) unfolding tracked_def by blast
  have "accounted mp (obs j) (post j) hist as j ((sv_objs v)[k := s] ! j)" if "j < length (sv_objs v)" for j
    using that h(5) assms(2,3) assms(4) [OF _ answers_for_sendable [OF h(2)]]
    by (cases "j = k") auto
  moreover have "\<forall>j \<ge> length (sv_objs v). post j = stream mp (obs j)"
    using assms(1-3) by (auto simp: tracked_def)
  ultimately show ?thesis
    using assms(1) h(1-4) unfolding tracked_def by auto
qed

lemma accounted_close: "accounted mp obs un hist as k s \<Longrightarrow> accounted mp obs un hist as k (session_close s)"
  by (simp add: accounted_def)

lemma close_all_keeps:
  assumes "\<And>s. A s \<Longrightarrow> A (session_close s)" and "k < length objs" and "A (objs ! k)"
  shows "A (close_all copy objs ! k)"
  using assms(2,3)
proof (induction copy arbitrary: objs)
  case (Cons j copy)
  have "A (objs[j := session_close (objs ! j)] ! k)"
    using Cons.prems assms(1) by (cases "j = k") auto
  with Cons show ?case by simp
qed simp

lemma tracked_close_sessions:
  assumes "tracked Q mp d obs unread v"
  shows "tracked Q mp d obs unread (close_sessions t v)"
proof -
  have "accounted mp (obs k) (unread k) hist as k (close_all ks (sv_objs v) ! k)"
    if "accounted mp (obs k) (unread k) hist as k (sv_objs v ! k)" "k < length (sv_objs v)" for hist as k ks
    using close_all_keeps [of "accounted mp (obs k) (unread k) hist as k", OF accounted_close that(2,1)] .
  with assms show ?thesis unfolding tracked_def by simp blast
qed

subsection \<open>Every step is explained\<close>

lemma explained_read:
  assumes laws: "codec_laws mp" "buffer_laws mp" "well_packed obs"
    and acc: "accounted mp obs (event_bytes (Read rr) @ unread) hist as k s" and "ss_reading s"
  shows "\<exists>s'. session_on_read mp rr s = Inr s' \<and> accounted mp obs unread hist as k s'"
proof -
  obtain later where later: "mset obs = mset (requests_of k hist) + mset (ss_jobs s) + mset later"
      "u_buf (ss_unpac s) @ event_bytes (Read rr) @ unread = stream mp later"
    using acc assms(5) by (auto simp: accounted_def)
  have "set later \<subseteq> set obs" using later(1) by (metis mset_subset_eq_add_right set_mset_mono set_mset_mset)
  then have "well_packed later" using laws(3) by (auto simp: well_packed_def)
  from on_read_rest [OF laws(1,2) this later(2)] obtain s' ds es where
      step: "session_on_read mp rr s = Inr s'" "later = ds @ es" "ss_jobs s' = ss_jobs s @ ds"
      "ss_reading s' \<longrightarrow> u_buf (ss_unpac s') @ unread = stream mp es"
      "\<forall>rs. carries mp rs (ss_writer s) \<longrightarrow> carries mp rs (ss_writer s')"
      "ss_suppress s' = ss_suppress s" "ss_id s' = ss_id s"
    by blast
  have "mset obs = mset (requests_of k hist) + mset (ss_jobs s') + mset es"
    using later(1) step(2,3) by simp
  with acc step show ?thesis by (auto simp: accounted_def)
qed

lemma explained_job:
  assumes fit: "answers_fit mp d P obs" and inv: "explained mp d P obs w0 unread v"
    and k: "k < length (sv_objs v)" "i < length (ss_jobs (sv_objs v ! k))"
    and proc: "process_request mp d (ss_suppress (sv_objs v ! k)) (ss_id (sv_objs v ! k))
      (ss_jobs (sv_objs v ! k) ! i) c = (Inr ts, c')" and world: "world c = sv_world v"
    and objs: "sv_objs v' = (sv_objs v)[k := post_tasks ts ((sv_objs v ! k)\<lparr>ss_jobs :=
      take i (ss_jobs (sv_objs v ! k)) @ drop (Suc i) (ss_jobs (sv_objs v ! k))\<rparr>)]"
    and rest: "sv_world v' = world c'" "sv_disp v' = sv_disp v" "sv_parent v' = sv_parent v"
      "sv_owner v' = sv_owner v" "sv_disp_null v' = sv_disp_null v"
  shows "explained mp d P obs w0 unread v'"
proof -
  define s where "s = sv_objs v ! k"
  obtain hist as where h: "serve_all mp d hist w0 = (as, Some (sv_world v))" "sendable mp (map snd as)"
      "\<forall>h \<in> set hist. fst h < length (sv_objs v)"
      "\<forall>k < length (sv_objs v). accounted mp (obs k) (unread k) hist as k (sv_objs v ! k)"
    using inv by (auto simp: explained_def)
  let ?m = "ss_jobs s ! i" and ?js = "take i (ss_jobs s) @ drop (Suc i) (ss_jobs s)"
  have acc: "accounted mp (obs k) (unread k) hist as k s" using h(4) k(1) by (simp add: s_def)
  have jobs: "mset (ss_jobs s) = add_mset ?m (mset ?js)"
  proof -
    have "mset (ss_jobs s) = mset (take i (ss_jobs s) @ ?m # drop (Suc i) (ss_jobs s))"
      using k(2) by (simp add: s_def flip: id_take_nth_drop)
    then show ?thesis by simp
  qed
  have mine: "?m \<in> set (obs k)"
  proof -
    obtain later where "mset (obs k) = mset (requests_of k hist) + mset (ss_jobs s) + mset later"
      using acc by (auto simp: accounted_def)
    then have "?m \<in># mset (obs k)" using jobs by simp
    then show ?thesis by simp
  qed
  have sid: "ss_id s = of_nat k" using acc by (simp add: accounted_def)
  have p: "process_request mp d (ss_suppress s) (of_nat k) ?m (fresh_ctx (sv_world v)) = (Inr ts, c')"
    using proc request_isolation [of mp d "ss_suppress s" "ss_id s" ?m c] sid
    by (simp add: world s_def)
  have fits: "sendable mp (responses_in ts)" "P (world c')"
    using fit mine inv p by (auto simp: answers_fit_def explained_def)
  let ?hist = "hist @ [(k, ss_suppress s, ?m)]" and ?as = "as @ map (Pair k) (responses_in ts)"
  have served: "serve_all mp d ?hist w0 = (?as, Some (world c'))"
    using serve_all_append [OF h(1), of "[(k, ss_suppress s, ?m)]"] p by simp
  have "accounted mp (obs k) (unread k) ?hist ?as k (post_tasks ts (s\<lparr>ss_jobs := ?js\<rparr>))"
    using acc jobs carries_post [of mp "answers_for k as" "ss_writer s" ts]
    by (auto simp: accounted_def)
  moreover have "accounted mp (obs j) (unread j) ?hist ?as j (sv_objs v ! j)"
    if "j < length (sv_objs v)" "j \<noteq> k" for j
    using h(4) that by (auto simp: accounted_def)
  ultimately have "accounted mp (obs j) (unread j) ?hist ?as j (sv_objs v' ! j)"
    if "j < length (sv_objs v)" for j
    using that objs k(1) by (cases "j = k") (auto simp: s_def)
  moreover have "sendable mp (map snd ?as)" using h(2) fits(1) by (auto simp: sendable_def)
  moreover have "\<forall>h \<in> set ?hist. fst h < length (sv_objs v')" using h(3) k(1) objs by simp
  ultimately show ?thesis
    using inv served fits(2) rest objs unfolding explained_def
    by (intro conjI exI [of _ ?hist] exI [of _ ?as]) auto
qed

text \<open>Handlers of a session that serve no request.\<close>

lemma explained_own_step:
  assumes laws: "codec_laws mp" "view_laws mp" "buffer_laws mp" "well_packed obs"
    and acc: "accounted mp obs (event_bytes se @ unread) hist as k s" "sendable mp (answers_for k as)"
    and step: "sess_step mp d (s, c) se = Inr (s', c')" "\<And>i. se = Job i \<Longrightarrow> length (ss_jobs s) \<le> i"
  shows "accounted mp obs unread hist as k s' \<and> c' = c"
proof (cases se)
  case (Read rr)
  show ?thesis
  proof (cases "ss_reading s")
    case True
    from explained_read [OF laws(1,3,4) _ True] acc(1) Read obtain s1 where
        "session_on_read mp rr s = Inr s1" "accounted mp obs unread hist as k s1" by blast
    with step(1) True Read show ?thesis by (simp add: sess_step_def)
  qed (use acc(1) step(1) Read in \<open>auto simp: sess_step_def accounted_def\<close>)
next
  case (Job i)
  with acc(1) step show ?thesis by (auto simp: sess_step_def run_job_def event_bytes_def)
next
  case Strand
  then obtain pc where "run_strand mp s = Inr (s', pc)" "c' = c"
    using step(1) by (auto simp: sess_step_def map_sum_def split: sum.splits)
  with acc(1) Strand run_strand_frames [of mp s s' pc] strand_carries [of mp s s' pc "answers_for k as"]
  show ?thesis by (auto simp: accounted_def event_bytes_def)
next
  case (Wrote ec)
  then have w: "session_on_write mp ec s = Inr s'" "c' = c"
    using step(1) by (auto simp: sess_step_def map_sum_def split: sum.splits)
  have "carries mp (answers_for k as) (ss_writer s)" using acc(1) by (simp add: accounted_def)
  note on_write = on_write_carries [OF w(1) this laws(1,2) acc(2)]
  have "accounted mp obs unread hist as k (s\<lparr>ss_writer := ss_writer s'\<rparr>)"
    using acc(1) on_write(1) Wrote by (simp add: accounted_def event_bytes_def)
  with on_write(2) w(2) show ?thesis by simp
next
  case CloseRequested
  with acc(1) step(1) accounted_close [of mp obs unread hist as k s] show ?thesis
    by (auto simp: sess_step_def event_bytes_def)
qed

lemma parent_calls_tracked:
  assumes "tracked Q mp d obs unread v" and "parent_calls t k pc v = Inr v'"
  shows "tracked Q mp d obs unread v' \<and> sv_world v' = sv_world v"
proof (cases pc)
  case CallCloseSession
  with assms have "v' = close_session k v"
    by (auto simp: parent_calls_def split: if_splits)
  then show ?thesis by (auto intro: tracked_cong [OF assms(1)] simp: close_session_def)
next
  case CallCloseSessions
  with assms tracked_close_sessions [OF assms(1), of t] show ?thesis
    by (auto simp: parent_calls_def split: if_splits)
qed (use assms in \<open>simp add: parent_calls_def\<close>)

lemma session_step_tracked:
  assumes laws: "codec_laws mp" "view_laws mp" "buffer_laws mp" "\<forall>k. well_packed (obs k)"
    and k: "k < length (sv_objs v)"
    and inv: "tracked Q mp d obs (\<lambda>j. (if j = k then event_bytes se else []) @ unread j) v"
    and idle: "\<And>i. se = Job i \<Longrightarrow> length (ss_jobs (sv_objs v ! k)) \<le> i"
    and step: "session_step mp t k se v = Inr v'"
  shows "tracked Q mp d obs unread v' \<and> sv_world v' = sv_world v"
  using step
proof (cases rule: session_step_cases)
  case closing
  with inv show ?thesis by (simp add: event_bytes_def cong: if_cong)
next
  case (strand s pc)
  have "tracked Q mp d obs unread (v\<lparr>sv_objs := (sv_objs v)[k := s]\<rparr>)"
  proof (rule tracked_session [OF inv k])
    fix hist as
    assume acc: "accounted mp (obs k) ((if k = k then event_bytes se else []) @ unread k) hist as k (sv_objs v ! k)"
    then show "accounted mp (obs k) (unread k) hist as k s"
      using strand(1) run_strand_frames [OF strand(2)] strand_carries [OF strand(2)]
      by (auto simp: accounted_def event_bytes_def)
  qed simp
  from parent_calls_tracked [OF this strand(3)] show ?thesis by simp
next
  case (own s c)
  have own': "accounted mp (obs k) (unread k) hist as k s \<and> c = in_thread v t"
    if "accounted mp (obs k) (event_bytes se @ unread k) hist as k (sv_objs v ! k)"
      "sendable mp (answers_for k as)" for hist as
    using explained_own_step [OF laws(1-3) _ that own(3)] laws(4) idle by auto
  have "tracked Q mp d obs unread (v\<lparr>sv_objs := (sv_objs v)[k := s]\<rparr>)"
    by (rule tracked_session [OF inv k]) (use own' in simp_all)
  moreover have "c = in_thread v t"
  proof -
    obtain hist as where "sendable mp (map snd as)"
        "accounted mp (obs k) (event_bytes se @ unread k) hist as k (sv_objs v ! k)"
      using inv k by (auto simp: tracked_def)
    with own' answers_for_sendable show ?thesis by blast
  qed
  moreover have "world (in_thread v t) = sv_world v" by (simp add: in_thread_def Let_def)
  ultimately show ?thesis
    unfolding own(4) by (auto intro: tracked_cong simp: leave_ctx_def)
qed

lemma session_step_explained:
  assumes laws: "codec_laws mp" "view_laws mp" "buffer_laws mp" "\<forall>k. well_packed (obs k)"
    and fit: "answers_fit mp d P obs" and k: "k < length (sv_objs v)"
    and inv: "explained mp d P obs w0 (\<lambda>j. (if j = k then event_bytes se else []) @ unread j) v"
    and step: "session_step mp t k se v = Inr v'"
  shows "explained mp d P obs w0 unread v'"
proof (cases "\<exists>i. se = Job i \<and> i < length (ss_jobs (sv_objs v ! k))")
  case True
  then obtain i where i: "se = Job i" "i < length (ss_jobs (sv_objs v ! k))" by blast
  have inv': "explained mp d P obs w0 unread v" using inv by (simp add: i(1) event_bytes_def cong: if_cong)
  have d: "sv_disp v = d" using inv by (simp add: explained_def)
  have world: "world (in_thread v t) = sv_world v" by (simp add: in_thread_def Let_def)
  show ?thesis
    using step
  proof (cases rule: session_step_cases)
    case (own s c)
    obtain ts where ts: "process_request mp d (ss_suppress (sv_objs v ! k)) (ss_id (sv_objs v ! k))
          (ss_jobs (sv_objs v ! k) ! i) (in_thread v t) = (Inr ts, c)"
        "s = post_tasks ts ((sv_objs v ! k)\<lparr>ss_jobs :=
          take i (ss_jobs (sv_objs v ! k)) @ drop (Suc i) (ss_jobs (sv_objs v ! k))\<rparr>)"
      using own(3) i d by (auto simp: sess_step_def run_job_def split: prod.splits sum.splits)
    show ?thesis
      by (rule explained_job [OF fit inv' k i(2) ts(1) world])
        (simp_all add: own(4) leave_ctx_def ts(2))
  qed (simp_all add: i(1))
next
  case False
  have idle: "length (ss_jobs (sv_objs v ! k)) \<le> i" if "se = Job i" for i
    using that False by (simp add: not_less)
  have tr: "P (sv_world v)" "tracked (\<lambda>hist as. serve_all mp d hist w0 = (as, Some (sv_world v))) mp d obs
      (\<lambda>j. (if j = k then event_bytes se else []) @ unread j) v"
    using inv by (simp_all add: explained_tracked)
  from session_step_tracked [OF laws k tr(2) _ step] idle tr(1) show ?thesis by (simp add: explained_tracked)
qed

lemma on_accept_tracked:
  assumes "buffer_laws mp" and "tracked Q mp d obs unread v" and "on_accept mp t ok v = Inr v'"
  shows "tracked Q mp d obs unread v' \<and> sv_world v' = sv_world v"
proof (cases ok)
  case True
  let ?s = "(ServerSession_new mp (sv_suppress v) (of_nat (length (sv_objs v))))\<lparr>ss_reading := True\<rparr>"
  have start: "session_start (ServerSession_new mp (sv_suppress v) (of_nat (length (sv_objs v)))) = Inr ?s"
    using unpacker_new_cap [OF assms(1)]
    by (simp add: session_start_def session_do_read_def start_read_def ServerSession_new_def)
  obtain hist as where h: "Q hist as" "sendable mp (map snd as)"
      "\<forall>h \<in> set hist. fst h < length (sv_objs v)" "\<forall>a \<in> set as. fst a < length (sv_objs v)"
      "\<forall>k < length (sv_objs v). accounted mp (obs k) (unread k) hist as k (sv_objs v ! k)"
    using assms(2) unfolding tracked_def by blast
  let ?n = "length (sv_objs v)"
  have none: "?n \<notin> fst ` set hist" "answers_for ?n as = []"
    using h(3,4) by (auto simp: answers_for_def filter_empty_conv)
  have "unread ?n = stream mp (obs ?n)" using assms(2) by (simp add: tracked_def)
  moreover have "(?n, p, m) \<notin> set hist" for p m using h(3) by auto
  moreover have "carries mp [] (ss_writer ?s)"
    by (simp add: carries_def writer_inv_def ServerSession_new_def AsyncWriter_new_def)
  ultimately have "accounted mp (obs ?n) (unread ?n) hist as ?n ?s"
    using requests_of_other [OF none(1)] none(2)
    by (auto simp: accounted_def ServerSession_new_def)
  then have all: "accounted mp (obs k) (unread k) hist as k ((sv_objs v @ [?s]) ! k)"
    if "k < Suc ?n" for k
    using that h(5) by (auto simp: nth_append less_Suc_eq)
  have objs: "sv_objs v' = sv_objs v @ [?s]" and rest: "sv_disp v' = sv_disp v" "sv_parent v' = sv_parent v"
      "sv_owner v' = sv_owner v" "sv_world v' = sv_world v" "sv_disp_null v' = []"
    using assms(2,3) True start
    by (auto simp: on_accept_def start_accept_def Let_def tracked_def split: if_splits)
  have "tracked Q mp d obs unread v'"
    using assms(2) h(1-4) all unfolding tracked_def objs rest
    by (intro conjI exI [of _ hist] exI [of _ as]) (auto intro: less_SucI)
  with rest(4) show ?thesis by simp
next
  case False
  with assms(3) show ?thesis
    by (auto intro!: tracked_cong [OF assms(2)] simp: on_accept_def start_accept_def Let_def split: if_splits)
qed

end
