(* ===== verification/ServerSpec.thy ===== *)
theory ServerSpec
  imports ServerRuns
begin

section \<open>Stop requests, moved servers\<close>

subsection \<open>Sample runs\<close>

text \<open>For the witnesses: two workers accept a session each, the first session disconnects and is
  removed by the other worker.\<close>

definition sample_accepts :: "srv_event list" where
  "sample_accepts = [AsyncRun 2, Enter 1, Enter 2, AcceptDone 1 True, AcceptDone 2 True,
     SessionStep 1 0 (Read ReadEof), SessionStep 2 0 Strand, SessionStep 1 0 Strand]"

lemma new_unpacker_room: "\<not> u_cap (unpacker_new ref_msgpack) < max_read_bytes"
  by (simp add: unpacker_new_cap not_less)

lemmas sample_server_simps =
  serving_with_def Server_new_def ServerSession_new_def AsyncWriter_new_def sess_step_def
  fresh_ctx_def stopping_def handler_defs new_unpacker_room Let_def

lemma sample_server_run:
  "\<exists>v. run_events (srv_machine ref_msgpack) (Inr (serving_with sample_disp True [])) sample_accepts = Inr v \<and>
     sv_sessions v = [1] \<and> length (sv_objs v) = 2 \<and> has_state v 0 Finished \<and> workers v = [1, 2]"
  by (simp add: sample_accepts_def sample_server_simps workers_def eval_nat_numeral)

theorem server_registers_open_sessions_witness:
  "\<exists>v. run_events (srv_machine ref_msgpack) (Inr (serving_with sample_disp True [])) sample_accepts = Inr v \<and>
     sv_sessions v = [1] \<and> distinct (sv_sessions v) \<and> \<not> open_sess (sv_objs v ! 0)"
proof -
  obtain v where v: "run_events (srv_machine ref_msgpack) (Inr (serving_with sample_disp True [])) sample_accepts = Inr v"
      "sv_sessions v = [1]" "length (sv_objs v) = 2"
    using sample_server_run by blast
  from server_registers_open_sessions [OF v(1)] v have "\<not> open_sess (sv_objs v ! 0)" by fastforce
  with server_registers_open_sessions [OF v(1)] v show ?thesis by auto
qed

theorem close_sessions_closes_all_witness:
  "\<exists>v. run_events (srv_machine ref_msgpack) (Inr (serving_with sample_disp True [])) sample_accepts = Inr v \<and>
     sv_sessions v = [1] \<and> sv_sessions (close_sessions 0 v) = [] \<and>
     length (sv_objs (close_sessions 0 v)) = 2 \<and> is_closed (ss_writer (sv_objs (close_sessions 0 v) ! 1))"
proof -
  obtain v where v: "run_events (srv_machine ref_msgpack) (Inr (serving_with sample_disp True [])) sample_accepts = Inr v"
      "sv_sessions v = [1]" "length (sv_objs v) = 2"
    using sample_server_run by blast
  note closed = close_sessions_closes_all [OF v(1), of 0]
  then have "sv_objs (close_sessions 0 v) ! 1 \<in> set (sv_objs (close_sessions 0 v))"
    using v(3) by (intro nth_mem) (simp only:)
  with closed v show ?thesis by (auto simp del: close_sessions_fields)
qed

theorem stop_joins_workers_witness:
  "\<exists>v v'. run_events (srv_machine ref_msgpack) (Inr (serving_with sample_disp True [])) sample_accepts = Inr v \<and>
     workers v = [1, 2] \<and>
     run_events (srv_machine ref_msgpack) (Inr v) (StopCalled # wind_down [1, 2] @ [StopCalled]) = Inr v' \<and>
     unjoined (sv_group v') = {} \<and> sv_world v' = []"
proof -
  obtain v where v: "run_events (srv_machine ref_msgpack) (Inr (serving_with sample_disp True [])) sample_accepts = Inr v"
      "has_state v 0 Finished" "workers v = [1, 2]" "sv_world v = []"
    by (simp add: sample_accepts_def sample_server_simps workers_def eval_nat_numeral)
  from stop_joins_workers [OF v(1,2), of "[]"] v show ?thesis by auto
qed

subsection \<open>A stop requested by a handler\<close>

lemma in_thread_leave:
  "t < length (sv_threads v) \<Longrightarrow> stopping (in_thread (leave_ctx t c v) t') =
     (if t' = t then stopping c else stopping (in_thread v t'))"
  by (auto simp: stopping_def in_thread_def leave_ctx_def thread_at_def Let_def)

lemma in_thread_other [simp]:
  "in_thread (v\<lparr>sv_objs := os\<rparr>) = in_thread v" "in_thread (v\<lparr>sv_sessions := ks\<rparr>) = in_thread v"
  "in_thread (v\<lparr>sv_cancelled := b\<rparr>) = in_thread v" "in_thread (v\<lparr>sv_accepting := b\<rparr>) = in_thread v"
  "in_thread (v\<lparr>sv_disp_null := ks\<rparr>) = in_thread v"
  by (simp_all add: fun_eq_iff in_thread_def thread_at_def)

lemma in_thread_close [simp]: "in_thread (close_sessions t v) = in_thread v"
  by (simp add: fun_eq_iff in_thread_def thread_at_def Let_def)

lemma close_sessions_cancels:
  "sv_cancelled (close_sessions t v) \<longleftrightarrow> sv_cancelled v \<or> stopping (in_thread v t)"
  by (simp add: close_sessions_def Let_def)

lemma stop_task_flag:
  "process_request mp d p i m c = (Inr ts, c') \<Longrightarrow> CloseSessionsTask \<in> set ts \<Longrightarrow> stopping c'"
  by (auto simp: process_request_def answer_tasks_def Let_def split: prod.splits sum.splits if_splits)

lemma accept_rearms:
  assumes "buffer_laws mp" and "\<not> stopping (in_thread v t)"
  shows "\<exists>v'. on_accept mp t True v = Inr v' \<and> sv_accepting v' \<and>
     sv_sessions v' = sv_sessions v @ [length (sv_objs v)]"
  using assms unpacker_new_cap [OF assms(1)]
  by (simp add: on_accept_def session_start_def session_do_read_def start_read_def start_accept_def
      ServerSession_new_def Let_def)

text \<open>C36. The handler of a notification that asks the server to stop sets a flag of its own thread,
  and its session posts the closing of all sessions on the write strand. Whichever worker runs that handler of the
  strand, the list of sessions is emptied; but the acceptor is cancelled only when it is the
  very worker that served the request (or one with a request of its own pending). On another
  worker the acceptor goes on: the next accept there opens and registers a session as before.\<close>

theorem stop_request_bound_to_thread:
  assumes "buffer_laws mp"
    and "has_state v t Running" and "has_state v t' Running" and "\<not> sv_stopped v"
    and "k < length (sv_objs v)" and "sv_objs v ! k = s" and "k \<notin> set (sv_disp_null v)"
    and "sv_parent v = sv_owner v" and "w_strand (ss_writer s) = []" and "j < length (ss_jobs s)"
    and "process_request mp (sv_disp v) (ss_suppress s) (ss_id s) (ss_jobs s ! j) (in_thread v t) =
      (Inr [CloseSessionsTask], c')"
    and "\<not> sv_cancelled v" and "\<not> stopping (in_thread v t')" and "sv_accepting v"
  shows "\<exists>v'. run_events (srv_machine mp) (Inr v)
       [SessionStep t k (Job j), SessionStep t' k Strand] = Inr v' \<and>
     sv_sessions v' = [] \<and> (sv_cancelled v' \<longleftrightarrow> t' = t) \<and>
     (t' \<noteq> t \<longrightarrow> (\<exists>v''. srv_step mp v' (AcceptDone t' True) = Inr v'' \<and>
        sv_accepting v'' \<and> sv_sessions v'' = [length (sv_objs v)]))"
proof -
  let ?s = "post_tasks [CloseSessionsTask] (s\<lparr>ss_jobs := take j (ss_jobs s) @ drop (Suc j) (ss_jobs s)\<rparr>)"
  let ?v1 = "leave_ctx t c' (v\<lparr>sv_objs := (sv_objs v)[k := ?s]\<rparr>)"
  let ?v2 = "?v1\<lparr>sv_objs := (sv_objs ?v1)[k := ?s\<lparr>ss_writer := (ss_writer ?s)\<lparr>w_strand := []\<rparr>\<rparr>]\<rparr>"
  have same: "sv_disp_null ?v1 = sv_disp_null v" "sv_parent ?v1 = sv_parent v" "sv_owner ?v1 = sv_owner v"
    "sv_cancelled ?v1 = sv_cancelled v"
    by (simp_all add: leave_ctx_def)
  have "sess_step mp (sv_disp v) (s, in_thread v t) (Job j) = Inr (?s, c')"
    using assms(10,11) by (simp add: sess_step_def run_job_def)
  then have one: "srv_step mp v (SessionStep t k (Job j)) = Inr ?v1"
    using assms(2,4-7,10) by (simp add: srv_step_def session_step_def takes_job_def Let_def)
  have "run_strand mp ?s = Inr (?s\<lparr>ss_writer := (ss_writer ?s)\<lparr>w_strand := []\<rparr>\<rparr>, CallCloseSessions)"
    using assms(9) by (simp add: run_strand_def run_session_task_def)
  then have two: "srv_step mp ?v1 (SessionStep t' k Strand) = Inr (close_sessions t' ?v2)"
    using assms(3-5,8) same
    by (simp add: srv_step_def session_step_def parent_calls_def Let_def)
  have t: "t < length (sv_threads v)" using assms(2) by (simp add: has_state_def)
  have flag: "stopping (in_thread ?v2 t') \<longleftrightarrow> t' = t"
    using stop_task_flag [OF assms(11)] assms(13) t by (simp add: in_thread_leave)
  have "\<exists>v''. srv_step mp (close_sessions t' ?v2) (AcceptDone t' True) = Inr v'' \<and>
      sv_accepting v'' \<and> sv_sessions v'' = [length (sv_objs v)]" if "t' \<noteq> t"
    using accept_rearms [OF assms(1), of "close_sessions t' ?v2" t'] flag that assms(3,4,14)
    by (simp add: srv_step_def)
  with one two flag same(4) assms(12) show ?thesis
    by (simp add: close_sessions_cancels)
qed

text \<open>For the witness: a function that stops the server, notified of on the first of two workers.\<close>

definition sample_halt :: "mobj list list dispatcher" where
  "sample_halt = store ''halt'' (bound_call ref_msgpack ''halt''
     (sample_thunk (\<lambda>c. (Inr MNil, server_stop c)))) Dispatcher_new"

definition sample_halting :: "mobj list list srv" where
  "sample_halting =
     (let v = async_run 2 (serving_with sample_halt True []);
          s = (ServerSession_new ref_msgpack True 0)\<lparr>ss_jobs := [notify_obj ''halt'' []]\<rparr>
      in enter_loop 2 (enter_loop 1 (v\<lparr>sv_objs := [s], sv_sessions := [0]\<rparr>)))"

lemma sample_halt_served:
  "process_request ref_msgpack sample_halt True i (notify_obj ''halt'' []) c =
     (Inr [CloseSessionsTask], server_stop (reset_ctx i c))"
  by (simp add: sample_halt_def process_request_def dispatch_notify_obj store_def Dispatcher_new_def
      bound_call_def answer_tasks_def captured_def reset_ctx_eq fresh_ctx_def this_context_defs
      is_empty_def)

theorem stop_request_bound_to_thread_witness:
  "\<exists>v'. run_events (srv_machine ref_msgpack) (Inr sample_halting)
       [SessionStep 1 0 (Job 0), SessionStep 2 0 Strand] = Inr v' \<and>
     sv_sessions v' = [] \<and> \<not> sv_cancelled v' \<and>
     (\<exists>v''. srv_step ref_msgpack v' (AcceptDone 2 True) = Inr v'' \<and> sv_accepting v'' \<and>
        sv_sessions v'' = [1])"
proof -
  let ?s = "(ServerSession_new ref_msgpack True 0)\<lparr>ss_jobs := [notify_obj ''halt'' []]\<rparr>"
  note simps = sample_halting_def sample_server_simps eval_nat_numeral
  have v: "has_state sample_halting 1 Running" "has_state sample_halting 2 Running"
      "\<not> sv_stopped sample_halting" "sv_objs sample_halting = [?s]" "sv_disp_null sample_halting = []"
      "sv_parent sample_halting = sv_owner sample_halting" "sv_disp sample_halting = sample_halt"
      "\<not> sv_cancelled sample_halting" "\<not> stopping (in_thread sample_halting 2)"
      "sv_accepting sample_halting"
    by (simp_all add: simps)
  have s: "ss_suppress ?s" "ss_id ?s = 0" "ss_jobs ?s ! 0 = notify_obj ''halt'' []"
      "w_strand (ss_writer ?s) = []" "0 < length (ss_jobs ?s)"
    by (simp_all add: ServerSession_new_def AsyncWriter_new_def)
  from stop_request_bound_to_thread [OF ref_buffer_laws v(1,2,3), of 0 ?s 0] v(4-10) s sample_halt_served
  show ?thesis by simp
qed

subsection \<open>Moving a server\<close>

text \<open>
  Move assignment to a server that is running waits for the workers of the old impl, and these
  stay in the loop as long as it accepts.
\<close>

lemma move_assign_waits:
  assumes "t \<in> unjoined (sv_group old)" and "has_state old t Running"
    and "self \<notin> unjoined (sv_group old)" and "\<not> sv_stopped old" and "sv_accepting old"
  shows "fst (move_assign_server self a old other) = JoinBlocks \<and> leave_loop t old = old"
proof -
  let ?r = "fst (join_all (\<lambda>t. has_state old t Finished) self (sv_group old))"
  have "?r \<noteq> Joined" using assms(1,2) by (auto simp: join_all_joined has_state_def)
  moreover have "?r \<noteq> JoinThrows" using assms(3) by (auto dest: join_throws_self)
  ultimately have "?r = JoinBlocks" by (cases ?r) auto
  then show ?thesis
    using assms(4,5) by (simp add: move_assign_server_def destroy_impl_def destroy_group_def split_def
        leave_loop_def out_of_work_def)
qed

text \<open>
  After a move \<open>impl::parent\<close> is the address of the moved-from object: every session accepted
  from then on has no dispatcher, and no session can reach the session list.
\<close>

definition orphaned :: "nat \<Rightarrow> srv_fault + 'w srv \<Rightarrow> bool" where
  "orphaned n st \<longleftrightarrow> (case st of Inl f \<Rightarrow> True | Inr v \<Rightarrow> sv_parent v \<noteq> sv_owner v \<and>
     (\<forall>k. n \<le> k \<longrightarrow> k < length (sv_objs v) \<longrightarrow> k \<in> set (sv_disp_null v)))"

lemma orphaned_cong:
  "orphaned n (Inr v) \<Longrightarrow> sv_parent v' = sv_parent v \<Longrightarrow> sv_owner v' = sv_owner v \<Longrightarrow>
     length (sv_objs v') = length (sv_objs v) \<Longrightarrow> sv_disp_null v' = sv_disp_null v \<Longrightarrow>
     orphaned n (Inr v')"
  by (simp add: orphaned_def)

lemma session_step_orphaned:
  assumes "orphaned n (Inr v)" and "session_step mp t k se v = Inr v'"
  shows "orphaned n (Inr v')"
  using assms(2)
proof (cases rule: session_step_cases)
  case (strand s pc)
  with assms(1) have "v' = v\<lparr>sv_objs := (sv_objs v)[k := s]\<rparr>"
    by (auto simp: parent_calls_def orphaned_def split: if_splits)
  with assms(1) show ?thesis by (auto intro: orphaned_cong)
next
  case (own s c)
  show ?thesis unfolding own(4) by (rule orphaned_cong [OF assms(1)]) (simp_all add: leave_ctx_def)
qed (use assms(1) in simp)

lemma on_accept_orphaned:
  "orphaned n (Inr v) \<Longrightarrow> on_accept mp t ok v = Inr v' \<Longrightarrow> orphaned n (Inr v')"
  by (auto simp: on_accept_def orphaned_def start_accept_def Let_def less_Suc_eq
      split: if_splits sum.splits)

interpretation orphan_safe: kept_by_steps "srv_machine mp" "orphaned n" for mp n
proof
  fix mp n st e
  assume orphaned: "orphaned n st"
  show "orphaned n (srv_machine mp st e)"
  proof (cases st)
    case (Inl f)
    with orphaned show ?thesis by simp
  next
    case (Inr v)
    show ?thesis
    proof (cases "srv_step mp v e")
      case (Inl f)
      then show ?thesis using Inr by (simp add: orphaned_def)
    next
      case v': (Inr v')
      note inv = orphaned [unfolded Inr]
      have "orphaned n (Inr v')"
        using v' inv on_accept_orphaned [OF inv] session_step_orphaned [OF inv]
        by (cases e) (auto simp: srv_step_def split: if_splits elim!: orphaned_cong
            simp: async_run_def enter_loop_def leave_loop_def set_state_def suppress_exceptions_def
              stop_server_group)
      then show ?thesis using Inr v' by simp
    qed
  qed
qed

text \<open>C37. A server that was moved to another object stops serving: whatever happens after the move,
  the first request of any session accepted since then is a call through a null dispatcher, and
  the removal of any session that was closed is a call through the null pimpl of the moved-from
  object.\<close>

theorem moved_server_faults:
  assumes "run_events (srv_machine mp) (Inr (move_server a v)) es = Inr v'" and "a \<noteq> sv_parent v"
    and "has_state v' t Running" and "\<not> sv_stopped v'" and "k < length (sv_objs v')"
  shows "(length (sv_objs v) \<le> k \<longrightarrow> ss_jobs (sv_objs v' ! k) \<noteq> [] \<longrightarrow>
       srv_step mp v' (SessionStep t k (Job 0)) = Inl NullDispatcher) \<and>
     (\<forall>ts. w_strand (ss_writer (sv_objs v' ! k)) = Derived Deregister # ts \<longrightarrow>
       srv_step mp v' (SessionStep t k Strand) = Inl NullImpl)"
proof -
  have "orphaned (length (sv_objs v)) (Inr (move_server a v))"
    using assms(2) by (simp add: orphaned_def move_server_def)
  from orphan_safe.run_keeps [OF this, of mp es] assms(1)
  have "orphaned (length (sv_objs v)) (Inr v')" by simp
  then show ?thesis
    using assms(3-5)
    by (auto simp: orphaned_def srv_step_def session_step_def takes_job_def parent_calls_def
        run_strand_def run_session_task_def Let_def)
qed

text \<open>For the witness: a running server is moved from address 0 to 1; then a client connects,
  sends a request and disconnects.\<close>

definition sample_moved :: "srv_event list" where
  "sample_moved = [AsyncRun 1, Enter 1, AcceptDone 1 True,
     SessionStep 1 0 (Read (ReadOk (mp_pack ref_msgpack (call_obj 1 ''halt'' [])))),
     SessionStep 1 0 (Read ReadEof), SessionStep 1 0 Strand]"

lemma sample_moved_parse:
  "mp_parse ref_msgpack (mp_pack ref_msgpack (call_obj 1 ''halt'' [])) = Parsed (call_obj 1 ''halt'' []) []"
  using parse_pack [OF ref_codec_laws, of "call_obj 1 ''halt'' []" "[]"] by (simp add: packable_call_def)

theorem moved_server_faults_witness:
  "\<exists>v'. run_events (srv_machine ref_msgpack) (Inr (move_server 1 (serving_with sample_halt True []))) sample_moved = Inr v' \<and>
     srv_step ref_msgpack v' (SessionStep 1 0 (Job 0)) = Inl NullDispatcher \<and>
     srv_step ref_msgpack v' (SessionStep 1 0 Strand) = Inl NullImpl"
proof -
  obtain m where m: "length (mp_pack ref_msgpack (call_obj 1 ''halt'' [])) = Suc m"
    using pack_nonempty [OF ref_codec_laws, of "call_obj 1 ''halt'' []"]
    by (cases "mp_pack ref_msgpack (call_obj 1 ''halt'' [])") (auto simp: packable_call_def)
  obtain v' where v': "run_events (srv_machine ref_msgpack)
        (Inr (move_server 1 (serving_with sample_halt True []))) sample_moved = Inr v'"
      "has_state v' 1 Running" "\<not> sv_stopped v'" "length (sv_objs v') = 1"
      "ss_jobs (sv_objs v' ! 0) \<noteq> []" "w_strand (ss_writer (sv_objs v' ! 0)) = [Derived Deregister]"
    by (simp add: sample_moved_def sample_server_simps move_server_def sess_step_def unpacker_next_def
        sample_moved_parse session_on_read_def ref_runs m)
  have "(1 :: nat) \<noteq> sv_parent (serving_with sample_halt True [])"
      "length (sv_objs (serving_with sample_halt True [])) = 0"
    by (simp_all add: serving_with_def suppress_exceptions_def Server_new_def impl_new_def start_accept_def)
  with moved_server_faults [OF v'(1), of 1 0] v'(2-6)
  have "srv_step ref_msgpack v' (SessionStep 1 0 (Job 0)) = Inl NullDispatcher \<and>
      srv_step ref_msgpack v' (SessionStep 1 0 Strand) = Inl NullImpl" by simp
  with v'(1) show ?thesis by blast
qed

end
