(* ===== verification/ServerServes.thy ===== *)
theory ServerServes
  imports ServerOrder ServerSpec
begin

section \<open>Servers serve, and do not crash\<close>

subsection \<open>Every run is explained\<close>

lemma thread_event_fields:
  assumes "srv_step mp v e = Inr v'"
    and "case e of AcceptDone t ok \<Rightarrow> False | SessionStep t k se \<Rightarrow> False | CloseAllCalled \<Rightarrow> False | _ \<Rightarrow> True"
  shows "sv_objs v' = sv_objs v \<and> sv_world v' = sv_world v \<and> sv_disp v' = sv_disp v \<and>
     sv_parent v' = sv_parent v \<and> sv_owner v' = sv_owner v \<and> sv_disp_null v' = sv_disp_null v \<and>
     sv_sessions v' = sv_sessions v"
  using assms
  by (cases e) (auto simp: srv_step_def async_run_def enter_loop_def leave_loop_def set_state_def
      suppress_exceptions_def stop_server_def impl_stop_def Let_def prod.case_eq_if split: if_splits)

definition serves_nothing :: "'w srv \<Rightarrow> srv_event \<Rightarrow> bool" where
  "serves_nothing v e \<longleftrightarrow> (\<forall>t k i. e = SessionStep t k (Job i) \<longrightarrow> length (ss_jobs (sv_objs v ! k)) \<le> i)"

lemma srv_step_tracked:
  assumes laws: "codec_laws mp" "view_laws mp" "buffer_laws mp" "\<forall>k. well_packed (obs k)"
    and inv: "tracked Q mp d obs (\<lambda>k. bytes_read k v e @ unread k) v"
    and quiet: "serves_nothing v e" and step: "srv_step mp v e = Inr v'"
  shows "tracked Q mp d obs unread v' \<and> sv_world v' = sv_world v"
proof -
  have silent: "tracked Q mp d obs unread v" if "\<And>k. bytes_read k v e = []"
    using inv by (simp add: that)
  show ?thesis
  proof (cases e)
    case (AcceptDone t ok)
    with silent step on_accept_tracked [OF laws(3), of Q d obs unread v t ok v'] show ?thesis
      by (auto simp: srv_step_def bytes_read_def split: if_splits)
  next
    case (SessionStep t k se)
    show ?thesis
    proof (cases "has_state v t Running \<and> \<not> sv_stopped v \<and> k < length (sv_objs v)")
      case True
      then have "(\<lambda>j. bytes_read j v e @ unread j) = (\<lambda>j. (if j = k then event_bytes se else []) @ unread j)"
        by (auto simp: bytes_read_def SessionStep)
      with inv have "tracked Q mp d obs (\<lambda>j. (if j = k then event_bytes se else []) @ unread j) v"
        by simp
      from session_step_tracked [OF laws _ this] True step SessionStep quiet show ?thesis
        by (simp add: srv_step_def serves_nothing_def)
    next
      case False
      then have "v' = v" "\<And>j. bytes_read j v e = []"
        using step by (auto simp: srv_step_def bytes_read_def SessionStep)
      with silent show ?thesis by simp
    qed
  next
    case CloseAllCalled
    with silent step tracked_close_sessions [of Q mp d obs unread v 0] show ?thesis
      by (auto simp: srv_step_def bytes_read_def split: if_splits)
  qed (use silent thread_event_fields [OF step] in
      \<open>auto simp: bytes_read_def intro: tracked_cong\<close>)
qed

lemma srv_step_explained:
  assumes laws: "codec_laws mp" "view_laws mp" "buffer_laws mp" "\<forall>k. well_packed (obs k)"
    and fit: "answers_fit mp d P obs"
    and inv: "explained mp d P obs w0 (\<lambda>k. bytes_read k v e @ unread k) v"
    and step: "srv_step mp v e = Inr v'"
  shows "explained mp d P obs w0 unread v'"
proof (cases "serves_nothing v e")
  case True
  have tr: "P (sv_world v)" "tracked (\<lambda>hist as. serve_all mp d hist w0 = (as, Some (sv_world v))) mp d obs
      (\<lambda>k. bytes_read k v e @ unread k) v"
    using inv by (simp_all add: explained_tracked)
  from srv_step_tracked [OF laws tr(2) True step] tr(1) show ?thesis by (simp add: explained_tracked)
next
  case False
  then obtain t k i where e: "e = SessionStep t k (Job i)" by (auto simp: serves_nothing_def)
  then have inv': "explained mp d P obs w0 unread v"
    using inv by (simp add: bytes_read_def event_bytes_def cong: if_cong)
  then have "explained mp d P obs w0 (\<lambda>j. (if j = k then event_bytes (Job i) else []) @ unread j) v"
    by (simp add: event_bytes_def cong: if_cong)
  from session_step_explained [OF laws fit _ this, of t v'] step e inv' show ?thesis
    by (auto simp: srv_step_def split: if_splits)
qed

lemma srv_machine_stuck [simp]: "run_events (srv_machine mp) (Inl f) es = Inl f"
  by (induction es) simp_all

lemma explained_run:
  assumes "codec_laws mp" "view_laws mp" "buffer_laws mp" "\<forall>k. well_packed (obs k)"
    and "answers_fit mp d P obs"
  shows "explained mp d P obs w0 (\<lambda>k. delivered mp k (Inr v) es @ unread k) v \<Longrightarrow>
     run_events (srv_machine mp) (Inr v) es = Inr v' \<Longrightarrow> explained mp d P obs w0 unread v'"
proof (induction es arbitrary: v)
  case (Cons e es)
  show ?case
  proof (cases "srv_step mp v e")
    case (Inl f)
    with Cons.prems(2) Inl show ?thesis by simp
  next
    case (Inr v1)
    have "explained mp d P obs w0 (\<lambda>k. bytes_read k v e @ (delivered mp k (Inr v1) es @ unread k)) v"
      using Cons.prems(1) Inr by simp
    from Cons.IH [OF srv_step_explained [OF assms this Inr]] Cons.prems(2) Inr show ?thesis by simp
  qed
qed simp

lemma serving_explained:
  assumes "P w" and "\<And>k. unread k = stream mp (obs k)"
  shows "explained mp d P obs w unread (serving_with d suppress w)"
  using assms by (auto simp: explained_def serving_with_def suppress_exceptions_def Server_new_def
      impl_new_def start_accept_def sendable_def intro!: exI [of _ "[]"])

lemma serves_in_sequence:
  assumes "codec_laws mp" and "view_laws mp" and "buffer_laws mp" and "\<forall>k. well_packed (obs k)"
    and "answers_fit mp d P obs" and "P w"
    and "\<forall>k. prefix (delivered mp k (Inr (serving_with d suppress w)) es) (stream mp (obs k))"
    and "run_events (srv_machine mp) (Inr (serving_with d suppress w)) es = Inr v"
  shows "\<exists>hist as. serve_all mp d hist w = (as, Some (sv_world v)) \<and> P (sv_world v) \<and> sendable mp (map snd as) \<and>
     (\<forall>h \<in> set hist. fst h < length (sv_objs v)) \<and>
     (\<forall>k < length (sv_objs v). let s = sv_objs v ! k in
        mset (requests_of k hist) + mset (ss_jobs s) \<subseteq># mset (obs k) \<and>
        prefix (w_wire (ss_writer s)) (map (response_data mp) (answers_for k as)) \<and>
        mset (map r_id (answers_for k as)) \<subseteq># mset (call_ids mp (obs k)))"
proof -
  define unread where "unread k = drop (length (delivered mp k (Inr (serving_with d suppress w)) es))
    (stream mp (obs k))" for k
  have "delivered mp k (Inr (serving_with d suppress w)) es @ unread k = stream mp (obs k)" for k
    using assms(7) [rule_format, of k] by (auto simp: unread_def prefix_def)
  from explained_run [OF assms(1-5) serving_explained [of P w, OF assms(6) this] assms(8)] obtain hist as
    where h: "serve_all mp d hist w = (as, Some (sv_world v))" "P (sv_world v)"
      "\<forall>k < length (sv_objs v). accounted mp (obs k) (unread k) hist as k (sv_objs v ! k)"
      "\<forall>h \<in> set hist. fst h < length (sv_objs v)" "sendable mp (map snd as)"
    by (auto simp: explained_def)
  have "mset (requests_of k hist) + mset (ss_jobs s) \<subseteq># mset (obs k) \<and>
      prefix (w_wire (ss_writer s)) (map (response_data mp) (answers_for k as)) \<and>
      mset (map r_id (answers_for k as)) \<subseteq># mset (call_ids mp (obs k))"
    if "k < length (sv_objs v)" "s = sv_objs v ! k" for k s
  proof -
    from h(3) that obtain later where
        acc: "mset (obs k) = mset (requests_of k hist) + mset (ss_jobs s) + mset later"
        "carries mp (answers_for k as) (ss_writer s)"
      by (auto simp: accounted_def)
    have "mset (requests_of k hist) \<subseteq># mset (obs k)" by (simp add: acc(1))
    from subset_mset.order_trans [OF answers_for_calls [OF h(1)] call_ids_subset [OF this]] acc
    show ?thesis by (auto simp: carries_def)
  qed
  with h(1,2,4,5) show ?thesis by (metis (full_types))
qed

text \<open>What a server does, with any number of clients, worker threads and calls of its owner, is to
  serve requests one after the other: for every run there is one sequence of requests of all
  sessions such that the application state is the one that serving them in that order leaves;
  each session's part of it and its waiting jobs are requests of that session's own stream, each
  taken once; its wire carries a prefix of the answers to its own requests, in that order; and no
  call is answered twice or on another session's wire.\<close>

lemma server_serves_in_sequence:
  assumes "codec_laws mp" and "view_laws mp" and "buffer_laws mp" and "\<forall>k. well_packed (obs k)"
    and "answers_fit mp d P obs" and "P w"
    and "\<forall>k. prefix (delivered mp k (Inr (serving_with d suppress w)) es) (stream mp (obs k))"
    and "run_events (srv_machine mp) (Inr (serving_with d suppress w)) es = Inr v"
  shows "\<exists>hist as. serve_all mp d hist w = (as, Some (sv_world v)) \<and> P (sv_world v) \<and>
     (\<forall>k < length (sv_objs v). let s = sv_objs v ! k in
        mset (requests_of k hist) + mset (ss_jobs s) \<subseteq># mset (obs k) \<and>
        prefix (w_wire (ss_writer s)) (map (response_data mp) (answers_for k as)) \<and>
        mset (map r_id (answers_for k as)) \<subseteq># mset (call_ids mp (obs k)))"
  using serves_in_sequence [OF assms] by blast

subsection \<open>No crash\<close>

definition suppressing :: "'w srv \<Rightarrow> bool" where
  "suppressing v \<longleftrightarrow> sv_suppress v \<and> (\<forall>s \<in> set (sv_objs v). ss_suppress s)"

lemma session_decode_suppress: "session_decode mp n s = Inr s' \<Longrightarrow> ss_suppress s' = ss_suppress s"
proof (induction n arbitrary: s)
  case (Suc n)
  then show ?case by (auto split: next_result.splits if_splits)
qed simp

lemma sess_step_suppress: "sess_step mp d (s, c) e = Inr (s', c') \<Longrightarrow> ss_suppress s' = ss_suppress s"
  by (cases e) (auto simp: sess_step_def session_on_read_def session_do_read_def start_read_def run_job_def
      session_on_write_def with_writer_def map_sum_def Let_def dest!: session_decode_suppress run_strand_frames
      split: read_result.splits sum.splits prod.splits if_splits)

lemma close_all_suppress:
  "\<forall>s \<in> set objs. ss_suppress s \<Longrightarrow> \<forall>s \<in> set (close_all copy objs). ss_suppress s"
  by (intro close_all_ball) simp_all

lemma suppressing_update:
  "suppressing v \<Longrightarrow> ss_suppress s \<Longrightarrow> suppressing (v\<lparr>sv_objs := (sv_objs v)[k := s]\<rparr>)"
  by (auto simp: suppressing_def dest!: set_update_subset_insert [THEN subsetD])

lemma suppressing_close_sessions: "suppressing v \<Longrightarrow> suppressing (close_sessions t v)"
  using close_all_suppress [of "sv_objs v"] by (auto simp: suppressing_def close_sessions_def Let_def)

lemma session_step_suppressing:
  assumes "suppressing v" and "k < length (sv_objs v)" and "session_step mp t k se v = Inr v'"
  shows "suppressing v'"
  using assms(3)
proof (cases rule: session_step_cases)
  case (strand s pc)
  have "suppressing (v\<lparr>sv_objs := (sv_objs v)[k := s]\<rparr>)" (is "suppressing ?v")
    using assms(1,2) run_strand_frames [OF strand(2)]
    by (intro suppressing_update) (auto simp: suppressing_def)
  then have "suppressing (close_session k ?v)" "suppressing (close_sessions t ?v)"
    using suppressing_close_sessions [of ?v t] by (auto simp: suppressing_def close_session_def)
  moreover have "v' = ?v \<or> v' = close_session k ?v \<or> v' = close_sessions t ?v"
    using strand(3) by (auto simp: parent_calls_def split: if_splits)
  ultimately show ?thesis using \<open>suppressing ?v\<close> by auto
next
  case (own s c)
  have "ss_suppress s" using assms(1,2) sess_step_suppress [OF own(3)] by (simp add: suppressing_def)
  from suppressing_update [OF assms(1) this, of k] show ?thesis
    by (simp add: own(4) suppressing_def leave_ctx_def)
qed (use assms(1) in simp)

lemma srv_step_suppressing:
  assumes "suppressing v" and "srv_step mp v e = Inr v'" and "e \<noteq> SuppressCalled False"
  shows "suppressing v'"
proof (cases e)
  case (AcceptDone t ok)
  with assms(1,2) show ?thesis
    by (auto simp: srv_step_def on_accept_def start_accept_def Let_def suppressing_def session_start_def
        session_do_read_def start_read_def ServerSession_new_def split: if_splits sum.splits)
next
  case (SessionStep t k se)
  with assms session_step_suppressing [OF assms(1), of k mp t se v'] show ?thesis
    by (auto simp: srv_step_def split: if_splits)
next
  case (SuppressCalled b)
  with assms show ?thesis by (auto simp: srv_step_def suppress_exceptions_def suppressing_def split: if_splits)
next
  case CloseAllCalled
  with assms suppressing_close_sessions [of v 0] show ?thesis by (auto simp: srv_step_def split: if_splits)
qed (use assms in \<open>auto simp: srv_step_def async_run_def enter_loop_def leave_loop_def set_state_def
      stop_server_def impl_stop_def suppressing_def Let_def prod.case_eq_if split: if_splits\<close>)

lemma session_step_total:
  assumes laws: "codec_laws mp" "view_laws mp" "buffer_laws mp" "\<forall>k. well_formed_requests mp (obs k)"
    and k: "k < length (sv_objs v)" and "suppressing v"
    and inv: "tracked Q mp d obs (\<lambda>j. (if j = k then event_bytes se else []) @ unread j) v"
  shows "\<exists>v'. session_step mp t k se v = Inr v'"
proof -
  let ?s = "sv_objs v ! k"
  obtain hist as where acc: "accounted mp (obs k) (event_bytes se @ unread k) hist as k ?s"
      "sendable mp (answers_for k as)"
    using inv k answers_for_sendable unfolding tracked_def by fastforce
  have parent: "sv_parent v = sv_owner v" "sv_disp_null v = []" using inv by (simp_all add: tracked_def)
  have packed: "well_packed (obs k)"
    using laws(4) by (auto simp: well_formed_requests_def well_packed_def)
  have writer: "carries mp (answers_for k as) (ss_writer ?s)" using acc(1) by (simp add: accounted_def)
  show ?thesis
  proof (cases se)
    case (Read rr)
    show ?thesis
    proof (cases "ss_reading ?s")
      case True
      from explained_read [OF laws(1,3) packed _ True] acc(1) Read obtain s1
        where "session_on_read mp rr ?s = Inr s1" by blast
      with Read True parent show ?thesis by (simp add: session_step_def sess_step_def Let_def)
    qed (use Read parent in \<open>simp add: session_step_def sess_step_def Let_def\<close>)
  next
    case (Job i)
    obtain later where "mset (obs k) = mset (requests_of k hist) + mset (ss_jobs ?s) + mset later"
      using acc(1) by (auto simp: accounted_def)
    then have "set (ss_jobs ?s) \<subseteq> set (obs k)"
      by (metis mset_subset_eq_add_left mset_subset_eq_add_right set_mset_mono set_mset_mset
          subset_mset.order_trans)
    moreover have "ss_suppress ?s" using assms(6) k by (simp add: suppressing_def)
    ultimately obtain s' c' where "run_job mp (sv_disp v) i ?s (in_thread v t) = Inr (s', c')"
      using job_total laws(4) by blast
    with Job parent show ?thesis by (simp add: session_step_def sess_step_def Let_def)
  next
    case Strand
    have "writer_inv (ss_writer ?s)" using writer by (simp add: carries_def)
    from run_strand_total [OF this, of mp] Strand parent show ?thesis
      by (auto simp: session_step_def parent_calls_def Let_def)
  next
    case (Wrote ec)
    with carries_complete_total [OF writer laws(1,2) acc(2), of ec] parent show ?thesis
      by (auto simp: session_step_def sess_step_def session_on_write_def with_writer_def Let_def)
  qed (simp add: session_step_def)
qed

lemma srv_step_total:
  assumes laws: "codec_laws mp" "view_laws mp" "buffer_laws mp" "\<forall>k. well_formed_requests mp (obs k)"
    and "suppressing v" and inv: "tracked Q mp d obs (\<lambda>k. bytes_read k v e @ unread k) v"
  shows "\<exists>v'. srv_step mp v e = Inr v'"
proof (cases e)
  case (AcceptDone t ok)
  have "\<exists>v'. on_accept mp t ok v = Inr v'"
    using unpacker_new_cap [OF laws(3)]
    by (simp add: on_accept_def session_start_def session_do_read_def start_read_def
        ServerSession_new_def Let_def)
  with AcceptDone show ?thesis by (auto simp: srv_step_def)
next
  case (SessionStep t k se)
  show ?thesis
  proof (cases "has_state v t Running \<and> \<not> sv_stopped v \<and> k < length (sv_objs v)")
    case True
    then have "(\<lambda>j. bytes_read j v e @ unread j) = (\<lambda>j. (if j = k then event_bytes se else []) @ unread j)"
      by (auto simp: bytes_read_def SessionStep)
    with inv have "tracked Q mp d obs (\<lambda>j. (if j = k then event_bytes se else []) @ unread j) v"
      by simp
    from session_step_total [OF laws _ assms(5) this] True SessionStep show ?thesis
      by (simp add: srv_step_def)
  qed (auto simp: srv_step_def SessionStep)
qed (simp_all add: srv_step_def)

lemma explained_run_total:
  assumes laws: "codec_laws mp" "view_laws mp" "buffer_laws mp" "\<forall>k. well_formed_requests mp (obs k)"
    and fit: "answers_fit mp d P obs"
  shows "explained mp d P obs w0 (\<lambda>k. delivered mp k (Inr v) es @ unread k) v \<Longrightarrow> suppressing v \<Longrightarrow>
     SuppressCalled False \<notin> set es \<Longrightarrow> \<exists>v'. run_events (srv_machine mp) (Inr v) es = Inr v'"
proof (induction es arbitrary: v)
  case (Cons e es)
  have packed: "\<forall>k. well_packed (obs k)"
    using laws(4) by (auto simp: well_formed_requests_def well_packed_def)
  let ?rest = "\<lambda>k. case srv_step mp v e of Inl f \<Rightarrow> [] | Inr v1 \<Rightarrow> delivered mp k (Inr v1) es @ unread k"
  have "delivered mp k (Inl f) es = []" for k and f :: srv_fault
    by (cases es) simp_all
  then have here: "explained mp d P obs w0 (\<lambda>k. bytes_read k v e @ delivered mp k (srv_step mp v e) es @ unread k) v"
    using Cons.prems(1) by simp
  have "tracked (\<lambda>hist as. serve_all mp d hist w0 = (as, Some (sv_world v))) mp d obs
      (\<lambda>k. bytes_read k v e @ delivered mp k (srv_step mp v e) es @ unread k) v"
    using here by (simp add: explained_tracked)
  from srv_step_total [OF laws Cons.prems(2) this] obtain v1 where v1: "srv_step mp v e = Inr v1" by blast
  have "explained mp d P obs w0 (\<lambda>k. delivered mp k (Inr v1) es @ unread k) v1"
    using srv_step_explained [OF laws(1-3) packed fit here v1] by (simp add: v1)
  moreover have "suppressing v1"
    using srv_step_suppressing [OF Cons.prems(2) v1] Cons.prems(3) by auto
  ultimately show ?case using Cons.IH [of v1] Cons.prems(3) v1 by simp
qed simp

lemma server_total:
  assumes "codec_laws mp" and "view_laws mp" and "buffer_laws mp"
    and "\<forall>k. well_formed_requests mp (obs k)" and "answers_fit mp d P obs" and "P w"
    and "\<forall>k. prefix (delivered mp k (Inr (serving_with d True w)) es) (stream mp (obs k))"
    and "SuppressCalled False \<notin> set es"
  shows "\<exists>v. run_events (srv_machine mp) (Inr (serving_with d True w)) es = Inr v"
proof -
  define unread where "unread k = drop (length (delivered mp k (Inr (serving_with d True w)) es))
    (stream mp (obs k))" for k
  have "delivered mp k (Inr (serving_with d True w)) es @ unread k = stream mp (obs k)" for k
    using assms(7) [rule_format, of k] by (auto simp: unread_def prefix_def)
  note start = serving_explained [of P w, OF assms(6) this]
  have "suppressing (serving_with d True w)"
    by (simp add: suppressing_def serving_with_def suppress_exceptions_def Server_new_def impl_new_def
        start_accept_def)
  from explained_run_total [OF assms(1-5) start this assms(8)] show ?thesis .
qed

text \<open>A server that suppresses exceptions cannot be brought down by its clients' well-formed
  requests: whatever the bound functions throw, however the requests of any number of sessions,
  the worker threads, disconnections, failed accepts and writes, and the calls of its owner
  interleave, no handler ever faults, as long as the functions answer with values that can be
  packed.\<close>

lemma server_never_crashes:
  assumes "codec_laws mp" and "view_laws mp" and "buffer_laws mp"
    and "\<forall>k. well_formed_requests mp (obs k)" and "answers_fit mp d P obs" and "P w"
    and "\<forall>k. prefix (delivered mp k (Inr (serving_with d True w)) es) (stream mp (obs k))"
    and "SuppressCalled False \<notin> set es"
  shows "\<exists>v. run_events (srv_machine mp) (Inr (serving_with d True w)) es = Inr v"
  using assms by (rule server_total)

subsection \<open>Two clients at once\<close>

text \<open>For the witnesses: two sessions on two workers; each sends a call, and the second one is
  served and answered first.\<close>

definition sample_streams :: "nat \<Rightarrow> mobj list" where
  "sample_streams k = (if k = 0 then [call_obj 7 ''add'' [MInt 2, MInt 3]]
     else if k = 1 then [call_obj 8 ''sub'' []] else [])"

definition sample_two :: "srv_event list" where
  "sample_two = [AsyncRun 2, Enter 1, Enter 2, AcceptDone 1 True, AcceptDone 2 True,
     SessionStep 1 0 (Read (ReadOk (stream ref_msgpack (sample_streams 0)))),
     SessionStep 2 1 (Read (ReadOk (stream ref_msgpack (sample_streams 1)))),
     SessionStep 2 1 (Job 0), SessionStep 1 0 (Job 0), SessionStep 1 1 Strand,
     SessionStep 2 1 (Wrote WriteOk), SessionStep 2 0 Strand, SessionStep 1 0 (Wrote WriteOk)]"

lemma sample_two_run:
  "\<exists>v. run_events (srv_machine ref_msgpack) (Inr (serving_with sample_disp True [])) sample_two = Inr v \<and>
     sv_world v = [[MInt 2, MInt 3]] \<and> length (sv_objs v) = 2 \<and>
     w_wire (ss_writer (sv_objs v ! 0)) = [response_data ref_msgpack (make_result_handle 7 (MInt 5))] \<and>
     w_wire (ss_writer (sv_objs v ! 1)) =
       [response_data ref_msgpack (not_found_response ref_msgpack 8 ''sub'' (call_obj 8 ''sub'' []))]"
proof -
  obtain m n where m: "length (mp_pack ref_msgpack (call_obj 7 ''add'' [MInt 2, MInt 3])) = Suc m"
      "length (mp_pack ref_msgpack (call_obj 8 ''sub'' [])) = Suc n"
    using pack_nonempty [OF ref_codec_laws, of "call_obj 7 ''add'' [MInt 2, MInt 3]"]
      pack_nonempty [OF ref_codec_laws, of "call_obj 8 ''sub'' []"]
    by (cases "mp_pack ref_msgpack (call_obj 7 ''add'' [MInt 2, MInt 3])";
      cases "mp_pack ref_msgpack (call_obj 8 ''sub'' [])") (auto simp: packable_call_def)
  show ?thesis
    by (simp add: sample_two_def sample_streams_def sample_server_simps unpacker_next_def m ref_runs
        packable_call_def session_on_read_def sample_served
        post_tasks_def reset_ctx_eq)
qed

lemma delivered_stopped [simp]: "delivered mp k (Inl f) es = []"
  by (cases es) simp_all

lemma delivered_append:
  "delivered mp k st (xs @ ys) = delivered mp k st xs @ delivered mp k (run_events (srv_machine mp) st xs) ys"
proof (induction xs arbitrary: st)
  case (Cons e xs)
  then show ?case by (cases st) simp_all
qed simp

lemma delivered_silent:
  "\<forall>e \<in> set es. \<forall>t se. e = SessionStep t k se \<longrightarrow> event_bytes se = [] \<Longrightarrow> delivered mp k st es = []"
proof (induction es arbitrary: st)
  case (Cons e es)
  then have "bytes_read k v e = []" for v :: "'a srv" by (cases e) (auto simp: bytes_read_def)
  with Cons show ?case by (cases st) simp_all
qed simp

text \<open>A session that is sent one chunk gets all of it or nothing.\<close>

lemma delivered_chunk:
  fixes st :: "srv_fault + 'a srv"
  assumes "\<forall>e \<in> set xs \<union> set ys. \<forall>t se. e = SessionStep t k se \<longrightarrow> event_bytes se = []"
  shows "prefix (delivered mp k st (xs @ SessionStep t k (Read (ReadOk bs)) # ys)) bs"
proof -
  have "delivered mp k st' ys = []" for st' :: "srv_fault + 'a srv"
    using assms by (intro delivered_silent) auto
  moreover have "delivered mp k st xs = []"
    using assms by (intro delivered_silent) auto
  ultimately show ?thesis
    by (cases "run_events (srv_machine mp) st xs")
      (simp_all add: delivered_append bytes_read_def event_bytes_def)
qed

lemma sample_two_delivered:
  "\<forall>k. prefix (delivered ref_msgpack k st sample_two) (stream ref_msgpack (sample_streams k))"
proof
  fix k
  have silent: "event_bytes (Job i) = []" "event_bytes Strand = []" "event_bytes (Wrote ec) = []" for i ec
    by (simp_all add: event_bytes_def)
  show "prefix (delivered ref_msgpack k st sample_two) (stream ref_msgpack (sample_streams k))"
  proof (cases "k = 0 \<or> k = 1")
    case True
    then show ?thesis
      using delivered_chunk [of "take 5 sample_two" "drop 6 sample_two" 0 ref_msgpack st 1]
        delivered_chunk [of "take 6 sample_two" "drop 7 sample_two" 1 ref_msgpack st 2]
      by (auto simp: sample_two_def silent)
  next
    case False
    then have "delivered ref_msgpack k st sample_two = []"
      by (intro delivered_silent) (auto simp: sample_two_def)
    then show ?thesis by simp
  qed
qed

lemma sample_streams_fit:
  "answers_fit ref_msgpack sample_disp (\<lambda>w. True) sample_streams"
  "well_formed_requests ref_msgpack (sample_streams k)" "well_packed (sample_streams k)"
proof -
  have "fmt_nat 4 = ''4''" by code_simp
  then show "answers_fit ref_msgpack sample_disp (\<lambda>w. True) sample_streams"
    by (auto simp: answers_fit_def sample_streams_def sample_served sendable_def packable_response_obj
        not_found_response_def quote_def)
  show "well_formed_requests ref_msgpack (sample_streams k)" "well_packed (sample_streams k)"
    by (simp_all add: well_formed_requests_def well_packed_def sample_streams_def packable_call_def)
qed

lemma server_serves_in_sequence_example:
  "\<exists>v hist as. run_events (srv_machine ref_msgpack) (Inr (serving_with sample_disp True [])) sample_two = Inr v \<and>
     serve_all ref_msgpack sample_disp hist [] = (as, Some [[MInt 2, MInt 3]]) \<and>
     prefix [response_data ref_msgpack (make_result_handle 7 (MInt 5))]
       (map (response_data ref_msgpack) (answers_for 0 as))"
proof -
  obtain v where v: "run_events (srv_machine ref_msgpack) (Inr (serving_with sample_disp True [])) sample_two = Inr v"
      "sv_world v = [[MInt 2, MInt 3]]" "length (sv_objs v) = 2"
      "w_wire (ss_writer (sv_objs v ! 0)) = [response_data ref_msgpack (make_result_handle 7 (MInt 5))]"
    using sample_two_run by blast
  have "\<forall>k. well_packed (sample_streams k)" using sample_streams_fit(3) by blast
  from server_serves_in_sequence [OF ref_codec_laws ref_view_laws ref_buffer_laws this
      sample_streams_fit(1) TrueI sample_two_delivered v(1)] v(2-4) v(1)
  show ?thesis by (fastforce simp: Let_def)
qed

lemma server_never_crashes_example:
  "\<exists>v. run_events (srv_machine ref_msgpack) (Inr (serving_with sample_disp True [])) sample_two = Inr v"
proof -
  have "\<forall>k. well_formed_requests ref_msgpack (sample_streams k)" using sample_streams_fit(2) by blast
  moreover have "SuppressCalled False \<notin> set sample_two" by (simp add: sample_two_def)
  ultimately show ?thesis
    using server_never_crashes [OF ref_codec_laws ref_view_laws ref_buffer_laws _
        sample_streams_fit(1) TrueI sample_two_delivered] by blast
qed

end
