(* ===== verification/WorkerSteps.thy ===== *)
theory WorkerSteps
  imports ServerServes
begin

section \<open>Handlers of different threads at the same time\<close>

text \<open>
  The machine of \<open>Server\<close> runs every handler as one step. Here the two long handlers of a session
  run in the steps between which other threads can get in: the read handler decodes one object
  at a time and looks at \<open>exit_\<close> each time; a job resets the thread-local objects of its thread,
  dispatches, and posts its handlers on the write strand one by one. In between, any other thread
  runs any handler of any session, this one included. A bound function together with its use of
  the application state remains one step: it is for the application to make its accesses atomic,
  as the example server does with a mutex.
\<close>

subsection \<open>What a thread is in the middle of\<close>

text \<open>In the loop of a read handler, at its end, or in a job that has taken its message, or that has
  dispatched it and is posting.\<close>

datatype work = Decoding | Rearming | Taken mobj | Posting "session_task list"

record 'w par =
  p_srv :: "'w srv"
  p_work :: "nat \<Rightarrow> (nat \<times> work) option"

text \<open>
  The read handler. \<open>ss_reading\<close> stays set while it runs, as a running handler still counts as
  work of the io\_context.
\<close>

definition chunk_arrives :: "bytes \<Rightarrow> sess \<Rightarrow> work option \<times> sess" where
  "chunk_arrives bs s =
     (if is_closed (ss_writer s) then (None, s\<lparr>ss_reading := False\<rparr>)
      else (Some Decoding, s\<lparr>ss_unpac := buffer_consumed bs (ss_unpac s)\<rparr>))"

definition decode_next :: "msgpack \<Rightarrow> sess \<Rightarrow> fault + work option \<times> sess" where
  "decode_next mp s = (case unpacker_next mp (ss_unpac s) of
       NextThrows x \<Rightarrow> Inl (Escaped x)
     | NoObject \<Rightarrow> Inr (Some Rearming, s)
     | NextObject ob u \<Rightarrow>
         if is_closed (ss_writer s) then Inr (None, s\<lparr>ss_unpac := u, ss_reading := False\<rparr>)
         else Inr (Some Decoding, s\<lparr>ss_unpac := u, ss_jobs := ss_jobs s @ [ob]\<rparr>))"

definition read_again :: "msgpack \<Rightarrow> sess \<Rightarrow> fault + work option \<times> sess" where
  "read_again mp s =
     (if is_closed (ss_writer s) then Inr (None, s\<lparr>ss_reading := False\<rparr>)
      else map_sum id (Pair None)
        (session_do_read (s\<lparr>ss_reading := False, ss_unpac := reserve_if_low mp (ss_unpac s)\<rparr>)))"

text \<open>The job of a message.\<close>

definition put_session :: "nat \<Rightarrow> sess \<Rightarrow> 'w srv \<Rightarrow> 'w srv" where
  "put_session k s v = v\<lparr>sv_objs := (sv_objs v)[k := s]\<rparr>"

definition take_job :: "nat \<Rightarrow> nat \<Rightarrow> nat \<Rightarrow> 'w srv \<Rightarrow> work \<times> 'w srv" where
  "take_job t k i v =
     (let s = sv_objs v ! k in
      (Taken (ss_jobs s ! i),
       leave_ctx t (reset_ctx (ss_id s) (in_thread v t))
         (put_session k (s\<lparr>ss_jobs := take i (ss_jobs s) @ drop (Suc i) (ss_jobs s)\<rparr>) v)))"

definition dispatch_job :: "msgpack \<Rightarrow> nat \<Rightarrow> nat \<Rightarrow> mobj \<Rightarrow> 'w srv \<Rightarrow> srv_fault + work option \<times> 'w srv" where
  "dispatch_job mp t k m v =
     (if k \<in> set (sv_disp_null v) then Inl NullDispatcher
      else case dispatch mp (sv_disp v) m (ss_suppress (sv_objs v ! k)) (in_thread v t) of
          (Inl x, c) \<Rightarrow> Inl (InSession (Escaped x))
        | (Inr resp, c) \<Rightarrow> Inr (Some (Posting (answer_tasks c resp)), leave_ctx t c v))"

definition post_next :: "nat \<Rightarrow> session_task list \<Rightarrow> 'w srv \<Rightarrow> work option \<times> 'w srv" where
  "post_next k ts v = (case ts of
       [] \<Rightarrow> (None, v)
     | u # us \<Rightarrow> (Some (Posting us), put_session k (post_tasks [u] (sv_objs v ! k)) v))"

text \<open>The next step of what a thread is in the middle of.\<close>

definition advance :: "msgpack \<Rightarrow> nat \<Rightarrow> nat \<Rightarrow> work \<Rightarrow> 'w srv \<Rightarrow> srv_fault + work option \<times> 'w srv" where
  "advance mp t k wk v = (case wk of
       Decoding \<Rightarrow> map_sum InSession (map_prod id (\<lambda>s. put_session k s v)) (decode_next mp (sv_objs v ! k))
     | Rearming \<Rightarrow> map_sum InSession (map_prod id (\<lambda>s. put_session k s v)) (read_again mp (sv_objs v ! k))
     | Taken m \<Rightarrow> dispatch_job mp t k m v
     | Posting ts \<Rightarrow> Inr (post_next k ts v))"

subsection \<open>The machine\<close>

text \<open>
  An event is a handler or call that runs as a whole, on a thread that is free; a chunk that
  arrives; a job that a free thread takes; or a step of a busy thread. A thread stays in the loop
  until it is free, and the context is not out of work while any thread is busy.
\<close>

datatype par_event = Whole srv_event | ReadChunk nat nat bytes | TakeJob nat nat nat | Advance nat

definition thread_of :: "srv_event \<Rightarrow> nat" where
  "thread_of e = (case e of Enter t \<Rightarrow> t | Leave t \<Rightarrow> t | AcceptDone t ok \<Rightarrow> t | SessionStep t k se \<Rightarrow> t | _ \<Rightarrow> 0)"

definition all_free :: "'w par \<Rightarrow> bool" where
  "all_free p \<longleftrightarrow> (\<forall>t < length (sv_threads (p_srv p)). p_work p t = None)"

definition reader_busy :: "'w par \<Rightarrow> nat \<Rightarrow> bool" where
  "reader_busy p k \<longleftrightarrow> (\<exists>t < length (sv_threads (p_srv p)).
     p_work p t = Some (k, Decoding) \<or> p_work p t = Some (k, Rearming))"

definition runs_whole :: "'w par \<Rightarrow> srv_event \<Rightarrow> bool" where
  "runs_whole p e \<longleftrightarrow> p_work p (thread_of e) = None \<and> (case e of
       Leave t \<Rightarrow> sv_stopped (p_srv p) \<or> all_free p
     | SessionStep t k se \<Rightarrow> (case se of
           Job i \<Rightarrow> False
         | Read rr \<Rightarrow> (case rr of ReadOk bs \<Rightarrow> False | _ \<Rightarrow> \<not> reader_busy p k)
         | _ \<Rightarrow> True)
     | _ \<Rightarrow> True)"

definition can_start :: "'w par \<Rightarrow> nat \<Rightarrow> nat \<Rightarrow> bool" where
  "can_start p t k \<longleftrightarrow> p_work p t = None \<and> has_state (p_srv p) t Running \<and> \<not> sv_stopped (p_srv p) \<and>
     k < length (sv_objs (p_srv p))"

definition chunk_ready :: "'w par \<Rightarrow> nat \<Rightarrow> nat \<Rightarrow> bool" where
  "chunk_ready p t k \<longleftrightarrow> can_start p t k \<and> ss_reading (sv_objs (p_srv p) ! k) \<and> \<not> reader_busy p k"

definition par_step :: "msgpack \<Rightarrow> 'w par \<Rightarrow> par_event \<Rightarrow> srv_fault + 'w par" where
  "par_step mp p e = (case e of
       Whole se \<Rightarrow>
         if runs_whole p se then map_sum id (\<lambda>v. p\<lparr>p_srv := v\<rparr>) (srv_step mp (p_srv p) se) else Inr p
     | ReadChunk t k bs \<Rightarrow>
         if chunk_ready p t k
         then (case chunk_arrives bs (sv_objs (p_srv p) ! k) of (wk, s) \<Rightarrow>
           Inr (p\<lparr>p_srv := put_session k s (p_srv p), p_work := (p_work p)(t := map_option (Pair k) wk)\<rparr>))
         else Inr p
     | TakeJob t k i \<Rightarrow>
         if can_start p t k \<and> i < length (ss_jobs (sv_objs (p_srv p) ! k))
         then (case take_job t k i (p_srv p) of (wk, v) \<Rightarrow>
           Inr (p\<lparr>p_srv := v, p_work := (p_work p)(t \<mapsto> (k, wk))\<rparr>))
         else Inr p
     | Advance t \<Rightarrow> (case p_work p t of
           None \<Rightarrow> Inr p
         | Some (k, wk) \<Rightarrow> (case advance mp t k wk (p_srv p) of
               Inl f \<Rightarrow> Inl f
             | Inr (wk', v) \<Rightarrow>
                 Inr (p\<lparr>p_srv := v, p_work := (p_work p)(t := map_option (Pair k) wk')\<rparr>))))"

definition par_machine :: "msgpack \<Rightarrow> srv_fault + 'w par \<Rightarrow> par_event \<Rightarrow> srv_fault + 'w par" where
  "par_machine mp st e = (case st of Inl f \<Rightarrow> Inl f | Inr p \<Rightarrow> par_step mp p e)"

lemma par_machine_simps [simp]:
  "par_machine mp (Inl f) e = Inl f" "par_machine mp (Inr p) e = par_step mp p e"
  by (simp_all add: par_machine_def)

lemma par_machine_stuck [simp]: "run_events (par_machine mp) (Inl f) es = Inl f"
  by (induction es) simp_all

definition all_idle :: "'w srv \<Rightarrow> 'w par" where
  "all_idle v = \<lparr>p_srv = v, p_work = (\<lambda>t. None)\<rparr>"

lemma all_idle_simps [simp]: "p_srv (all_idle v) = v" "p_work (all_idle v) t = None"
  by (simp_all add: all_idle_def)

lemma put_session_fields [simp]:
  "sv_objs (put_session k s v) = (sv_objs v)[k := s]" "sv_threads (put_session k s v) = sv_threads v"
  "sv_world (put_session k s v) = sv_world v" "sv_disp (put_session k s v) = sv_disp v"
  "sv_parent (put_session k s v) = sv_parent v" "sv_owner (put_session k s v) = sv_owner v"
  "sv_disp_null (put_session k s v) = sv_disp_null v" "sv_stopped (put_session k s v) = sv_stopped v"
  "sv_suppress (put_session k s v) = sv_suppress v"
  by (simp_all add: put_session_def)

lemma leave_ctx_keeps [simp]:
  "sv_objs (leave_ctx t c v) = sv_objs v" "length (sv_threads (leave_ctx t c v)) = length (sv_threads v)"
  "sv_world (leave_ctx t c v) = world c" "sv_disp (leave_ctx t c v) = sv_disp v"
  "sv_parent (leave_ctx t c v) = sv_parent v" "sv_owner (leave_ctx t c v) = sv_owner v"
  "sv_disp_null (leave_ctx t c v) = sv_disp_null v" "sv_stopped (leave_ctx t c v) = sv_stopped v"
  "sv_suppress (leave_ctx t c v) = sv_suppress v"
  by (simp_all add: leave_ctx_def)

lemmas par_defs =
  par_step_def runs_whole_def thread_of_def chunk_ready_def can_start_def reader_busy_def chunk_arrives_def
  advance_def decode_next_def read_again_def take_job_def dispatch_job_def post_next_def all_idle_def
  put_session_def

subsection \<open>What a run puts out\<close>

text \<open>What the events of a run put out one after the other, until a fault.\<close>

fun collected ::
  "('s \<Rightarrow> 'e \<Rightarrow> 'f + 's) \<Rightarrow> ('s \<Rightarrow> 'e \<Rightarrow> 'x list) \<Rightarrow> 'f + 's \<Rightarrow> 'e list \<Rightarrow> 'x list" where
  "collected step out st [] = []"
| "collected step out st (e # es) =
     (case st of Inl f \<Rightarrow> [] | Inr s \<Rightarrow> out s e @ collected step out (step s e) es)"

lemma collected_stopped [simp]: "collected step out (Inl f) es = []"
  by (cases es) simp_all

lemma collected_append:
  fixes st :: "srv_fault + 'w par"
  shows "collected (par_step mp) out st (xs @ ys) =
    collected (par_step mp) out st xs @ collected (par_step mp) out (run_events (par_machine mp) st xs) ys"
proof (induction xs arbitrary: st)
  case (Cons e xs)
  then show ?case by (cases st) simp_all
qed simp

lemma collected_silent:
  "(\<And>e s. e \<in> set es \<Longrightarrow> out s e = []) \<Longrightarrow> collected step out st es = []"
proof (induction es arbitrary: st)
  case (Cons e es)
  then show ?case by (cases st) simp_all
qed simp

text \<open>The bytes a run hands to session \<open>k\<close>, and the requests it dispatches, in that order.\<close>

definition par_reads :: "nat \<Rightarrow> 'w par \<Rightarrow> par_event \<Rightarrow> bytes" where
  "par_reads k p e = (case e of ReadChunk t j bs \<Rightarrow> if j = k \<and> chunk_ready p t j then bs else [] | _ \<Rightarrow> [])"

definition dispatched :: "'w par \<Rightarrow> par_event \<Rightarrow> served list" where
  "dispatched p e = (case e of
       Advance t \<Rightarrow> (case p_work p t of
           Some (k, Taken m) \<Rightarrow> [(k, ss_suppress (sv_objs (p_srv p) ! k), m)]
         | _ \<Rightarrow> [])
     | _ \<Rightarrow> [])"

text \<open>A session that is sent one chunk gets all of it or nothing.\<close>

lemma collected_chunk:
  fixes st :: "srv_fault + 'w par"
  assumes silent: "\<And>e (p :: 'w par). e \<in> set xs \<union> set ys \<Longrightarrow> par_reads k p e = []"
  shows "prefix (collected (par_step mp) (par_reads k) st (xs @ ReadChunk t k bs # ys)) bs"
proof -
  have "collected (par_step mp) (par_reads k) st' ys = []" "collected (par_step mp) (par_reads k) st xs = []"
    for st' :: "srv_fault + 'w par"
    by (rule collected_silent, rule silent, simp)+
  then show ?thesis
    by (cases "run_events (par_machine mp) st xs") (simp_all add: collected_append par_reads_def)
qed

end
