(* ===== verification/WorkerOrder.thy ===== *)
theory WorkerOrder
  imports WorkerSteps
begin

section \<open>Concurrent handlers serve requests in one sequence\<close>

text \<open>
  Linearisation: whatever handlers run at the same time, the requests dispatched, in the order in
  which they were dispatched, are a sequence that \<open>serve_all\<close> explains. The answers reach the
  wires in the order in which they were posted, which need not be that order.
\<close>

subsection \<open>What the threads hold\<close>

lemma concat_at:
  assumes "t < n"
  shows "mset (concat (map (f(t := x)) [0..<n])) + mset (f t) = mset (concat (map f [0..<n])) + mset x"
proof -
  have split: "[0..<n] = [0..<t] @ t # [Suc t..<n]"
    using assms upt_add_eq_append [of 0 t "n - t"] by (simp add: upt_conv_Cons)
  have "map (f(t := x)) [0..<t] = map f [0..<t]" "map (f(t := x)) [Suc t..<n] = map f [Suc t..<n]" by simp_all
  then show ?thesis by (simp add: split)
qed

definition held_by :: "'w par \<Rightarrow> nat \<Rightarrow> served list" where
  "held_by p t = (case p_work p t of
       Some (k, Taken m) \<Rightarrow> [(k, ss_suppress (sv_objs (p_srv p) ! k), m)] | _ \<Rightarrow> [])"

definition owed_by :: "'w par \<Rightarrow> nat \<Rightarrow> (nat \<times> response) list" where
  "owed_by p t = (case p_work p t of Some (k, Posting ts) \<Rightarrow> map (Pair k) (responses_in ts) | _ \<Rightarrow> [])"

definition in_hand :: "'w par \<Rightarrow> served list" where
  "in_hand p = concat (map (held_by p) [0..<length (sv_threads (p_srv p))])"

definition unposted :: "'w par \<Rightarrow> (nat \<times> response) list" where
  "unposted p = concat (map (owed_by p) [0..<length (sv_threads (p_srv p))])"

lemma in_hand_update:
  assumes "t < length (sv_threads (p_srv p))" and "length (sv_threads v) = length (sv_threads (p_srv p))"
    and "\<And>k. ss_suppress (sv_objs v ! k) = ss_suppress (sv_objs (p_srv p) ! k)"
  shows "mset (in_hand (p\<lparr>p_srv := v, p_work := (p_work p)(t := x)\<rparr>)) + mset (held_by p t) =
    mset (in_hand p) + mset (held_by (p\<lparr>p_work := (p_work p)(t := x)\<rparr>) t)"
proof -
  let ?p = "p\<lparr>p_work := (p_work p)(t := x)\<rparr>"
  have "held_by (p\<lparr>p_srv := v, p_work := (p_work p)(t := x)\<rparr>) = (held_by p)(t := held_by ?p t)"
    by (auto simp: held_by_def fun_eq_iff assms(3) split: option.splits work.splits)
  then show ?thesis using concat_at [OF assms(1), of "held_by p" "held_by ?p t"] by (simp add: in_hand_def assms(2))
qed

lemma unposted_update:
  assumes "t < length (sv_threads (p_srv p))" and "length (sv_threads v) = length (sv_threads (p_srv p))"
  shows "mset (unposted (p\<lparr>p_srv := v, p_work := (p_work p)(t := x)\<rparr>)) + mset (owed_by p t) =
    mset (unposted p) + mset (owed_by (p\<lparr>p_work := (p_work p)(t := x)\<rparr>) t)"
proof -
  let ?p = "p\<lparr>p_work := (p_work p)(t := x)\<rparr>"
  have "owed_by (p\<lparr>p_srv := v, p_work := (p_work p)(t := x)\<rparr>) = (owed_by p)(t := owed_by ?p t)"
    by (auto simp: owed_by_def fun_eq_iff)
  then show ?thesis using concat_at [OF assms(1), of "owed_by p" "owed_by ?p t"] by (simp add: unposted_def assms(2))
qed

subsection \<open>What a whole handler leaves alone\<close>

text \<open>Whatever runs as a whole, the sessions keep their flags, a session's read is only touched by
  an event of its reader, and a thread's thread-local objects only by its own handlers.\<close>

definition same_flags :: "bool \<Rightarrow> sess \<Rightarrow> sess \<Rightarrow> bool" where
  "same_flags reads s s' \<longleftrightarrow> ss_suppress s' = ss_suppress s \<and> (reads \<or> ss_reading s' = ss_reading s)"

definition keeps_flags :: "nat set \<Rightarrow> 'w srv \<Rightarrow> 'w srv \<Rightarrow> bool" where
  "keeps_flags K v v' \<longleftrightarrow> length (sv_objs v) \<le> length (sv_objs v') \<and>
     (\<forall>k < length (sv_objs v). same_flags (k \<in> K) (sv_objs v ! k) (sv_objs v' ! k))"

definition keeps_locals :: "nat \<Rightarrow> 'w srv \<Rightarrow> 'w srv \<Rightarrow> bool" where
  "keeps_locals t v v' \<longleftrightarrow> length (sv_threads v) \<le> length (sv_threads v') \<and>
     (\<forall>u < length (sv_threads v). u \<noteq> t \<longrightarrow> th_local (thread_at v' u) = th_local (thread_at v u))"

lemma same_flags_simps [simp]:
  "same_flags r s s" "same_flags r s (session_close s')  = same_flags r s s'"
  by (simp_all add: same_flags_def)

lemma keeps_flags_objs: "sv_objs v' = sv_objs v \<Longrightarrow> keeps_flags K v v'"
  by (simp add: keeps_flags_def)

lemma keeps_flags_close_all: "keeps_flags K v v' \<Longrightarrow> keeps_flags K v (close_sessions t v')"
proof -
  assume keeps: "keeps_flags K v v'"
  have "same_flags (k \<in> K) (sv_objs v ! k) (close_all ks (sv_objs v') ! k)" if "k < length (sv_objs v)" for k ks
    using that keeps close_all_keeps [of "same_flags (k \<in> K) (sv_objs v ! k)" k "sv_objs v'" ks]
    by (auto simp: keeps_flags_def)
  with keeps show ?thesis by (simp add: keeps_flags_def)
qed

lemma keeps_flags_update:
  "k < length (sv_objs v) \<Longrightarrow> same_flags (k \<in> K) (sv_objs v ! k) s \<Longrightarrow>
     keeps_flags K v (v\<lparr>sv_objs := (sv_objs v)[k := s]\<rparr>)"
  by (simp add: keeps_flags_def nth_list_update)

lemma keeps_locals_threads: "sv_threads v' = sv_threads v \<Longrightarrow> keeps_locals t v v'"
  by (simp add: keeps_locals_def thread_at_def)

definition reader_of :: "srv_event \<Rightarrow> nat set" where
  "reader_of e = (case e of SessionStep t k se \<Rightarrow> (case se of Read rr \<Rightarrow> {k} | _ \<Rightarrow> {}) | _ \<Rightarrow> {})"

lemma session_step_keeps:
  assumes "session_step mp t k se v = Inr v'" and "k < length (sv_objs v)"
  shows "keeps_flags (reader_of (SessionStep t k se)) v v' \<and> keeps_locals t v v'"
  using assms(1)
proof (cases rule: session_step_cases)
  case (strand s pc)
  let ?v = "v\<lparr>sv_objs := (sv_objs v)[k := s]\<rparr>"
  have "keeps_flags K v ?v" for K
    using run_strand_frames [OF strand(2)] by (intro keeps_flags_update [OF assms(2)]) (simp add: same_flags_def)
  then have "keeps_flags K v (close_sessions t ?v)" "keeps_flags K v (close_session k ?v)" "keeps_flags K v ?v" for K
    using keeps_flags_close_all [of K v ?v t] by (simp_all add: close_session_def keeps_flags_def)
  moreover have "v' = ?v \<or> v' = close_session k ?v \<or> v' = close_sessions t ?v"
    using strand(3) by (auto simp: parent_calls_def split: if_splits)
  moreover from this have "sv_threads v' = sv_threads v"
    by (auto simp: close_session_def close_sessions_def Let_def)
  ultimately show ?thesis by (auto intro: keeps_locals_threads)
next
  case (own s c)
  have "ss_suppress s = ss_suppress (sv_objs v ! k)" by (rule sess_step_suppress [OF own(3)])
  moreover have "ss_reading s = ss_reading (sv_objs v ! k)" if "\<forall>rr. se \<noteq> Read rr"
    using own that by (cases se)
      (auto simp: sess_step_def run_job_def session_on_write_def with_writer_def map_sum_def post_tasks_def
        split: if_splits prod.splits sum.splits)
  ultimately have "same_flags (k \<in> reader_of (SessionStep t k se)) (sv_objs v ! k) s"
    by (cases se) (auto simp: same_flags_def reader_of_def)
  from keeps_flags_update [OF assms(2) this] show ?thesis
    by (auto simp: own(4) keeps_flags_def keeps_locals_def leave_ctx_def thread_at_def)
qed (simp add: keeps_flags_def keeps_locals_def)

lemma on_accept_keeps:
  "on_accept mp t ok v = Inr v' \<Longrightarrow> keeps_flags K v v' \<and> keeps_locals t v v'"
  by (auto simp: on_accept_def start_accept_def Let_def keeps_flags_def keeps_locals_def thread_at_def nth_append
      split: if_splits sum.splits)

lemma srv_step_keeps_flags:
  assumes "srv_step mp v e = Inr v'"
  shows "keeps_flags (reader_of e) v v' \<and> keeps_locals (thread_of e) v v'"
proof (cases e)
  case (AcceptDone t ok)
  with assms on_accept_keeps [of mp t ok v v' "{}"] show ?thesis
    by (auto simp: srv_step_def reader_of_def thread_of_def keeps_flags_def keeps_locals_def split: if_splits)
next
  case (SessionStep t k se)
  with assms session_step_keeps [of mp t k se v v'] show ?thesis
    by (auto simp: srv_step_def thread_of_def keeps_flags_def keeps_locals_def split: if_splits)
next
  case CloseAllCalled
  with assms keeps_flags_close_all [of "{}" v v 0] show ?thesis
    by (auto simp: srv_step_def reader_of_def keeps_flags_def keeps_locals_def close_sessions_def Let_def
        thread_at_def split: if_splits)
qed (use assms in \<open>auto simp: srv_step_def keeps_flags_def keeps_locals_def thread_of_def thread_at_def
    async_run_def enter_loop_def leave_loop_def set_state_def suppress_exceptions_def stop_server_def impl_stop_def
    Let_def prod.case_eq_if nth_append nth_list_update split: if_splits\<close>)

subsection \<open>The invariant\<close>

text \<open>
  The requests dispatched so far are served in that order by \<open>serve_all\<close>; every session has lost to
  them, or to a thread that has taken a job, what it has decoded and not kept; and of the answers
  some have been posted, in some order, while threads still hold the others. \<open>hist\<close> are the
  requests dispatched.
\<close>

definition accounts ::
  "msgpack \<Rightarrow> 'w dispatcher \<Rightarrow> 'w \<Rightarrow> served list \<Rightarrow> 'w par \<Rightarrow> served list \<Rightarrow> (nat \<times> response) list \<Rightarrow> bool" where
  "accounts mp d w0 hist p taken posted \<longleftrightarrow> mset taken = mset hist + mset (in_hand p) \<and>
     (\<exists>as. serve_all mp d hist w0 = (as, Some (sv_world (p_srv p))) \<and> sendable mp (map snd as) \<and>
        mset as = mset posted + mset (unposted p))"

definition reads_for :: "'w par \<Rightarrow> nat \<Rightarrow> nat \<Rightarrow> bool" where
  "reads_for p t k \<longleftrightarrow> p_work p t \<in> {Some (k, Decoding), Some (k, Rearming)}"

definition busy_ok :: "'w par \<Rightarrow> bool" where
  "busy_ok p \<longleftrightarrow>
     (\<forall>t k wk. p_work p t = Some (k, wk) \<longrightarrow>
        t < length (sv_threads (p_srv p)) \<and> k < length (sv_objs (p_srv p)) \<and>
        (wk \<in> {Decoding, Rearming} \<longrightarrow> ss_reading (sv_objs (p_srv p) ! k)) \<and>
        (\<forall>m. wk = Taken m \<longrightarrow>
           in_thread (p_srv p) t = reset_ctx (of_nat k) (fresh_ctx (sv_world (p_srv p))))) \<and>
     (\<forall>t u k. reads_for p t k \<longrightarrow> reads_for p u k \<longrightarrow> t = u)"

definition linear ::
  "msgpack \<Rightarrow> 'w dispatcher \<Rightarrow> ('w \<Rightarrow> bool) \<Rightarrow> (nat \<Rightarrow> mobj list) \<Rightarrow> 'w \<Rightarrow> (nat \<Rightarrow> bytes) \<Rightarrow> served list \<Rightarrow>
     'w par \<Rightarrow> bool" where
  "linear mp d P obs w0 unread hist p \<longleftrightarrow> busy_ok p \<and> P (sv_world (p_srv p)) \<and>
     tracked (accounts mp d w0 hist p) mp d obs unread (p_srv p)"

text \<open>A request that is served twice is accounted for twice, wherever it stands in the sequence.\<close>

lemma accounted_mset:
  assumes "mset h' = mset h"
  shows "accounted mp obs un h' as k s \<longleftrightarrow> accounted mp obs un h as k s"
proof -
  have "mset (requests_of k h') = mset (requests_of k h)"
    using assms by (simp add: requests_of_def)
  moreover have "set h' = set h" using assms by (metis set_mset_mset)
  ultimately show ?thesis by (simp add: accounted_def)
qed

lemma in_thread_local:
  "in_thread v t = reset_ctx i (fresh_ctx w) \<longleftrightarrow>
     sv_world v = w \<and> (let l = th_local (thread_at v t); r = reset_ctx i (fresh_ctx ()) in
       handler l = handler r \<and> session l = session r \<and> server l = server r)"
  by (auto simp: in_thread_def reset_ctx_eq fresh_ctx_def Let_def)

lemma whole_linear:
  assumes laws: "codec_laws mp" "view_laws mp" "buffer_laws mp" "\<forall>k. well_packed (obs k)"
    and inv: "linear mp d P obs w0 unread hist p" and whole: "runs_whole p e"
    and step: "srv_step mp (p_srv p) e = Inr v"
  shows "linear mp d P obs w0 unread hist (p\<lparr>p_srv := v\<rparr>)"
proof -
  let ?v = "p_srv p" and ?p = "p\<lparr>p_srv := v\<rparr>"
  have silent: "bytes_read k ?v e = []" for k
    using whole by (auto simp: bytes_read_def runs_whole_def event_bytes_def split: srv_event.splits
        sess_event.splits read_result.splits)
  have "serves_nothing ?v e" using whole by (auto simp: serves_nothing_def runs_whole_def)
  with srv_step_tracked [OF laws _ this step, of "accounts mp d w0 hist p" d unread] inv silent
  have tr: "tracked (accounts mp d w0 hist p) mp d obs unread v" "sv_world v = sv_world ?v"
    by (simp_all add: linear_def)
  note keeps = srv_step_keeps_flags [OF step]
  have objs: "length (sv_objs ?v) \<le> length (sv_objs v)" "length (sv_threads ?v) \<le> length (sv_threads v)"
    using keeps by (simp_all add: keeps_flags_def keeps_locals_def)
  have busy: "busy_ok p" using inv by (simp add: linear_def)
  have held: "p_work p t = Some (k, wk) \<Longrightarrow> t < length (sv_threads ?v) \<and> k < length (sv_objs ?v) \<and> t \<noteq> thread_of e" for t k wk
    using busy whole by (auto simp: busy_ok_def runs_whole_def)
  have flags: "ss_suppress (sv_objs v ! k) = ss_suppress (sv_objs ?v ! k)" if "k < length (sv_objs ?v)" for k
    using keeps that by (simp add: keeps_flags_def same_flags_def)
  have reading: "ss_reading (sv_objs v ! k) = ss_reading (sv_objs ?v ! k)"
    if "p_work p t \<in> {Some (k, Decoding), Some (k, Rearming)}" for t k
  proof -
    have k: "k < length (sv_objs ?v)" "t < length (sv_threads ?v)" using held that by auto
    then have "reader_busy p k" using that by (auto simp: reader_busy_def)
    then have "k \<notin> reader_of e"
      using whole by (auto simp: reader_of_def runs_whole_def split: srv_event.splits sess_event.splits
          read_result.splits)
    with keeps k(1) show ?thesis by (auto simp: keeps_flags_def same_flags_def)
  qed
  have same: "held_by ?p t = held_by p t" "owed_by ?p t = owed_by p t" for t
    using held flags by (auto simp: held_by_def owed_by_def split: option.splits work.splits)
  have nothing_new: "p_work p t = None" if "length (sv_threads ?v) \<le> t" for t
    using held that by (cases "p_work p t") (auto simp: not_le [symmetric])
  have upto: "concat (map f [0..<length (sv_threads v)]) = concat (map f [0..<length (sv_threads ?v)])"
    if "\<And>t. length (sv_threads ?v) \<le> t \<Longrightarrow> f t = []" for f :: "nat \<Rightarrow> 'c list"
    using objs(2) that by (auto simp: upt_add_eq_append [of 0 "length (sv_threads ?v)"] dest!: le_Suc_ex)
  have none: "held_by p t = []" "owed_by p t = []" if "length (sv_threads ?v) \<le> t" for t
    using nothing_new [OF that] by (simp_all add: held_by_def owed_by_def)
  have "held_by ?p = held_by p" "owed_by ?p = owed_by p" by (rule ext, rule same)+
  then have "in_hand ?p = in_hand p" "unposted ?p = unposted p"
    using upto [of "held_by p"] upto [of "owed_by p"] none by (simp_all add: in_hand_def unposted_def)
  then have "accounts mp d w0 hist ?p = accounts mp d w0 hist p"
    by (simp add: accounts_def fun_eq_iff tr(2))
  moreover have "busy_ok ?p"
    unfolding busy_ok_def
  proof (intro conjI allI impI)
    fix t k wk
    assume t: "p_work ?p t = Some (k, wk)"
    then have work: "p_work p t = Some (k, wk)" by simp
    with held objs show "t < length (sv_threads (p_srv ?p))" "k < length (sv_objs (p_srv ?p))" by fastforce+
    show "ss_reading (sv_objs (p_srv ?p) ! k)" if "wk \<in> {Decoding, Rearming}"
      using busy work that reading [of t k] by (auto simp: busy_ok_def)
    show "in_thread (p_srv ?p) t = reset_ctx (of_nat k) (fresh_ctx (sv_world (p_srv ?p)))" if "wk = Taken m" for m
    proof -
      have "in_thread ?v t = reset_ctx (of_nat k) (fresh_ctx (sv_world ?v))"
        using busy work that by (simp add: busy_ok_def)
      moreover have "th_local (thread_at v t) = th_local (thread_at ?v t)"
        using keeps held [OF work] by (simp add: keeps_locals_def)
      ultimately show ?thesis by (simp add: in_thread_local Let_def)
    qed
  next
    fix t u k
    assume "reads_for ?p t k" "reads_for ?p u k"
    then have "reads_for p t k" "reads_for p u k" by (simp_all add: reads_for_def)
    with busy show "t = u" unfolding busy_ok_def by blast
  qed
  ultimately show ?thesis using tr inv by (simp add: linear_def)
qed

subsection \<open>Every step keeps it\<close>

lemma busy_ok_facts:
  assumes "busy_ok p"
  shows "p_work p t = Some (k, wk) \<Longrightarrow> t < length (sv_threads (p_srv p)) \<and> k < length (sv_objs (p_srv p))"
    and "reads_for p t k \<Longrightarrow> ss_reading (sv_objs (p_srv p) ! k)"
    and "reads_for p t k \<Longrightarrow> reads_for p u k \<Longrightarrow> t = u"
    and "p_work p t = Some (k, Taken m) \<Longrightarrow>
      in_thread (p_srv p) t = reset_ctx (of_nat k) (fresh_ctx (sv_world (p_srv p)))"
proof -
  show "p_work p t = Some (k, wk) \<Longrightarrow> t < length (sv_threads (p_srv p)) \<and> k < length (sv_objs (p_srv p))"
    using assms unfolding busy_ok_def by blast
  show "reads_for p t k \<Longrightarrow> ss_reading (sv_objs (p_srv p) ! k)"
    using assms by (auto simp: busy_ok_def reads_for_def)
  show "reads_for p t k \<Longrightarrow> reads_for p u k \<Longrightarrow> t = u"
    using assms unfolding busy_ok_def by blast
  show "p_work p t = Some (k, Taken m) \<Longrightarrow>
      in_thread (p_srv p) t = reset_ctx (of_nat k) (fresh_ctx (sv_world (p_srv p)))"
    using assms by (simp add: busy_ok_def)
qed

lemma busy_okI:
  assumes busy: "busy_ok p" and t: "t < length (sv_threads (p_srv p))"
    and keeps: "keeps_locals t (p_srv p) v" "length (sv_objs v) = length (sv_objs (p_srv p))"
    and new: "\<And>k wk. x = Some (k, wk) \<Longrightarrow> k < length (sv_objs v) \<and>
      (wk \<in> {Decoding, Rearming} \<longrightarrow> ss_reading (sv_objs v ! k) \<and> (\<forall>u. u \<noteq> t \<longrightarrow> \<not> reads_for p u k)) \<and>
      (\<forall>m. wk = Taken m \<longrightarrow> in_thread v t = reset_ctx (of_nat k) (fresh_ctx (sv_world v)))"
    and reading: "\<And>u k. u \<noteq> t \<Longrightarrow> reads_for p u k \<Longrightarrow> ss_reading (sv_objs v ! k)"
  shows "busy_ok (p\<lparr>p_srv := v, p_work := (p_work p)(t := x)\<rparr>)"
proof -
  let ?p = "p\<lparr>p_srv := v, p_work := (p_work p)(t := x)\<rparr>"
  have len: "length (sv_threads (p_srv p)) \<le> length (sv_threads v)" using keeps(1) by (simp add: keeps_locals_def)
  have old: "u < length (sv_threads v) \<and> k < length (sv_objs v) \<and>
      (wk \<in> {Decoding, Rearming} \<longrightarrow> ss_reading (sv_objs v ! k)) \<and>
      (\<forall>m. wk = Taken m \<longrightarrow> in_thread v u = reset_ctx (of_nat k) (fresh_ctx (sv_world v)))"
    if u: "u \<noteq> t" "p_work p u = Some (k, wk)" for u k wk
  proof -
    note facts = busy_ok_facts(1) [OF busy u(2)]
    have "in_thread v u = reset_ctx (of_nat k) (fresh_ctx (sv_world v))" if "wk = Taken m" for m
    proof -
      have "in_thread (p_srv p) u = reset_ctx (of_nat k) (fresh_ctx (sv_world (p_srv p)))"
        using busy_ok_facts(4) [OF busy, of u k m] u(2) that by simp
      moreover have "th_local (thread_at v u) = th_local (thread_at (p_srv p) u)"
        using keeps(1) facts u(1) by (simp add: keeps_locals_def)
      ultimately show ?thesis by (simp add: in_thread_local Let_def)
    qed
    moreover have "wk \<in> {Decoding, Rearming} \<longrightarrow> ss_reading (sv_objs v ! k)"
      using reading [OF u(1), of k] u(2) by (auto simp: reads_for_def)
    ultimately show ?thesis using facts len keeps(2) by auto
  qed
  have others: "reads_for ?p u k \<longleftrightarrow> reads_for p u k" if "u \<noteq> t" for u k
    using that by (simp add: reads_for_def)
  have alone: "\<not> reads_for p u k" if "reads_for ?p t k" "u \<noteq> t" for u k
    using that(1) new [of k] that(2) by (auto simp: reads_for_def)
  have "u = w" if "reads_for ?p u k" "reads_for ?p w k" for u w k
  proof (cases "u = t \<or> w = t")
    case True
    then show ?thesis using that alone others by metis
  next
    case False
    then show ?thesis using that others busy_ok_facts(3) [OF busy] by metis
  qed
  moreover have "u < length (sv_threads v) \<and> k < length (sv_objs v) \<and>
      (wk \<in> {Decoding, Rearming} \<longrightarrow> ss_reading (sv_objs v ! k)) \<and>
      (\<forall>m. wk = Taken m \<longrightarrow> in_thread v u = reset_ctx (of_nat k) (fresh_ctx (sv_world v)))"
    if "p_work ?p u = Some (k, wk)" for u k wk
  proof (cases "u = t")
    case True
    then have "x = Some (k, wk)" using that by simp
    from new [OF this] show ?thesis using True t len by simp
  next
    case False
    then show ?thesis using that by (intro old) simp_all
  qed
  ultimately show ?thesis unfolding busy_ok_def by simp
qed

text \<open>A step of the reader of session \<open>k\<close>: it changes that session, and no job.\<close>

definition readish :: "(nat \<times> work) option \<Rightarrow> bool" where
  "readish x \<longleftrightarrow> (case x of None \<Rightarrow> True | Some (k, wk) \<Rightarrow> wk \<in> {Decoding, Rearming})"

lemma reader_linear:
  assumes inv: "linear mp d P obs w0 pre hist p"
    and k: "k < length (sv_objs (p_srv p))" and t: "t < length (sv_threads (p_srv p))"
    and work: "readish (p_work p t)" "\<forall>wk. x = Some wk \<longrightarrow> wk \<in> {Decoding, Rearming}"
    and others: "\<And>j. j \<noteq> k \<Longrightarrow> pre j = post j" "\<And>u. u \<noteq> t \<Longrightarrow> \<not> reads_for p u k"
    and here: "\<And>hist as. accounted mp (obs k) (pre k) hist as k (sv_objs (p_srv p) ! k) \<Longrightarrow>
      accounted mp (obs k) (post k) hist as k s"
    and kept: "ss_suppress s = ss_suppress (sv_objs (p_srv p) ! k)" "x \<noteq> None \<longrightarrow> ss_reading s"
  shows "linear mp d P obs w0 post hist
    (p\<lparr>p_srv := put_session k s (p_srv p), p_work := (p_work p)(t := map_option (Pair k) x)\<rparr>)"
proof -
  let ?v = "put_session k s (p_srv p)" and ?x = "map_option (Pair k) x"
  let ?p = "p\<lparr>p_srv := ?v, p_work := (p_work p)(t := ?x)\<rparr>"
  have busy: "busy_ok p" using inv by (simp add: linear_def)
  have flags: "ss_suppress (sv_objs ?v ! j) = ss_suppress (sv_objs (p_srv p) ! j)" for j
    using kept(1) k by (cases "j = k") auto
  have none: "held_by p t = []" "owed_by p t = []" "held_by (p\<lparr>p_work := (p_work p)(t := ?x)\<rparr>) t = []"
      "owed_by (p\<lparr>p_work := (p_work p)(t := ?x)\<rparr>) t = []"
    using work by (auto simp: held_by_def owed_by_def readish_def split: option.splits work.splits)
  have "mset (in_hand ?p) = mset (in_hand p)" "mset (unposted ?p) = mset (unposted p)"
    using in_hand_update [OF t _ flags, of ?x] unposted_update [OF t, of ?v ?x] none by simp_all
  then have same: "accounts mp d w0 hist ?p = accounts mp d w0 hist p"
    by (simp add: accounts_def fun_eq_iff)
  have "tracked (accounts mp d w0 hist p) mp d obs post ((p_srv p)\<lparr>sv_objs := (sv_objs (p_srv p))[k := s]\<rparr>)"
    using inv k others(1) here by (intro tracked_session [where pre = pre]) (simp_all add: linear_def)
  then have "tracked (accounts mp d w0 hist ?p) mp d obs post ?v"
    unfolding same by (simp add: put_session_def)
  moreover have "busy_ok ?p"
  proof (rule busy_okI [OF busy t])
    show "keeps_locals t (p_srv p) ?v" by (rule keeps_locals_threads) simp
    show "ss_reading (sv_objs ?v ! j)" if "u \<noteq> t" "reads_for p u j" for u j
      using busy_ok_facts(2) [OF busy that(2)] that others(2) by (cases "j = k") auto
    show "j < length (sv_objs ?v) \<and>
      (wk \<in> {Decoding, Rearming} \<longrightarrow> ss_reading (sv_objs ?v ! j) \<and> (\<forall>u. u \<noteq> t \<longrightarrow> \<not> reads_for p u j)) \<and>
      (\<forall>m. wk = Taken m \<longrightarrow> in_thread ?v t = reset_ctx (of_nat j) (fresh_ctx (sv_world ?v)))"
      if "?x = Some (j, wk)" for j wk
      using that k kept(2) work(2) others(2) by auto
  qed simp
  ultimately show ?thesis using inv by (simp add: linear_def)
qed

text \<open>The steps of the read handler follow the stream.\<close>

lemma unpacker_next_stream:
  assumes "codec_laws mp" and "well_packed later" and "u_buf u @ unread = stream mp later"
  shows "unpacker_next mp u = NoObject \<or>
    (\<exists>ob es b. later = ob # es \<and> unpacker_next mp u = NextObject ob (u\<lparr>u_buf := b\<rparr>) \<and> b @ unread = stream mp es)"
proof -
  have pk: "\<forall>ob \<in> set later. packable ob" using assms(2) by (simp add: well_packed_def)
  from stream_cut [OF assms(1) pk assms(3)] obtain ds es tail where cut: "later = ds @ es"
      "u_buf u = stream mp ds @ tail" "mp_parse mp tail = Insufficient" "tail @ unread = stream mp es"
    by blast
  show ?thesis
  proof (cases ds)
    case Nil
    then show ?thesis using cut(2,3) by (simp add: unpacker_next_def stream_def)
  next
    case (Cons ob rest)
    then have "unpacker_next mp u = NextObject ob (u\<lparr>u_buf := stream mp rest @ tail\<rparr>)"
      using cut(1,2) pk parse_pack [OF assms(1)] by (simp add: unpacker_next_def)
    moreover have "later = ob # (rest @ es)" "(stream mp rest @ tail) @ unread = stream mp (rest @ es)"
      using cut(1,4) Cons by (simp_all add: stream_def)
    ultimately show ?thesis by blast
  qed
qed

lemma accounted_rest:
  assumes "accounted mp obs pre hist as k s" and "ss_reading s"
  obtains later where "mset obs = mset (requests_of k hist) + mset (ss_jobs s) + mset later"
    and "u_buf (ss_unpac s) @ pre = stream mp later" and "well_packed obs \<Longrightarrow> well_packed later"
proof -
  obtain later where later: "mset obs = mset (requests_of k hist) + mset (ss_jobs s) + mset later"
      "u_buf (ss_unpac s) @ pre = stream mp later"
    using assms by (auto simp: accounted_def)
  then have "set later \<subseteq> set obs" by (metis mset_subset_eq_add_right set_mset_mono set_mset_mset)
  then have "well_packed obs \<Longrightarrow> well_packed later" by (auto simp: well_packed_def)
  with later that show ?thesis by blast
qed

lemma chunk_arrives_accounted:
  assumes "accounted mp obs (bs @ unread) hist as k s" and "ss_reading s" and "chunk_arrives bs s = (x, s')"
  shows "accounted mp obs unread hist as k s' \<and> ss_suppress s' = ss_suppress s \<and>
    (x \<noteq> None \<longrightarrow> x = Some Decoding \<and> ss_reading s')"
proof -
  obtain later where "mset obs = mset (requests_of k hist) + mset (ss_jobs s) + mset later"
      "u_buf (ss_unpac s) @ bs @ unread = stream mp later"
    using assms(1,2) by (rule accounted_rest)
  with assms show ?thesis
    by (auto simp: chunk_arrives_def accounted_def buffer_consumed_def split: if_splits intro!: exI [of _ later])
qed

lemma decode_next_accounted:
  assumes "codec_laws mp" "well_packed obs" and acc: "accounted mp obs unread hist as k s" and reading: "ss_reading s"
  shows "\<exists>x s'. decode_next mp s = Inr (x, s') \<and> accounted mp obs unread hist as k s' \<and>
    ss_suppress s' = ss_suppress s \<and> (x \<noteq> None \<longrightarrow> x \<in> {Some Decoding, Some Rearming} \<and> ss_reading s')"
proof -
  obtain later where later: "mset obs = mset (requests_of k hist) + mset (ss_jobs s) + mset later"
      "u_buf (ss_unpac s) @ unread = stream mp later" "well_packed later"
    using accounted_rest [OF acc reading] assms(2) by blast
  from unpacker_next_stream [OF assms(1) later(3,2)] show ?thesis
  proof (elim disjE exE conjE)
    assume "unpacker_next mp (ss_unpac s) = NoObject"
    with acc reading show ?thesis by (simp add: decode_next_def)
  next
    fix ob es b
    assume next_ob: "later = ob # es" "unpacker_next mp (ss_unpac s) = NextObject ob ((ss_unpac s)\<lparr>u_buf := b\<rparr>)"
      "b @ unread = stream mp es"
    show ?thesis
    proof (cases "is_closed (ss_writer s)")
      case True
      then show ?thesis using acc next_ob later(1) by (auto simp: decode_next_def accounted_def)
    next
      case False
      then show ?thesis
        using acc next_ob later(1) reading by (auto simp: decode_next_def accounted_def intro!: exI [of _ es])
    qed
  qed
qed

lemma read_again_accounted:
  assumes "buffer_laws mp" and acc: "accounted mp obs unread hist as k s" and "ss_reading s"
  shows "\<exists>s'. read_again mp s = Inr (None, s') \<and> accounted mp obs unread hist as k s' \<and>
    ss_suppress s' = ss_suppress s"
proof (cases "is_closed (ss_writer s)")
  case True
  with acc show ?thesis by (auto simp: read_again_def accounted_def)
next
  case False
  have "session_do_read (s\<lparr>ss_reading := False, ss_unpac := reserve_if_low mp (ss_unpac s)\<rparr>) =
      Inr (s\<lparr>ss_unpac := reserve_if_low mp (ss_unpac s), ss_reading := True\<rparr>)"
    using session_do_read_reserved [OF assms(1), of "s\<lparr>ss_reading := False\<rparr>"] by simp
  with False acc assms(3) show ?thesis by (auto simp: read_again_def accounted_def)
qed

text \<open>The steps of a job.\<close>

lemma tracked_mono:
  "tracked Q mp d obs unread v \<Longrightarrow> (\<And>hist as. Q hist as \<Longrightarrow> Q' hist as) \<Longrightarrow> tracked Q' mp d obs unread v"
  unfolding tracked_def by blast

lemma tracked_extend:
  assumes "tracked Q mp d obs unread v" and "k < length (sv_objs v)"
    and rest: "\<And>hist as. Q hist as \<Longrightarrow>
      Q' (hist @ map (\<lambda>m. (k, ss_suppress (sv_objs v ! k), m)) ms) (as @ map (Pair k) rs) \<and> sendable mp rs"
    and here: "\<And>hist as. accounted mp (obs k) (unread k) hist as k (sv_objs v ! k) \<Longrightarrow>
      accounted mp (obs k) (unread k) (hist @ map (\<lambda>m. (k, ss_suppress (sv_objs v ! k), m)) ms)
        (as @ map (Pair k) rs) k s"
  shows "tracked Q' mp d obs unread (v\<lparr>sv_objs := (sv_objs v)[k := s]\<rparr>)"
proof -
  obtain hist as where h: "Q hist as" "sendable mp (map snd as)"
      "\<forall>h \<in> set hist. fst h < length (sv_objs v)" "\<forall>a \<in> set as. fst a < length (sv_objs v)"
      "\<forall>k < length (sv_objs v). accounted mp (obs k) (unread k) hist as k (sv_objs v ! k)"
    using assms(1) unfolding tracked_def by blast
  let ?hist = "hist @ map (\<lambda>m. (k, ss_suppress (sv_objs v ! k), m)) ms" and ?as = "as @ map (Pair k) rs"
  have other: "requests_of j (map (\<lambda>m. (k, ss_suppress (sv_objs v ! k), m)) ms) = []" if "j \<noteq> k" for j
    using that by (simp add: requests_of_def filter_empty_conv)
  have "accounted mp (obs j) (unread j) ?hist ?as j (sv_objs v ! j)"
    if "j < length (sv_objs v)" "j \<noteq> k" for j
    using h(5) that other [OF that(2)] by (auto simp: accounted_def)
  then have "accounted mp (obs j) (unread j) ?hist ?as j ((sv_objs v)[k := s] ! j)" if "j < length (sv_objs v)" for j
    using that here h(5) assms(2) by (cases "j = k") auto
  moreover have "sendable mp (map snd ?as)" using h(2) rest [OF h(1)] by (auto simp: sendable_def)
  ultimately show ?thesis
    using assms(1,2) h rest [OF h(1)] unfolding tracked_def
    by (intro conjI exI [of _ ?hist] exI [of _ ?as]) auto
qed

lemma jobs_without:
  "i < length js \<Longrightarrow> mset js = add_mset (js ! i) (mset (take i js @ drop (Suc i) js))"
proof -
  assume "i < length js"
  then have "mset js = mset (take i js @ js ! i # drop (Suc i) js)" by (simp flip: id_take_nth_drop)
  then show ?thesis by simp
qed

lemma in_thread_left [simp]: "t < length (sv_threads v) \<Longrightarrow> in_thread (leave_ctx t c v) t = c"
  by (simp add: in_thread_def leave_ctx_def thread_at_def)

lemma world_in_thread [simp]: "world (in_thread v t) = sv_world v"
  by (simp add: in_thread_def Let_def)

lemma keeps_locals_leave:
  "sv_threads v' = sv_threads v \<Longrightarrow> keeps_locals t v (leave_ctx t c v')"
  by (auto simp: keeps_locals_def leave_ctx_def thread_at_def)

text \<open>A step after which the thread is not a reader, and no session has stopped or begun to read.\<close>

lemma busy_ok_job:
  assumes busy: "busy_ok p" and t: "t < length (sv_threads (p_srv p))"
    and keeps: "keeps_locals t (p_srv p) v" "length (sv_objs v) = length (sv_objs (p_srv p))"
      "\<And>k. ss_reading (sv_objs v ! k) = ss_reading (sv_objs (p_srv p) ! k)"
    and new: "\<And>k wk. x = Some (k, wk) \<Longrightarrow> k < length (sv_objs v) \<and> wk \<notin> {Decoding, Rearming} \<and>
      (\<forall>m. wk = Taken m \<longrightarrow> in_thread v t = reset_ctx (of_nat k) (fresh_ctx (sv_world v)))"
  shows "busy_ok (p\<lparr>p_srv := v, p_work := (p_work p)(t := x)\<rparr>)"
proof (rule busy_okI [OF busy t keeps(1,2)])
  show "ss_reading (sv_objs v ! k)" if "u \<noteq> t" "reads_for p u k" for u k
    using busy_ok_facts(2) [OF busy that(2)] keeps(3) by simp
qed (use new in auto)

lemma take_linear:
  assumes inv: "linear mp d P obs w0 unread hist p" and free: "p_work p t = None"
    and k: "k < length (sv_objs (p_srv p))" "i < length (ss_jobs (sv_objs (p_srv p) ! k))"
    and t: "t < length (sv_threads (p_srv p))"
  shows "linear mp d P obs w0 unread hist (p\<lparr>p_srv := snd (take_job t k i (p_srv p)),
    p_work := (p_work p)(t \<mapsto> (k, fst (take_job t k i (p_srv p))))\<rparr>)"
proof -
  define s where "s = sv_objs (p_srv p) ! k"
  let ?m = "ss_jobs s ! i" and ?js = "take i (ss_jobs s) @ drop (Suc i) (ss_jobs s)"
  let ?s = "s\<lparr>ss_jobs := ?js\<rparr>" and ?c = "reset_ctx (ss_id s) (in_thread (p_srv p) t)"
  define v where "v = leave_ctx t ?c (put_session k ?s (p_srv p))"
  let ?p = "p\<lparr>p_srv := v, p_work := (p_work p)(t \<mapsto> (k, Taken ?m))\<rparr>"
  have step: "take_job t k i (p_srv p) = (Taken ?m, v)"
    by (simp add: take_job_def v_def s_def Let_def in_thread_def put_session_def thread_at_def)
  have tr: "tracked (accounts mp d w0 hist p) mp d obs unread (p_srv p)" and busy: "busy_ok p"
    using inv by (simp_all add: linear_def)
  have sid: "ss_id s = of_nat k" using tr k(1) by (auto simp: tracked_def accounted_def s_def)
  have world: "sv_world v = sv_world (p_srv p)" by (simp add: v_def reset_ctx_eq fresh_ctx_def)
  have flags: "ss_suppress (sv_objs v ! j) = ss_suppress (sv_objs (p_srv p) ! j)"
    "ss_reading (sv_objs v ! j) = ss_reading (sv_objs (p_srv p) ! j)" for j
    using k(1) by (cases "j = k"; simp add: v_def s_def)+
  have "held_by p t = []" "owed_by p t = []" "owed_by (p\<lparr>p_work := (p_work p)(t \<mapsto> (k, Taken ?m))\<rparr>) t = []"
    "held_by (p\<lparr>p_work := (p_work p)(t \<mapsto> (k, Taken ?m))\<rparr>) t = [(k, ss_suppress s, ?m)]"
    using free by (simp_all add: held_by_def owed_by_def s_def)
  then have hand: "mset (in_hand ?p) = mset (in_hand p) + {#(k, ss_suppress s, ?m)#}" "mset (unposted ?p) = mset (unposted p)"
    using in_hand_update [OF t _ flags(1), of "Some (k, Taken ?m)"]
      unposted_update [OF t, of v "Some (k, Taken ?m)"] by (simp_all add: v_def)
  have "tracked (accounts mp d w0 hist ?p) mp d obs unread ((p_srv p)\<lparr>sv_objs := (sv_objs (p_srv p))[k := ?s]\<rparr>)"
  proof (rule tracked_extend [OF tr k(1), where ms = "[?m]" and rs = "[]"])
    fix h as
    assume "accounts mp d w0 hist p h as"
    with hand world show "accounts mp d w0 hist ?p
        (h @ map (\<lambda>m. (k, ss_suppress (sv_objs (p_srv p) ! k), m)) [?m]) (as @ map (Pair k) []) \<and> sendable mp []"
      by (simp add: accounts_def s_def sendable_def)
  next
    fix h as
    assume "accounted mp (obs k) (unread k) h as k (sv_objs (p_srv p) ! k)"
    moreover have "mset (ss_jobs s) = add_mset ?m (mset ?js)" using jobs_without k(2) by (simp add: s_def)
    ultimately show "accounted mp (obs k) (unread k)
        (h @ map (\<lambda>m. (k, ss_suppress (sv_objs (p_srv p) ! k), m)) [?m]) (as @ map (Pair k) []) k ?s"
      unfolding accounted_def by (auto simp: s_def)
  qed
  then have "tracked (accounts mp d w0 hist ?p) mp d obs unread v"
    by (rule tracked_cong) (simp_all add: v_def)
  moreover have "busy_ok ?p"
  proof (rule busy_ok_job [OF busy t _ _ flags(2)])
    show "keeps_locals t (p_srv p) v" unfolding v_def by (rule keeps_locals_leave) simp
    show "j < length (sv_objs v) \<and> wk \<notin> {Decoding, Rearming} \<and>
        (\<forall>m. wk = Taken m \<longrightarrow> in_thread v t = reset_ctx (of_nat j) (fresh_ctx (sv_world v)))"
      if "Some (k, Taken ?m) = Some (j, wk)" for j wk
    proof -
      have "in_thread v t = ?c" using t by (simp add: v_def)
      also have "\<dots> = reset_ctx (of_nat k) (fresh_ctx (sv_world v))"
        by (simp add: sid world reset_ctx_eq fresh_ctx_def)
      finally show ?thesis using that k(1) by (auto simp: v_def)
    qed
  qed (simp add: v_def)
  ultimately show ?thesis using inv world step by (simp add: linear_def)
qed

lemma taken_request:
  assumes "tracked (accounts mp d w0 hist p) mp d obs unread (p_srv p)" and "busy_ok p"
    and "p_work p t = Some (k, Taken m)"
  shows "m \<in> set (obs k)"
proof -
  have t: "t < length (sv_threads (p_srv p))" "k < length (sv_objs (p_srv p))"
    using busy_ok_facts(1) [OF assms(2,3)] by simp_all
  obtain taken as where h: "accounts mp d w0 hist p taken as"
      "accounted mp (obs k) (unread k) taken as k (sv_objs (p_srv p) ! k)"
    using assms(1) t(2) unfolding tracked_def by blast
  have "(k, ss_suppress (sv_objs (p_srv p) ! k), m) \<in> set (in_hand p)"
    using t(1) assms(3) by (auto simp: in_hand_def held_by_def intro!: bexI [of _ t])
  then have "(k, ss_suppress (sv_objs (p_srv p) ! k), m) \<in># mset taken"
    using h(1) by (simp add: accounts_def)
  then have "m \<in> set (requests_of k taken)" by (force simp: requests_of_def)
  moreover obtain later where "mset (obs k) = mset (requests_of k taken) + later"
    using h(2) by (auto simp: accounted_def add.assoc)
  ultimately have "m \<in># mset (obs k)" by simp
  then show ?thesis by simp
qed

lemma dispatch_linear:
  assumes fit: "answers_fit mp d P obs" and inv: "linear mp d P obs w0 unread hist p"
    and work: "p_work p t = Some (k, Taken m)" and step: "dispatch_job mp t k m (p_srv p) = Inr (x, v)"
  shows "linear mp d P obs w0 unread (hist @ [(k, ss_suppress (sv_objs (p_srv p) ! k), m)])
    (p\<lparr>p_srv := v, p_work := (p_work p)(t := map_option (Pair k) x)\<rparr>)"
proof -
  define s where "s = sv_objs (p_srv p) ! k"
  have tr: "tracked (accounts mp d w0 hist p) mp d obs unread (p_srv p)" and busy: "busy_ok p"
    and P: "P (sv_world (p_srv p))"
    using inv by (simp_all add: linear_def)
  have t: "t < length (sv_threads (p_srv p))" "k < length (sv_objs (p_srv p))"
    using busy_ok_facts(1) [OF busy work] by simp_all
  have d: "sv_disp (p_srv p) = d" "sv_disp_null (p_srv p) = []" using tr by (simp_all add: tracked_def)
  have ctx: "in_thread (p_srv p) t = reset_ctx (of_nat k) (fresh_ctx (sv_world (p_srv p)))"
    by (rule busy_ok_facts(4) [OF busy work])
  obtain resp c where run: "dispatch mp d m (ss_suppress s) (in_thread (p_srv p) t) = (Inr resp, c)"
      and v: "v = leave_ctx t c (p_srv p)" and x: "x = Some (Posting (answer_tasks c resp))"
    using step by (auto simp: dispatch_job_def d s_def split: prod.splits sum.splits)
  let ?ts = "answer_tasks c resp" and ?h = "(k, ss_suppress s, m)"
  let ?p = "p\<lparr>p_srv := v, p_work := (p_work p)(t \<mapsto> (k, Posting ?ts))\<rparr>"
  have served: "process_request mp d (ss_suppress s) (of_nat k) m (fresh_ctx (sv_world (p_srv p))) = (Inr ?ts, c)"
    using run by (simp add: process_request_def flip: ctx)
  have fits: "sendable mp (responses_in ?ts)" "P (world c)"
    using fit taken_request [OF tr busy work] served P unfolding answers_fit_def by blast+
  have flags: "ss_suppress (sv_objs v ! j) = ss_suppress (sv_objs (p_srv p) ! j)"
    "ss_reading (sv_objs v ! j) = ss_reading (sv_objs (p_srv p) ! j)" for j
    by (simp_all add: v)
  have here: "held_by p t = [?h]" "owed_by p t = []"
    "owed_by (p\<lparr>p_work := (p_work p)(t \<mapsto> (k, Posting ?ts))\<rparr>) t = map (Pair k) (responses_in ?ts)"
    "held_by (p\<lparr>p_work := (p_work p)(t \<mapsto> (k, Posting ?ts))\<rparr>) t = []"
    using work by (simp_all add: held_by_def owed_by_def s_def)
  have hand: "mset (in_hand ?p) + {#?h#} = mset (in_hand p)"
    using in_hand_update [OF t(1) _ flags(1), of "Some (k, Posting ?ts)"] by (simp add: v here)
  have owed: "mset (unposted ?p) = mset (unposted p) + mset (map (Pair k) (responses_in ?ts))"
    using unposted_update [OF t(1), of v "Some (k, Posting ?ts)"] by (simp add: v here del: mset_map)
  have "accounts mp d w0 (hist @ [?h]) ?p h as" if acc: "accounts mp d w0 hist p h as" for h as
  proof -
    obtain bs where bs: "serve_all mp d hist w0 = (bs, Some (sv_world (p_srv p)))" "sendable mp (map snd bs)"
        "mset bs = mset as + mset (unposted p)" "mset h = mset hist + mset (in_hand p)"
      using acc by (auto simp: accounts_def)
    let ?bs = "bs @ map (Pair k) (responses_in ?ts)"
    have "serve_all mp d (hist @ [?h]) w0 = (?bs, Some (sv_world (p_srv ?p)))"
      using serve_all_append [OF bs(1), of "[?h]"] served by (simp add: v)
    moreover have "sendable mp (map snd ?bs)" using bs(2) fits(1) by (auto simp: sendable_def)
    moreover have "mset ?bs = mset as + mset (unposted ?p)" using bs(3) owed by (simp del: mset_map)
    moreover have "mset h = mset (hist @ [?h]) + mset (in_hand ?p)" using bs(4) hand by simp
    ultimately show ?thesis unfolding accounts_def by blast
  qed
  then have "tracked (accounts mp d w0 (hist @ [?h]) ?p) mp d obs unread (p_srv p)"
    using tr by (rule tracked_mono [rotated])
  then have "tracked (accounts mp d w0 (hist @ [?h]) ?p) mp d obs unread v"
    by (rule tracked_cong) (simp_all add: v)
  moreover have "busy_ok ?p"
  proof (rule busy_ok_job [OF busy t(1) _ _ flags(2)])
    show "keeps_locals t (p_srv p) v" unfolding v by (rule keeps_locals_leave) simp
  qed (use t in \<open>auto simp: v\<close>)
  ultimately show ?thesis using fits(2) by (simp add: linear_def x v s_def)
qed

lemma post_linear:
  assumes inv: "linear mp d P obs w0 unread hist p"
    and work: "p_work p t = Some (k, Posting ts)" and step: "post_next k ts (p_srv p) = (x, v)"
  shows "linear mp d P obs w0 unread hist (p\<lparr>p_srv := v, p_work := (p_work p)(t := map_option (Pair k) x)\<rparr>)"
proof -
  have tr: "tracked (accounts mp d w0 hist p) mp d obs unread (p_srv p)" and busy: "busy_ok p"
    using inv by (simp_all add: linear_def)
  have t: "t < length (sv_threads (p_srv p))" "k < length (sv_objs (p_srv p))"
    using busy_ok_facts(1) [OF busy work] by simp_all
  define s where "s = sv_objs (p_srv p) ! k"
  define us where "us = take 1 ts"
  let ?s = "post_tasks us s" and ?x = "map_option (Pair k) x"
  let ?p = "p\<lparr>p_srv := v, p_work := (p_work p)(t := ?x)\<rparr>"
  let ?q = "p\<lparr>p_work := (p_work p)(t := ?x)\<rparr>"
  have v: "v = put_session k ?s (p_srv p)"
    using step t(2) by (auto simp: post_next_def us_def s_def put_session_def post_tasks_def split: list.splits)
  have world: "sv_world v = sv_world (p_srv p)" by (simp add: v)
  have flags: "ss_suppress (sv_objs v ! j) = ss_suppress (sv_objs (p_srv p) ! j)"
    "ss_reading (sv_objs v ! j) = ss_reading (sv_objs (p_srv p) ! j)" for j
    using t(2) by (cases "j = k"; simp add: v s_def post_tasks_def)+
  have held: "held_by p t = []" "held_by ?q t = []"
    using work step by (auto simp: held_by_def post_next_def split: list.splits)
  have owed: "owed_by p t = map (Pair k) (responses_in us) @ owed_by ?q t"
    using work step by (cases ts) (auto simp: owed_by_def post_next_def us_def simp flip: map_append responses_in_simps(2))
  have hand: "mset (in_hand ?p) = mset (in_hand p)"
    using in_hand_update [OF t(1) _ flags(1), of ?x] by (simp add: v held)
  have unp: "mset (unposted p) = mset (map (Pair k) (responses_in us)) + mset (unposted ?p)"
    using unposted_update [OF t(1), of v ?x] by (simp add: v owed add.commute del: mset_map)
  have "tracked (accounts mp d w0 hist ?p) mp d obs unread ((p_srv p)\<lparr>sv_objs := (sv_objs (p_srv p))[k := ?s]\<rparr>)"
  proof (rule tracked_extend [OF tr t(2), where ms = "[]" and rs = "responses_in us"])
    fix h as
    assume "accounts mp d w0 hist p h as"
    then obtain bs where bs: "serve_all mp d hist w0 = (bs, Some (sv_world (p_srv p)))" "sendable mp (map snd bs)"
        "mset bs = mset as + mset (unposted p)" "mset h = mset hist + mset (in_hand p)"
      by (auto simp: accounts_def)
    have "(k, r) \<in># mset bs" if "r \<in> set (responses_in us)" for r
      unfolding bs(3) unp using that by simp
    then have "sendable mp (responses_in us)" using bs(2) by (fastforce simp: sendable_def)
    moreover have "mset bs = mset (as @ map (Pair k) (responses_in us)) + mset (unposted ?p)"
      using bs(3) unp by (simp del: mset_map)
    ultimately show "accounts mp d w0 hist ?p (h @ map (\<lambda>m. (k, ss_suppress (sv_objs (p_srv p) ! k), m)) [])
        (as @ map (Pair k) (responses_in us)) \<and> sendable mp (responses_in us)"
      using bs hand world unfolding accounts_def by auto
  next
    fix h as
    assume "accounted mp (obs k) (unread k) h as k (sv_objs (p_srv p) ! k)"
    then show "accounted mp (obs k) (unread k) (h @ map (\<lambda>m. (k, ss_suppress (sv_objs (p_srv p) ! k), m)) [])
        (as @ map (Pair k) (responses_in us)) k ?s"
      using carries_post [of mp "answers_for k as" "ss_writer s" us] by (auto simp: accounted_def s_def)
  qed
  then have "tracked (accounts mp d w0 hist ?p) mp d obs unread v"
    by (rule tracked_cong) (simp_all add: v)
  moreover have "busy_ok ?p"
  proof (rule busy_ok_job [OF busy t(1) _ _ flags(2)])
    show "keeps_locals t (p_srv p) v" by (rule keeps_locals_threads) (simp add: v)
    show "j < length (sv_objs v) \<and> wk \<notin> {Decoding, Rearming} \<and>
        (\<forall>m. wk = Taken m \<longrightarrow> in_thread v t = reset_ctx (of_nat j) (fresh_ctx (sv_world v)))"
      if "?x = Some (j, wk)" for j wk
      using that step t(2) by (auto simp: post_next_def v split: list.splits)
  qed (simp add: v)
  ultimately show ?thesis using inv world by (simp add: linear_def)
qed

end
