(* ===== verification/WorkerServes.thy ===== *)
theory WorkerServes
  imports WorkerOrder
begin

section \<open>Servers whose handlers run at the same time\<close>

text \<open>
  Every run of the machine of \<open>WorkerSteps\<close> keeps the invariant of \<open>WorkerOrder\<close>, so that its
  requests are served in one sequence, and never faults when exceptions are suppressed.
\<close>

subsection \<open>Every step\<close>

lemma advance_linear:
  assumes laws: "codec_laws mp" "buffer_laws mp" "\<forall>k. well_packed (obs k)" and fit: "answers_fit mp d P obs"
    and inv: "linear mp d P obs w0 unread hist p" and work: "p_work p t = Some (k, wk)"
    and step: "advance mp t k wk (p_srv p) = Inr (x, v)"
  shows "linear mp d P obs w0 unread (hist @ dispatched p (Advance t))
    (p\<lparr>p_srv := v, p_work := (p_work p)(t := map_option (Pair k) x)\<rparr>)"
proof -
  have tr: "tracked (accounts mp d w0 hist p) mp d obs unread (p_srv p)" and busy: "busy_ok p"
    using inv by (simp_all add: linear_def)
  have t: "t < length (sv_threads (p_srv p))" and k: "k < length (sv_objs (p_srv p))"
    using busy_ok_facts(1) [OF busy work] by simp_all
  let ?s = "sv_objs (p_srv p) ! k"
  obtain h as where acc: "accounted mp (obs k) (unread k) h as k ?s"
    using tr k unfolding tracked_def by blast
  have reader: "linear mp d P obs w0 unread hist
      (p\<lparr>p_srv := put_session k s' (p_srv p), p_work := (p_work p)(t := map_option (Pair k) x)\<rparr>)"
    if wk: "wk \<in> {Decoding, Rearming}" and x: "\<forall>y. x = Some y \<longrightarrow> y \<in> {Decoding, Rearming}"
      and here: "\<And>h as. accounted mp (obs k) (unread k) h as k ?s \<Longrightarrow> accounted mp (obs k) (unread k) h as k s'"
      and kept: "ss_suppress s' = ss_suppress ?s" "x \<noteq> None \<longrightarrow> ss_reading s'" for s'
  proof (rule reader_linear [OF inv k t _ x])
    have "reads_for p t k" using work wk by (auto simp: reads_for_def)
    then show "\<not> reads_for p u k" if "u \<noteq> t" for u
      using that busy_ok_facts(3) [OF busy] by blast
    show "accounted mp (obs k) (unread k) h as k s'" if "accounted mp (obs k) (unread k) h as k ?s" for h as
      using that by (rule here)
  qed (use work wk kept in \<open>auto simp: readish_def\<close>)
  show ?thesis
  proof (cases wk)
    case Decoding
    then have reading: "ss_reading ?s" using busy_ok_facts(2) [OF busy, of t k] work by (simp add: reads_for_def)
    obtain s' where dec: "decode_next mp ?s = Inr (x, s')" "v = put_session k s' (p_srv p)"
      using step Decoding by (auto simp: advance_def map_sum_def split: sum.splits)
    have "accounted mp (obs k) (unread k) h as k s' \<and> ss_suppress s' = ss_suppress ?s \<and>
        (x \<noteq> None \<longrightarrow> x \<in> {Some Decoding, Some Rearming} \<and> ss_reading s')"
      if "accounted mp (obs k) (unread k) h as k ?s" for h as
      using decode_next_accounted [OF laws(1) laws(3) [rule_format] that reading] dec(1) by auto
    with acc dec(2) Decoding show ?thesis
      using reader [of s'] work by (simp add: dispatched_def) blast
  next
    case Rearming
    then have reading: "ss_reading ?s" using busy_ok_facts(2) [OF busy, of t k] work by (simp add: reads_for_def)
    obtain s' where dec: "read_again mp ?s = Inr (x, s')" "v = put_session k s' (p_srv p)"
      using step Rearming by (auto simp: advance_def map_sum_def split: sum.splits)
    have "accounted mp (obs k) (unread k) h as k s' \<and> ss_suppress s' = ss_suppress ?s \<and> x = None"
      if "accounted mp (obs k) (unread k) h as k ?s" for h as
      using read_again_accounted [OF laws(2) that reading] dec(1) by auto
    with acc dec(2) Rearming show ?thesis
      using reader [of s'] work by (simp add: dispatched_def)
  next
    case (Taken m)
    with dispatch_linear [OF fit inv, of t k m x v] work step show ?thesis
      by (simp add: advance_def dispatched_def)
  next
    case (Posting ts)
    with post_linear [OF inv, of t k ts x v] work step show ?thesis
      by (simp add: advance_def dispatched_def)
  qed
qed

lemma par_step_linear:
  assumes laws: "codec_laws mp" "view_laws mp" "buffer_laws mp" "\<forall>k. well_packed (obs k)"
    and fit: "answers_fit mp d P obs"
    and inv: "linear mp d P obs w0 (\<lambda>k. par_reads k p e @ unread k) hist p" and step: "par_step mp p e = Inr p'"
  shows "linear mp d P obs w0 unread (hist @ dispatched p e) p'"
proof (cases e)
  case (Whole se)
  then have inv': "linear mp d P obs w0 unread hist p" using inv by (simp add: par_reads_def)
  show ?thesis
  proof (cases "runs_whole p se")
    case True
    then obtain v where v: "srv_step mp (p_srv p) se = Inr v" "p' = p\<lparr>p_srv := v\<rparr>"
      using step Whole by (auto simp: par_step_def map_sum_def split: sum.splits)
    from whole_linear [OF laws inv' True v(1)] v(2) Whole show ?thesis by (simp add: dispatched_def)
  qed (use inv' step Whole in \<open>simp add: par_step_def dispatched_def\<close>)
next
  case (ReadChunk t k bs)
  show ?thesis
  proof (cases "chunk_ready p t k")
    case True
    obtain x s where s: "chunk_arrives bs (sv_objs (p_srv p) ! k) = (x, s)" by fastforce
    have p': "p' = p\<lparr>p_srv := put_session k s (p_srv p), p_work := (p_work p)(t := map_option (Pair k) x)\<rparr>"
      using step ReadChunk True s by (simp add: par_step_def)
    have ready: "p_work p t = None" "t < length (sv_threads (p_srv p))" "k < length (sv_objs (p_srv p))"
        "ss_reading (sv_objs (p_srv p) ! k)" "\<not> reader_busy p k"
      using True by (auto simp: chunk_ready_def can_start_def has_state_def)
    have busy: "busy_ok p" using inv by (simp add: linear_def)
    have reads: "par_reads k p e = bs" "\<And>j. j \<noteq> k \<Longrightarrow> par_reads j p e = []"
      using True ReadChunk by (simp_all add: par_reads_def)
    have here: "accounted mp (obs k) (unread k) h as k s \<and> ss_suppress s = ss_suppress (sv_objs (p_srv p) ! k) \<and>
        (x \<noteq> None \<longrightarrow> x = Some Decoding \<and> ss_reading s)"
      if "accounted mp (obs k) (par_reads k p e @ unread k) h as k (sv_objs (p_srv p) ! k)" for h as
      using chunk_arrives_accounted [OF _ ready(4) s, of mp "obs k" "unread k" h as k] that reads(1) by simp
    obtain h as where "accounted mp (obs k) (par_reads k p e @ unread k) h as k (sv_objs (p_srv p) ! k)"
      using inv ready(3) unfolding linear_def tracked_def by blast
    note sides = here [OF this]
    have "linear mp d P obs w0 unread hist p'"
      unfolding p'
    proof (rule reader_linear [OF inv ready(3,2)])
      show "\<not> reads_for p u k" for u
      proof
        assume reads: "reads_for p u k"
        then have "u < length (sv_threads (p_srv p))"
          using busy_ok_facts(1) [OF busy] by (auto simp: reads_for_def)
        with reads ready(5) show False by (auto simp: reads_for_def reader_busy_def)
      qed
    qed (use ready(1) sides reads(2) here in \<open>auto simp: readish_def\<close>)
    then show ?thesis using ReadChunk by (simp add: dispatched_def)
  next
    case False
    then show ?thesis using inv step ReadChunk by (simp add: par_reads_def par_step_def dispatched_def cong: if_cong)
  qed
next
  case (TakeJob t k i)
  then have inv': "linear mp d P obs w0 unread hist p" using inv by (simp add: par_reads_def)
  show ?thesis
  proof (cases "can_start p t k \<and> i < length (ss_jobs (sv_objs (p_srv p) ! k))")
    case True
    then have "p_work p t = None" "k < length (sv_objs (p_srv p))" "t < length (sv_threads (p_srv p))"
      by (auto simp: can_start_def has_state_def)
    from take_linear [OF inv' this(1,2) _ this(3), of i] True step TakeJob show ?thesis
      by (simp add: par_step_def dispatched_def split: prod.splits)
  qed (use inv' step TakeJob in \<open>auto simp: par_step_def dispatched_def\<close>)
next
  case (Advance t)
  then have inv': "linear mp d P obs w0 unread hist p" using inv by (simp add: par_reads_def)
  show ?thesis
  proof (cases "p_work p t")
    case None
    with inv' step Advance show ?thesis by (simp add: par_step_def dispatched_def)
  next
    case (Some kw)
    then obtain k wk where kw: "p_work p t = Some (k, wk)" by (cases kw) simp
    obtain x v where "advance mp t k wk (p_srv p) = Inr (x, v)"
        "p' = p\<lparr>p_srv := v, p_work := (p_work p)(t := map_option (Pair k) x)\<rparr>"
      using step Advance kw by (auto simp: par_step_def split: sum.splits)
    with advance_linear [OF laws(1,3,4) fit inv' kw] Advance show ?thesis by blast
  qed
qed

subsection \<open>Every run\<close>

lemma linear_run:
  assumes "codec_laws mp" "view_laws mp" "buffer_laws mp" "\<forall>k. well_packed (obs k)" and "answers_fit mp d P obs"
  shows "linear mp d P obs w0 (\<lambda>k. collected (par_step mp) (par_reads k) (Inr p) es @ unread k) hist p \<Longrightarrow>
     run_events (par_machine mp) (Inr p) es = Inr p' \<Longrightarrow>
     linear mp d P obs w0 unread (hist @ collected (par_step mp) dispatched (Inr p) es) p'"
proof (induction es arbitrary: p hist)
  case (Cons e es)
  show ?case
  proof (cases "par_step mp p e")
    case (Inl f)
    with Cons.prems(2) show ?thesis by simp
  next
    case (Inr p1)
    have "linear mp d P obs w0 (\<lambda>k. par_reads k p e @ (collected (par_step mp) (par_reads k) (Inr p1) es @ unread k)) hist p"
      using Cons.prems(1) Inr by simp
    from Cons.IH [OF par_step_linear [OF assms this Inr]] Cons.prems(2) Inr show ?thesis by simp
  qed
qed simp

lemma idle_linear:
  assumes "P w" and "\<And>k. unread k = stream mp (obs k)"
  shows "linear mp d P obs w unread [] (all_idle (serving_with d suppress w))"
proof -
  let ?p = "all_idle (serving_with d suppress w)"
  have "held_by ?p t = []" "owed_by ?p t = []" for t by (simp_all add: held_by_def owed_by_def)
  then have "in_hand ?p = []" "unposted ?p = []" by (simp_all add: in_hand_def unposted_def)
  moreover have "busy_ok ?p" by (simp add: busy_ok_def reads_for_def)
  moreover have "sv_world (serving_with d suppress w) = w"
    by (simp add: serving_with_def suppress_exceptions_def Server_new_def impl_new_def start_accept_def)
  ultimately show ?thesis
    using assms by (auto simp: linear_def tracked_def accounts_def serving_with_def suppress_exceptions_def
        Server_new_def impl_new_def start_accept_def sendable_def intro!: exI [of _ "[]"])
qed

text \<open>The state after a run on a part of each session's stream.\<close>

definition left_unread ::
  "msgpack \<Rightarrow> 'w par \<Rightarrow> par_event list \<Rightarrow> (nat \<Rightarrow> mobj list) \<Rightarrow> nat \<Rightarrow> bytes" where
  "left_unread mp p es obs k = drop (length (collected (par_step mp) (par_reads k) (Inr p) es)) (stream mp (obs k))"

lemma left_unread_whole:
  "prefix (collected (par_step mp) (par_reads k) (Inr p) es) (stream mp (obs k)) \<Longrightarrow>
     collected (par_step mp) (par_reads k) (Inr p) es @ left_unread mp p es obs k = stream mp (obs k)"
  by (auto simp: left_unread_def prefix_def)

lemma start_linear:
  fixes d :: "'w dispatcher" and suppress :: bool and w :: 'w
  defines "p0 \<equiv> all_idle (serving_with d suppress w)"
  assumes "P w" and "\<forall>k. prefix (collected (par_step mp) (par_reads k) (Inr p0) es) (stream mp (obs k))"
  shows "linear mp d P obs w (\<lambda>k. collected (par_step mp) (par_reads k) (Inr p0) es @ left_unread mp p0 es obs k) [] p0"
  unfolding p0_def using assms(2,3) by (intro idle_linear left_unread_whole) (simp_all add: p0_def)

lemma workers_linear:
  fixes d :: "'w dispatcher" and suppress :: bool and w :: 'w
  defines "p0 \<equiv> all_idle (serving_with d suppress w)"
  assumes "codec_laws mp" and "view_laws mp" and "buffer_laws mp" and "\<forall>k. well_packed (obs k)"
    and "answers_fit mp d P obs" and "P w"
    and "\<forall>k. prefix (collected (par_step mp) (par_reads k) (Inr p0) es) (stream mp (obs k))"
    and "run_events (par_machine mp) (Inr p0) es = Inr p"
  shows "linear mp d P obs w (left_unread mp p0 es obs) (collected (par_step mp) dispatched (Inr p0) es) p"
  using linear_run [OF assms(2-6) start_linear [of P w, OF assms(7) assms(8) [unfolded p0_def]]
      assms(9) [unfolded p0_def], folded p0_def]
  by simp

lemma workers_in_sequence:
  assumes "codec_laws mp" and "view_laws mp" and "buffer_laws mp" and "\<forall>k. well_packed (obs k)"
    and "answers_fit mp d P obs" and "P w"
    and "\<forall>k. prefix (collected (par_step mp) (par_reads k) (Inr (all_idle (serving_with d suppress w))) es)
      (stream mp (obs k))"
    and "run_events (par_machine mp) (Inr (all_idle (serving_with d suppress w))) es = Inr p"
    and "hist = collected (par_step mp) dispatched (Inr (all_idle (serving_with d suppress w))) es"
  shows "\<exists>as posted. serve_all mp d hist w = (as, Some (sv_world (p_srv p))) \<and> P (sv_world (p_srv p)) \<and>
     sendable mp (map snd as) \<and> mset posted \<subseteq># mset as \<and> (all_free p \<longrightarrow> mset posted = mset as) \<and>
     (\<forall>h \<in> set hist. fst h < length (sv_objs (p_srv p))) \<and>
     (\<forall>k < length (sv_objs (p_srv p)). let s = sv_objs (p_srv p) ! k in
        mset (requests_of k hist) + mset (ss_jobs s) \<subseteq># mset (obs k) \<and>
        prefix (w_wire (ss_writer s)) (map (response_data mp) (answers_for k posted)) \<and>
        mset (map r_id (answers_for k posted)) \<subseteq># mset (call_ids mp (obs k)))"
proof -
  let ?unread = "left_unread mp (all_idle (serving_with d suppress w)) es obs"
  have lin: "linear mp d P obs w ?unread hist p"
    using workers_linear [OF assms(1-8)] by (simp add: assms(9))
  then obtain taken posted where h: "accounts mp d w hist p taken posted"
      "\<forall>h \<in> set taken. fst h < length (sv_objs (p_srv p))"
      "\<forall>k < length (sv_objs (p_srv p)). accounted mp (obs k) (?unread k) taken posted k (sv_objs (p_srv p) ! k)"
    unfolding linear_def tracked_def by blast
  obtain as where as: "serve_all mp d hist w = (as, Some (sv_world (p_srv p)))" "sendable mp (map snd as)"
      "mset as = mset posted + mset (unposted p)" and taken: "mset taken = mset hist + mset (in_hand p)"
    using h(1) by (auto simp: accounts_def)
  have free: "unposted p = []" if "all_free p"
    using that by (simp add: unposted_def owed_by_def all_free_def)
  have within: "mset (requests_of k hist) \<subseteq># mset (requests_of k taken)" for k
    unfolding requests_of_def mset_map mset_filter taken by (simp add: image_mset_subseteq_mono)
  have sub: "mset (answers_for k posted) \<subseteq># mset (answers_for k as)" for k
    unfolding answers_for_def mset_map mset_filter as(3) by (simp add: image_mset_subseteq_mono)
  have "mset (requests_of k hist) + mset (ss_jobs s) \<subseteq># mset (obs k) \<and>
      prefix (w_wire (ss_writer s)) (map (response_data mp) (answers_for k posted)) \<and>
      mset (map r_id (answers_for k posted)) \<subseteq># mset (call_ids mp (obs k))"
    if k: "k < length (sv_objs (p_srv p))" and s: "s = sv_objs (p_srv p) ! k" for k s
  proof -
    obtain later where
        acc: "mset (obs k) = mset (requests_of k taken) + mset (ss_jobs s) + mset later"
        "carries mp (answers_for k posted) (ss_writer s)"
      using h(3) k by (auto simp: accounted_def s)
    have jobs: "mset (requests_of k hist) + mset (ss_jobs s) \<subseteq># mset (obs k)"
      using subset_mset.add_mono [OF within [of k] subset_mset.order_refl [of "mset (ss_jobs s)"]]
        mset_subset_eq_add_left [of "mset (requests_of k taken) + mset (ss_jobs s)" "mset later"]
      unfolding acc(1) by (rule subset_mset.order_trans)
    then have "mset (requests_of k hist) \<subseteq># mset (obs k)"
      by (rule subset_mset.order_trans [rotated]) simp
    from subset_mset.order_trans [OF answers_for_calls [OF as(1)] call_ids_subset [OF this]]
    have "mset (map r_id (answers_for k as)) \<subseteq># mset (call_ids mp (obs k))" .
    moreover have "mset (map r_id (answers_for k posted)) \<subseteq># mset (map r_id (answers_for k as))"
      using image_mset_subseteq_mono [OF sub] by simp
    ultimately show ?thesis using jobs acc(2) subset_mset.order_trans by (auto simp: carries_def)
  qed
  moreover have "\<forall>h \<in> set hist. fst h < length (sv_objs (p_srv p))"
  proof
    fix x
    assume "x \<in> set hist"
    then have "x \<in># mset taken" by (simp add: taken)
    then show "fst x < length (sv_objs (p_srv p))" using h(2) by simp
  qed
  moreover have "mset posted \<subseteq># mset as" by (simp add: as(3))
  moreover have "P (sv_world (p_srv p))" using lin by (simp add: linear_def)
  moreover have "all_free p \<Longrightarrow> mset posted = mset as" using free by (simp add: as(3))
  ultimately show ?thesis using as(1,2) unfolding Let_def by blast
qed

subsection \<open>No crash\<close>

lemma suppressing_same:
  "suppressing v \<Longrightarrow> sv_suppress v' = sv_suppress v \<Longrightarrow> length (sv_objs v') = length (sv_objs v) \<Longrightarrow>
     (\<And>k. k < length (sv_objs v) \<Longrightarrow> ss_suppress (sv_objs v' ! k) = ss_suppress (sv_objs v ! k)) \<Longrightarrow> suppressing v'"
  unfolding suppressing_def all_set_conv_all_nth by simp

lemma suppressing_put:
  assumes "suppressing v" and "ss_suppress s = ss_suppress (sv_objs v ! k)"
  shows "suppressing (put_session k s v)"
proof (rule suppressing_same [OF assms(1)])
  show "ss_suppress (sv_objs (put_session k s v) ! j) = ss_suppress (sv_objs v ! j)" if "j < length (sv_objs v)" for j
    using that assms(2) by (cases "j = k") auto
qed simp_all

lemma work_suppress:
  "chunk_arrives bs s = (x, s') \<Longrightarrow> ss_suppress s' = ss_suppress s"
  "decode_next mp s = Inr (x, s') \<Longrightarrow> ss_suppress s' = ss_suppress s"
  "read_again mp s = Inr (x, s') \<Longrightarrow> ss_suppress s' = ss_suppress s"
  by (auto simp: chunk_arrives_def decode_next_def read_again_def session_do_read_def map_sum_def
      split: if_splits next_result.splits sum.splits)

lemma advance_suppressing:
  assumes "suppressing v" and "advance mp t k wk v = Inr (x, v')"
  shows "suppressing v'"
proof (cases wk)
  case (Taken m)
  with assms(2) have "\<exists>c. v' = leave_ctx t c v"
    by (auto simp: advance_def dispatch_job_def split: if_splits prod.splits sum.splits)
  then show ?thesis using assms(1) by (auto simp: suppressing_def)
next
  case (Posting ts)
  with assms show ?thesis
    by (auto simp: advance_def post_next_def post_tasks_def split: list.splits intro!: suppressing_put)
qed (use assms in \<open>auto simp: advance_def map_sum_def dest: work_suppress split: sum.splits intro!: suppressing_put\<close>)

lemma par_step_suppressing:
  assumes "suppressing (p_srv p)" and "par_step mp p e = Inr p'" and "e \<noteq> Whole (SuppressCalled False)"
  shows "suppressing (p_srv p')"
proof (cases e)
  case (Whole se)
  with assms srv_step_suppressing [of "p_srv p" mp se] show ?thesis
    by (auto simp: par_step_def map_sum_def split: if_splits sum.splits)
next
  case (ReadChunk t k bs)
  with assms(1,2) show ?thesis
    by (auto simp: par_step_def dest: work_suppress split: if_splits prod.splits intro!: suppressing_put)
next
  case (TakeJob t k i)
  have "suppressing (snd (take_job t k i (p_srv p)))"
    using suppressing_put [OF assms(1), of "(sv_objs (p_srv p) ! k)\<lparr>ss_jobs := js\<rparr>" k for js]
    by (auto simp: take_job_def Let_def suppressing_def)
  with TakeJob assms(1,2) show ?thesis by (auto simp: par_step_def split: if_splits prod.splits)
next
  case (Advance t)
  show ?thesis
  proof (cases "p_work p t")
    case (Some kw)
    then obtain k wk where kw: "p_work p t = Some (k, wk)" by (cases kw) simp
    then obtain x v where "advance mp t k wk (p_srv p) = Inr (x, v)" "p_srv p' = v"
      using assms(2) Advance by (auto simp: par_step_def split: sum.splits)
    with advance_suppressing [OF assms(1)] show ?thesis by simp
  qed (use assms Advance in \<open>simp add: par_step_def\<close>)
qed

lemma advance_total:
  assumes laws: "codec_laws mp" "buffer_laws mp" "\<forall>k. well_formed_requests mp (obs k)"
    and "suppressing (p_srv p)" and inv: "linear mp d P obs w0 unread hist p" and work: "p_work p t = Some (k, wk)"
  shows "\<exists>r. advance mp t k wk (p_srv p) = Inr r"
proof -
  have tr: "tracked (accounts mp d w0 hist p) mp d obs unread (p_srv p)" and busy: "busy_ok p"
    using inv by (simp_all add: linear_def)
  have k: "k < length (sv_objs (p_srv p))" using busy_ok_facts(1) [OF busy work] by simp
  let ?s = "sv_objs (p_srv p) ! k"
  obtain h as where acc: "accounted mp (obs k) (unread k) h as k ?s"
    using tr k unfolding tracked_def by blast
  show ?thesis
  proof (cases wk)
    case Decoding
    have "well_packed (obs k)" using laws(3) by (auto simp: well_formed_requests_def well_packed_def)
    from decode_next_accounted [OF laws(1) this acc] busy_ok_facts(2) [OF busy, of t k] work Decoding
    obtain x s' where "decode_next mp ?s = Inr (x, s')" by (auto simp: reads_for_def)
    with Decoding show ?thesis by (simp add: advance_def)
  next
    case Rearming
    from read_again_accounted [OF laws(2) acc] busy_ok_facts(2) [OF busy, of t k] work Rearming
    obtain s' where "read_again mp ?s = Inr (None, s')" by (auto simp: reads_for_def)
    with Rearming show ?thesis by (simp add: advance_def)
  next
    case (Taken m)
    with taken_request [OF tr busy] work have "m \<in> set (obs k)" by simp
    with laws(3) have "\<nexists>x. fst (dispatch mp (sv_disp (p_srv p)) m True (in_thread (p_srv p) t)) = Inl x"
      unfolding suppressed_throws by (auto simp: well_formed_requests_def)
    moreover have "ss_suppress ?s" using assms(4) k by (simp add: suppressing_def)
    moreover have "sv_disp_null (p_srv p) = []" using tr by (simp add: tracked_def)
    ultimately show ?thesis
      using Taken by (cases "dispatch mp (sv_disp (p_srv p)) m True (in_thread (p_srv p) t)")
        (auto simp: advance_def dispatch_job_def split: sum.splits)
  qed (simp add: advance_def)
qed

lemma par_step_total:
  assumes laws: "codec_laws mp" "view_laws mp" "buffer_laws mp" "\<forall>k. well_formed_requests mp (obs k)"
    and "suppressing (p_srv p)" and inv: "linear mp d P obs w0 (\<lambda>k. par_reads k p e @ unread k) hist p"
  shows "\<exists>p'. par_step mp p e = Inr p'"
proof (cases e)
  case (Whole se)
  show ?thesis
  proof (cases "runs_whole p se")
    case True
    then have "bytes_read k (p_srv p) se = []" for k
      by (auto simp: bytes_read_def runs_whole_def event_bytes_def split: srv_event.splits
          sess_event.splits read_result.splits)
    then have "tracked (accounts mp d w0 hist p) mp d obs (\<lambda>k. bytes_read k (p_srv p) se @ unread k) (p_srv p)"
      using inv Whole by (simp add: linear_def par_reads_def)
    from srv_step_total [OF laws assms(5) this] Whole show ?thesis by (auto simp: par_step_def)
  qed (simp add: Whole par_step_def)
next
  case (Advance t)
  show ?thesis
  proof (cases "p_work p t")
    case (Some kw)
    then obtain k wk where kw: "p_work p t = Some (k, wk)" by (cases kw) simp
    from advance_total [OF laws(1,3,4) assms(5) inv kw] obtain r where "advance mp t k wk (p_srv p) = Inr r" by blast
    with kw Advance show ?thesis by (cases r) (simp add: par_step_def)
  qed (simp add: Advance par_step_def)
qed (simp_all add: par_step_def split: prod.splits)

lemma linear_run_total:
  assumes laws: "codec_laws mp" "view_laws mp" "buffer_laws mp" "\<forall>k. well_formed_requests mp (obs k)"
    and fit: "answers_fit mp d P obs"
  shows "linear mp d P obs w0 (\<lambda>k. collected (par_step mp) (par_reads k) (Inr p) es @ unread k) hist p \<Longrightarrow>
     suppressing (p_srv p) \<Longrightarrow> Whole (SuppressCalled False) \<notin> set es \<Longrightarrow>
     \<exists>p'. run_events (par_machine mp) (Inr p) es = Inr p'"
proof (induction es arbitrary: p hist)
  case (Cons e es)
  have packed: "\<forall>k. well_packed (obs k)"
    using laws(4) by (auto simp: well_formed_requests_def well_packed_def)
  have here: "linear mp d P obs w0
      (\<lambda>k. par_reads k p e @ (collected (par_step mp) (par_reads k) (par_step mp p e) es @ unread k)) hist p"
    using Cons.prems(1) by simp
  from par_step_total [OF laws Cons.prems(2) here] obtain p1 where p1: "par_step mp p e = Inr p1" by blast
  note next_linear = par_step_linear [OF laws(1-3) packed fit here p1, unfolded p1]
  have "suppressing (p_srv p1)" using par_step_suppressing [OF Cons.prems(2) p1] Cons.prems(3) by auto
  with Cons.IH [OF next_linear] Cons.prems(3) p1 show ?case by simp
qed simp

lemma workers_total:
  assumes "codec_laws mp" and "view_laws mp" and "buffer_laws mp"
    and "\<forall>k. well_formed_requests mp (obs k)" and "answers_fit mp d P obs" and "P w"
    and "\<forall>k. prefix (collected (par_step mp) (par_reads k) (Inr (all_idle (serving_with d True w))) es)
      (stream mp (obs k))"
    and "Whole (SuppressCalled False) \<notin> set es"
  shows "\<exists>p. run_events (par_machine mp) (Inr (all_idle (serving_with d True w))) es = Inr p"
proof -
  have "suppressing (p_srv (all_idle (serving_with d True w)))"
    by (simp add: suppressing_def serving_with_def suppress_exceptions_def Server_new_def impl_new_def
        start_accept_def)
  from linear_run_total [OF assms(1-5) start_linear [of P w, OF assms(6,7)] this assms(8)] show ?thesis .
qed

end
