(* ===== verification/Client.thy ===== *)
theory Client
  imports WriterRuns Unpacker
begin

section \<open>Client (include/client.h, include/client.inl, src/client.cpp)\<close>

text \<open>
  The client side of a connection. Application threads build requests and post them on the
  client's strand; the io thread connects, runs the strand, reads responses and settles the
  promises of the calls. Its state is the members of \<open>Client::impl\<close> plus the strand's queue,
  whether a connect or a read is outstanding, and the shared states of the promises, which a
  future and an entry of \<open>ongoing_calls\<close> name by their position in \<open>c_futures\<close>. The
  reconnect function is a parameter with a state of its own, as the callable object has.
\<close>

datatype conn_state = initial | connected | disconnected | reset

datatype promise_state = Pending | HasValue mobj | HasException thrown

datatype client_task =
    CallTask int32 string nat bytes
  | NotifyTask bytes
  | FlushTask
  | EraseTask uint32

type_synonym call_t = "string \<times> nat"

record 'r client =
  c_call_idx :: int32
  c_ongoing :: "int32 \<rightharpoonup> call_t"
  c_futures :: "promise_state list"
  c_unpac :: unpacker
  c_is_connected :: bool
  c_state :: conn_state
  c_writer :: "unit writer"
  c_reconn :: 'r
  c_timeout :: "64 word option"
  c_pending :: "bytes list"
  c_strand :: "client_task list"
  c_connecting :: bool
  c_reading :: bool

text \<open>The constructor resolves the address and starts to connect.\<close>

definition Client_new :: "msgpack \<Rightarrow> 'r \<Rightarrow> 'r client" where
  "Client_new mp reconnectable =
     \<lparr>c_call_idx = 0, c_ongoing = Map.empty, c_futures = [], c_unpac = unpacker_new mp,
      c_is_connected = False, c_state = initial, c_writer = AsyncWriter_new,
      c_reconn = reconnectable, c_timeout = None, c_pending = [], c_strand = [],
      c_connecting = True, c_reading = False\<rparr>"

subsection \<open>Promises\<close>

text \<open>
  \<open>set_value\<close> and \<open>set_exception\<close> throw \<open>std::future_error\<close> on a promise that is satisfied;
  destroying or overwriting a promise that is not satisfied stores a broken-promise error.
  The texts of the two errors are implementation-defined and nothing depends on them.
\<close>

definition already_satisfied :: thrown where
  "already_satisfied = StdException ''promise already satisfied''"

definition broken_promise :: thrown where
  "broken_promise = StdException ''broken promise''"

definition settle :: "nat \<Rightarrow> promise_state \<Rightarrow> 'r client \<Rightarrow> thrown + 'r client" where
  "settle p st c =
     (if c_futures c ! p = Pending then Inr (c\<lparr>c_futures := (c_futures c)[p := st]\<rparr>)
      else Inl already_satisfied)"

definition abandon :: "int32 \<Rightarrow> 'r client \<Rightarrow> 'r client" where
  "abandon idx c = (case c_ongoing c idx of
       None \<Rightarrow> c
     | Some (f, p) \<Rightarrow>
         if c_futures c ! p = Pending
         then c\<lparr>c_futures := (c_futures c)[p := HasException broken_promise]\<rparr> else c)"

subsection \<open>Requests\<close>

definition next_call_idx :: "'r client \<Rightarrow> int32 \<times> 'r client" where
  "next_call_idx c = (c_call_idx c + 1, c\<lparr>c_call_idx := c_call_idx c + 1\<rparr>)"

definition client_post :: "client_task \<Rightarrow> 'r client \<Rightarrow> 'r client" where
  "client_post t c = c\<lparr>c_strand := c_strand c @ [t]\<rparr>"

text \<open>\<open>async_call\<close> returns the future; \<open>notify\<close> returns nothing.\<close>

definition async_call :: "msgpack \<Rightarrow> string \<Rightarrow> mobj list \<Rightarrow> 'r client \<Rightarrow> nat \<times> 'r client" where
  "async_call mp func_name args c0 =
     (case next_call_idx c0 of (idx, c) \<Rightarrow>
        let buffer = mp_pack mp (call_obj idx func_name args);
            promise = length (c_futures c);
            c' = c\<lparr>c_futures := c_futures c @ [Pending]\<rparr>
        in (promise, client_post (CallTask idx func_name promise buffer) c'))"

definition notify :: "msgpack \<Rightarrow> string \<Rightarrow> mobj list \<Rightarrow> 'r client \<Rightarrow> 'r client" where
  "notify mp func_name args c =
     client_post (NotifyTask (mp_pack mp (notify_obj func_name args))) c"

subsection \<open>Synchronous calls\<close>

definition client_set_timeout :: "64 word \<Rightarrow> 'r client \<Rightarrow> 'r client" where
  "client_set_timeout val c = c\<lparr>c_timeout := Some val\<rparr>"

definition client_clear_timeout :: "'r client \<Rightarrow> 'r client" where
  "client_clear_timeout c = c\<lparr>c_timeout := None\<rparr>"

definition client_timeout :: "'r client \<Rightarrow> 64 word option" where
  "client_timeout c = c_timeout c"

definition connection_state :: "'r client \<Rightarrow> conn_state" where
  "connection_state c = c_state c"

definition throw_timeout :: "string \<Rightarrow> 'r client \<Rightarrow> thrown" where
  "throw_timeout func_name c = (case client_timeout c of
       None \<Rightarrow> StdException ''bad optional access''
     | Some v \<Rightarrow> TimeoutErr (Timeout (''Timeout of '' @ fmt_int (sint v) @
         ''ms while calling rpc function '' @ [CHR 0x27] @ func_name @ [CHR 0x27])))"

text \<open>\<open>future.get()\<close>; \<open>None\<close> when it still blocks.\<close>

fun future_get :: "promise_state \<Rightarrow> (thrown + mobj) option" where
  "future_get Pending = None"
| "future_get (HasValue v) = Some (Inr v)"
| "future_get (HasException x) = Some (Inl x)"

text \<open>
  \<open>call\<close> after its \<open>async_call\<close>: with a timeout, \<open>expired\<close> is the client when \<open>wait_for\<close>
  returns, and the promise of the call decides what it returned; without one, \<open>get\<close> waits.
\<close>

definition call_result :: "string \<Rightarrow> nat \<Rightarrow> 64 word option \<Rightarrow> 'r client \<Rightarrow> (thrown + mobj) option" where
  "call_result func_name promise timeout_val expired =
     (if timeout_val \<noteq> None \<and> c_futures expired ! promise = Pending
      then Some (Inl (throw_timeout func_name expired))
      else future_get (c_futures expired ! promise))"

subsection \<open>Posted handlers\<close>

definition client_write :: "bytes \<Rightarrow> 'r client \<Rightarrow> fault + 'r client" where
  "client_write item c = map_sum id (\<lambda>w. c\<lparr>c_writer := w\<rparr>) (writer_write item (c_writer c))"

text \<open>
  The loop over \<open>pending_calls\<close> in both handlers: every buffer is moved into the writer (which
  leaves it moved from, unless the writer is closed and ignores it); none is taken out.
\<close>

fun write_pending :: "msgpack \<Rightarrow> bytes list \<Rightarrow> 'r client \<Rightarrow> fault + bytes list \<times> 'r client" where
  "write_pending mp [] c = Inr ([], c)"
| "write_pending mp (b # bs) c = (case client_write b c of
       Inl f \<Rightarrow> Inl f
     | Inr c1 \<Rightarrow> (case write_pending mp bs c1 of
           Inl f \<Rightarrow> Inl f
         | Inr (left, c2) \<Rightarrow>
             Inr ((if is_closed (c_writer c) then b else mp_moved mp) # left, c2)))"

definition flush_pending :: "msgpack \<Rightarrow> 'r client \<Rightarrow> fault + 'r client" where
  "flush_pending mp c = (case write_pending mp (c_pending c) c of
       Inl f \<Rightarrow> Inl f | Inr (left, c') \<Rightarrow> Inr (c'\<lparr>c_pending := left\<rparr>))"

definition run_call_task ::
  "msgpack \<Rightarrow> int32 \<Rightarrow> string \<Rightarrow> nat \<Rightarrow> bytes \<Rightarrow> 'r client \<Rightarrow> fault + 'r client" where
  "run_call_task mp idx func_name p buffer c0 =
     (let c = (abandon idx c0)\<lparr>c_ongoing := (c_ongoing c0)(idx \<mapsto> (func_name, p))\<rparr> in
      if c_is_connected c
      then (case flush_pending mp c of Inl f \<Rightarrow> Inl f | Inr c' \<Rightarrow> client_write buffer c')
      else Inr (c\<lparr>c_pending := c_pending c @ [buffer]\<rparr>))"

definition run_erase_task :: "uint32 \<Rightarrow> 'r client \<Rightarrow> 'r client" where
  "run_erase_task i c = (abandon i c)\<lparr>c_ongoing := (c_ongoing c)(i := None)\<rparr>"

definition run_client_task :: "msgpack \<Rightarrow> client_task \<Rightarrow> 'r client \<Rightarrow> fault + 'r client" where
  "run_client_task mp t c = (case t of
       CallTask idx f p buffer \<Rightarrow> run_call_task mp idx f p buffer c
     | NotifyTask buffer \<Rightarrow> client_write buffer c
     | FlushTask \<Rightarrow> flush_pending mp c
     | EraseTask i \<Rightarrow> Inr (run_erase_task i c))"

definition client_run_strand :: "msgpack \<Rightarrow> 'r client \<Rightarrow> fault + 'r client" where
  "client_run_strand mp c = (case c_strand c of
       [] \<Rightarrow> Inr c
     | t # ts \<Rightarrow> run_client_task mp t (c\<lparr>c_strand := ts\<rparr>))"

subsection \<open>Reading responses\<close>

definition client_do_read :: "'r client \<Rightarrow> fault + 'r client" where
  "client_do_read c = (case start_read (c_unpac c) of
       Inl f \<Rightarrow> Inl f
     | Inr u \<Rightarrow> Inr (c\<lparr>c_unpac := u, c_reading := True\<rparr>))"

text \<open>\<open>ongoing_calls[id]\<close>: an absent id gets an entry with an empty name and a new promise.\<close>

definition current_call :: "int32 \<Rightarrow> 'r client \<Rightarrow> call_t \<times> 'r client" where
  "current_call i c = (case c_ongoing c i of
       Some call_entry \<Rightarrow> (call_entry, c)
     | None \<Rightarrow>
         let p = length (c_futures c) in
         (([], p), c\<lparr>c_futures := c_futures c @ [Pending], c_ongoing := (c_ongoing c)(i \<mapsto> ([], p))\<rparr>))"

text \<open>
  The try block and its handler: an error of the response is thrown as an RpcError, and
  whatever is thrown goes into the promise; \<open>set_exception\<close> may throw again and leaves. A
  response that was read always has a result (\<open>Response_of\<close>), so the branch without one, where
  the code would follow a null pointer, is not reached.
\<close>

definition settle_call :: "string \<Rightarrow> nat \<Rightarrow> response \<Rightarrow> 'r client \<Rightarrow> thrown + 'r client" where
  "settle_call func_name p resp c =
     (case (case r_error resp of
          Some e \<Rightarrow> Inl (RpcErr (RpcError ''rpc::RpcError during call'' func_name e))
        | None \<Rightarrow> (case r_result resp of
              Some v \<Rightarrow> settle p (HasValue v) c
            | None \<Rightarrow> Inl OtherThrown))
      of Inr c' \<Rightarrow> Inr c'
       | Inl x \<Rightarrow> settle p (HasException x) c)"

definition handle_response :: "response \<Rightarrow> 'r client \<Rightarrow> thrown + 'r client" where
  "handle_response resp c =
     (case current_call (r_id resp) c of ((func_name, p), c1) \<Rightarrow>
        (case settle_call func_name p resp c1 of
           Inl x \<Rightarrow> Inl x
         | Inr c2 \<Rightarrow> Inr (client_post (EraseTask (r_id resp)) c2)))"

fun client_decode :: "msgpack \<Rightarrow> nat \<Rightarrow> 'r client \<Rightarrow> fault + 'r client" where
  "client_decode mp 0 c = Inl OutOfFuel"
| "client_decode mp (Suc n) c = (case unpacker_next mp (c_unpac c) of
       NoObject \<Rightarrow> Inr c
     | NextThrows x \<Rightarrow> Inl (Escaped x)
     | NextObject ob u \<Rightarrow> (case Response_of mp ob of
           Inl x \<Rightarrow> Inl (Escaped x)
         | Inr resp \<Rightarrow> (case handle_response resp (c\<lparr>c_unpac := u\<rparr>) of
               Inl x \<Rightarrow> Inl (Escaped x)
             | Inr c' \<Rightarrow> client_decode mp n c')))"

definition client_fuel :: "'r client \<Rightarrow> nat" where
  "client_fuel c = Suc (length (u_buf (c_unpac c)))"

definition client_on_read :: "msgpack \<Rightarrow> read_result \<Rightarrow> 'r client \<Rightarrow> fault + 'r client" where
  "client_on_read mp rr c0 =
     (let c = c0\<lparr>c_reading := False\<rparr> in
      case rr of
        ReadOk bs \<Rightarrow>
          (let c1 = c\<lparr>c_unpac := buffer_consumed bs (c_unpac c)\<rparr> in
           case client_decode mp (client_fuel c1) c1 of
             Inl f \<Rightarrow> Inl f
           | Inr c2 \<Rightarrow> client_do_read (c2\<lparr>c_unpac := reserve_if_low mp (c_unpac c2)\<rparr>))
      | ReadEof \<Rightarrow> Inr (c\<lparr>c_state := disconnected\<rparr>)
      | ReadReset \<Rightarrow> Inr (c\<lparr>c_state := disconnected\<rparr>)
      | ReadError \<Rightarrow> Inr c)"

subsection \<open>Connecting\<close>

datatype conn_result = ConnOk | ConnError int string

text \<open>
  The completion handler of both overloads of do_connect. The handler that gives up stores the
  state and throws: the client it leaves is returned beside the exception.
\<close>

definition client_on_connect ::
  "('r \<Rightarrow> bool \<times> 'r) \<Rightarrow> conn_result \<Rightarrow> 'r client \<Rightarrow> (fault + unit) \<times> 'r client" where
  "client_on_connect reconnectable cr c0 =
     (let c = c0\<lparr>c_connecting := False\<rparr> in
      case cr of
        ConnOk \<Rightarrow>
          (let c1 = client_post FlushTask (c\<lparr>c_is_connected := True, c_state := connected\<rparr>) in
           case client_do_read c1 of Inl f \<Rightarrow> (Inl f, c1) | Inr c2 \<Rightarrow> (Inr (), c2))
      | ConnError code what_text \<Rightarrow>
          (case reconnectable (c_reconn c) of
             (True, r) \<Rightarrow> (Inr (), c\<lparr>c_reconn := r, c_connecting := True\<rparr>)
           | (False, r) \<Rightarrow>
               (Inl (Escaped (SystemErr \<lparr>se_code = code, se_text = what_text\<rparr>)),
                c\<lparr>c_reconn := r, c_state := disconnected\<rparr>)))"

text \<open>The default reconnect function: its counter, its answer, and the seconds it sleeps.\<close>

definition max_attempt_times :: int where
  "max_attempt_times = 5"

definition default_reconnectable :: "int \<Rightarrow> bool \<times> int" where
  "default_reconnectable failure_count0 =
     (let failure_count = failure_count0 + 1 in
      (failure_count \<noteq> max_attempt_times, failure_count))"

definition reconnect_wait :: "int \<Rightarrow> int" where
  "reconnect_wait failure_count = push_bit (nat (failure_count - 1)) 2"

definition client_on_write :: "msgpack \<Rightarrow> write_result \<Rightarrow> 'r client \<Rightarrow> fault + 'r client" where
  "client_on_write mp ec c = map_sum id (\<lambda>w. c\<lparr>c_writer := w\<rparr>) (complete mp ec (c_writer c))"

text \<open>The definitions that are unfolded to execute a handler of a client on a concrete state.\<close>

lemmas client_defs [handler_defs] =
  async_call_def next_call_idx_def client_post_def notify_def client_run_strand_def
  run_client_task_def run_call_task_def run_erase_task_def client_write_def flush_pending_def
  client_on_write_def client_on_connect_def client_do_read_def abandon_def default_reconnectable_def
  max_attempt_times_def start_read_def

end
