(* ===== verification/ClientRuns.thy ===== *)
theory ClientRuns
  imports Client
begin

section \<open>Runs of a client\<close>

text \<open>
  The client with its environment as a machine: the application calls and notifies, the
  connect completes, a read completes, the strand runs its next handler, the outstanding write
  completes.
\<close>

datatype client_event =
    AppCall string "mobj list" | AppNotify string "mobj list" | ConnectDone conn_result
  | ClientRead read_result | ClientStrand | ClientWrote write_result

definition client_step ::
  "msgpack \<Rightarrow> ('r \<Rightarrow> bool \<times> 'r) \<Rightarrow> 'r client \<Rightarrow> client_event \<Rightarrow> fault + 'r client" where
  "client_step mp recon c e = (case e of
       AppCall f args \<Rightarrow> Inr (snd (async_call mp f args c))
     | AppNotify f args \<Rightarrow> Inr (notify mp f args c)
     | ConnectDone cr \<Rightarrow>
         if c_connecting c
         then (case client_on_connect recon cr c of (Inl f, c') \<Rightarrow> Inl f | (Inr _, c') \<Rightarrow> Inr c')
         else Inr c
     | ClientRead rr \<Rightarrow> if c_reading c then client_on_read mp rr c else Inr c
     | ClientStrand \<Rightarrow> client_run_strand mp c
     | ClientWrote ec \<Rightarrow> client_on_write mp ec c)"

definition client_machine ::
  "msgpack \<Rightarrow> ('r \<Rightarrow> bool \<times> 'r) \<Rightarrow> fault + 'r client \<Rightarrow> client_event \<Rightarrow> fault + 'r client" where
  "client_machine mp recon st e = (case st of Inl f \<Rightarrow> Inl f | Inr c \<Rightarrow> client_step mp recon c e)"

lemma client_machine_simps [simp]:
  "client_machine mp recon (Inl f) e = Inl f"
  "client_machine mp recon (Inr c) e = client_step mp recon c e"
  by (simp_all add: client_machine_def)

lemma client_machine_stuck [simp]: "run_events (client_machine mp recon) (Inl f) es = Inl f"
  by (induction es) simp_all

subsection \<open>The invariant\<close>

text \<open>
  The writer is in order, every ongoing or posted call names a promise that exists, and the
  unpacker has room for the first read as long as the client is connecting.
\<close>

definition promises_exist :: "'r client \<Rightarrow> bool" where
  "promises_exist c \<longleftrightarrow>
     (\<forall>i f p. c_ongoing c i = Some (f, p) \<longrightarrow> p < length (c_futures c)) \<and>
     (\<forall>i f p b. CallTask i f p b \<in> set (c_strand c) \<longrightarrow> p < length (c_futures c))"

definition client_inv :: "'r client \<Rightarrow> bool" where
  "client_inv c \<longleftrightarrow> writer_inv (c_writer c) \<and> promises_exist c \<and>
     (c_connecting c \<longrightarrow> \<not> c_reading c \<and> max_read_bytes \<le> u_cap (c_unpac c))"

lemma client_new_fields [simp]:
  "c_call_idx (Client_new mp r) = 0" "c_ongoing (Client_new mp r) = Map.empty"
  "c_futures (Client_new mp r) = []" "c_unpac (Client_new mp r) = unpacker_new mp"
  "\<not> c_is_connected (Client_new mp r)" "c_writer (Client_new mp r) = AsyncWriter_new"
  "c_pending (Client_new mp r) = []" "c_strand (Client_new mp r) = []"
  "c_connecting (Client_new mp r)" "\<not> c_reading (Client_new mp r)"
  "c_state (Client_new mp r) = initial" "c_timeout (Client_new mp r) = None"
  "c_reconn (Client_new mp r) = r"
  by (simp_all add: Client_new_def)

lemma client_new_inv: "buffer_laws mp \<Longrightarrow> client_inv (Client_new mp r)"
  by (simp add: client_inv_def promises_exist_def Client_new_def unpacker_new_cap)

text \<open>Settling and abandoning keep everything but the state of one promise.\<close>

lemma settle_fields:
  "settle p st c = Inr c' \<Longrightarrow> c' = c\<lparr>c_futures := (c_futures c)[p := st]\<rparr>"
  by (simp add: settle_def split: if_splits)

lemma abandon_fields [simp]:
  "c_ongoing (abandon i c) = c_ongoing c" "c_strand (abandon i c) = c_strand c"
  "c_writer (abandon i c) = c_writer c" "c_pending (abandon i c) = c_pending c"
  "c_is_connected (abandon i c) = c_is_connected c" "c_unpac (abandon i c) = c_unpac c"
  "c_connecting (abandon i c) = c_connecting c" "c_reading (abandon i c) = c_reading c"
  "c_call_idx (abandon i c) = c_call_idx c" "c_state (abandon i c) = c_state c"
  "length (c_futures (abandon i c)) = length (c_futures c)"
  by (simp_all add: abandon_def split: option.splits prod.splits)

lemma write_pending_cases:
  assumes "writer_inv (c_writer c)"
  shows "\<exists>left w. write_pending mp bs c = Inr (left, c\<lparr>c_writer := w\<rparr>) \<and> writer_inv w"
  using assms
proof (induction bs arbitrary: c)
  case Nil
  then show ?case by (intro exI [of _ "[]"] exI [of _ "c_writer c"]) (cases c; simp)
next
  case (Cons b bs)
  obtain w where w: "writer_write b (c_writer c) = Inr w"
    using writer_write_total [OF Cons.prems] by blast
  with Cons.IH [of "c\<lparr>c_writer := w\<rparr>"] writer_write_inv [OF Cons.prems w] show ?case
    by (auto simp: client_write_def)
qed

lemma flush_pending_cases:
  assumes "writer_inv (c_writer c)"
  shows "\<exists>left w. flush_pending mp c = Inr (c\<lparr>c_writer := w, c_pending := left\<rparr>) \<and> writer_inv w"
proof -
  obtain left w where "write_pending mp (c_pending c) c = Inr (left, c\<lparr>c_writer := w\<rparr>)" "writer_inv w"
    using write_pending_cases [OF assms] by blast
  then show ?thesis by (intro exI [of _ left] exI [of _ w]) (simp add: flush_pending_def)
qed

lemma client_write_cases:
  assumes "writer_inv (c_writer c)"
  shows "\<exists>w. client_write b c = Inr (c\<lparr>c_writer := w\<rparr>) \<and> writer_inv w"
proof -
  obtain w where "writer_write b (c_writer c) = Inr w"
    using writer_write_total [OF assms] by blast
  with writer_write_inv [OF assms this] show ?thesis
    by (intro exI [of _ w]) (simp add: client_write_def)
qed

lemma run_strand_client_inv:
  assumes "client_inv c"
  shows "\<exists>c'. client_run_strand mp c = Inr c' \<and> client_inv c'"
proof (cases "c_strand c")
  case Nil
  with assms show ?thesis by (simp add: client_run_strand_def)
next
  case (Cons t ts)
  have w: "writer_inv (c_writer c)" using assms by (simp add: client_inv_def)
  show ?thesis
  proof (cases t)
    case (CallTask i f p b)
    let ?c = "(abandon i (c\<lparr>c_strand := ts\<rparr>))\<lparr>c_ongoing := (c_ongoing c)(i \<mapsto> (f, p))\<rparr>"
    have inv: "client_inv ?c" using assms Cons CallTask by (auto simp: client_inv_def promises_exist_def)
    show ?thesis
    proof (cases "c_is_connected c")
      case True
      obtain left w1 where flush: "flush_pending mp ?c = Inr (?c\<lparr>c_writer := w1, c_pending := left\<rparr>)"
          "writer_inv w1"
        using flush_pending_cases [of ?c mp] w by auto
      obtain w2 where "client_write b (?c\<lparr>c_writer := w1, c_pending := left\<rparr>) =
          Inr (?c\<lparr>c_writer := w1, c_pending := left, c_writer := w2\<rparr>)" "writer_inv w2"
        using client_write_cases [of "?c\<lparr>c_writer := w1, c_pending := left\<rparr>" b] flush(2) by force
      with inv flush True Cons CallTask show ?thesis
        by (auto simp: client_run_strand_def run_client_task_def run_call_task_def client_inv_def
            promises_exist_def)
    next
      case False
      with inv Cons CallTask show ?thesis
        by (simp add: client_run_strand_def run_client_task_def run_call_task_def client_inv_def
            promises_exist_def)
    qed
  next
    case (NotifyTask b)
    with client_write_cases [of "c\<lparr>c_strand := ts\<rparr>" b] assms Cons show ?thesis
      by (auto simp: client_run_strand_def run_client_task_def client_inv_def promises_exist_def)
  next
    case FlushTask
    with flush_pending_cases [of "c\<lparr>c_strand := ts\<rparr>" mp] assms Cons show ?thesis
      by (auto simp: client_run_strand_def run_client_task_def client_inv_def promises_exist_def)
  next
    case (EraseTask i)
    with assms Cons show ?thesis
      by (auto simp: client_run_strand_def run_client_task_def run_erase_task_def client_inv_def
          promises_exist_def)
  qed
qed

text \<open>A response touches the futures, the ongoing calls and the strand only.\<close>

lemma new_promise:
  assumes "promises_exist c"
  shows "promises_exist (c\<lparr>c_futures := c_futures c @ [st],
    c_ongoing := (c_ongoing c)(i \<mapsto> (f, length (c_futures c)))\<rparr>)"
proof -
  have "p < Suc (length (c_futures c))" if "c_ongoing c j = Some (g, p)" for j g p
    using assms that unfolding promises_exist_def by (metis less_SucI)
  moreover have "p < Suc (length (c_futures c))" if "CallTask j g p b \<in> set (c_strand c)" for j g p b
    using assms that unfolding promises_exist_def by (metis less_SucI)
  ultimately show ?thesis by (auto simp: promises_exist_def)
qed

lemma current_call_fields:
  assumes "current_call i c = ((f, p), c')"
  shows "c_writer c' = c_writer c" "c_connecting c' = c_connecting c" "c_unpac c' = c_unpac c"
    "c_strand c' = c_strand c" "promises_exist c \<Longrightarrow> promises_exist c'"
  using assms by (auto simp: current_call_def Let_def new_promise split: option.splits)

lemma settle_call_fields:
  "settle_call f p resp c = Inr c' \<Longrightarrow> \<exists>st. c' = c\<lparr>c_futures := (c_futures c)[p := st]\<rparr>"
  by (auto simp: settle_call_def dest!: settle_fields split: option.splits sum.splits)

lemma handle_response_fields:
  assumes "handle_response resp c = Inr c'"
  shows "c_writer c' = c_writer c" "c_connecting c' = c_connecting c" "c_unpac c' = c_unpac c"
    "promises_exist c \<Longrightarrow> promises_exist c'"
proof -
  obtain f p c1 where c1: "current_call (r_id resp) c = ((f, p), c1)"
    by (cases "current_call (r_id resp) c") auto
  obtain c2 where "settle_call f p resp c1 = Inr c2" and c': "c' = client_post (EraseTask (r_id resp)) c2"
    using assms c1 by (auto simp: handle_response_def split: sum.splits)
  then obtain st where c2: "c2 = c1\<lparr>c_futures := (c_futures c1)[p := st]\<rparr>"
    using settle_call_fields by blast
  from current_call_fields [OF c1] show "c_writer c' = c_writer c" "c_connecting c' = c_connecting c"
    "c_unpac c' = c_unpac c" "promises_exist c \<Longrightarrow> promises_exist c'"
    by (auto simp: c' c2 client_post_def promises_exist_def)
qed

lemma client_decode_cases:
  "codec_laws mp \<Longrightarrow> length (u_buf (c_unpac c)) < n \<Longrightarrow> promises_exist c \<Longrightarrow>
     (\<exists>x. client_decode mp n c = Inl (Escaped x)) \<or>
     (\<exists>c'. client_decode mp n c = Inr c' \<and> c_writer c' = c_writer c \<and>
        c_connecting c' = c_connecting c \<and> promises_exist c')"
proof (induction n arbitrary: c)
  case 0
  then show ?case by simp
next
  case (Suc n)
  show ?case
  proof (cases "mp_parse mp (u_buf (c_unpac c))")
    case (Parsed ob r)
    let ?c = "c\<lparr>c_unpac := (c_unpac c)\<lparr>u_buf := r\<rparr>\<rparr>"
    have pe: "promises_exist ?c" using Suc.prems(3) by (simp add: promises_exist_def)
    have "length r < n"
      using parse_consumes [OF Suc.prems(1) Parsed] Suc.prems(2) by simp
    show ?thesis
    proof (cases "Response_of mp ob")
      case (Inr resp)
      show ?thesis
      proof (cases "handle_response resp ?c")
        case ok: (Inr c1)
        note f = handle_response_fields [OF ok]
        have "length (u_buf (c_unpac c1)) < n" using f(3) \<open>length r < n\<close> by simp
        from Suc.IH [OF Suc.prems(1) this f(4) [OF pe]] f(1,2) Inr ok show ?thesis
          by (simp add: unpacker_next_def Parsed)
      qed (simp add: unpacker_next_def Parsed Inr)
    qed (simp add: unpacker_next_def Parsed)
  qed (use Suc.prems(3) in \<open>simp_all add: unpacker_next_def\<close>)
qed

lemma client_do_read_reserved:
  "buffer_laws mp \<Longrightarrow>
     client_do_read (c\<lparr>c_unpac := reserve_if_low mp (c_unpac c)\<rparr>) =
       Inr (c\<lparr>c_unpac := reserve_if_low mp (c_unpac c), c_reading := True\<rparr>)"
  using reserve_if_low_cap [of mp "c_unpac c"] by (simp add: client_do_read_def start_read_def)

definition client_good :: "msgpack \<Rightarrow> fault + 'r client \<Rightarrow> bool" where
  "client_good mp st \<longleftrightarrow> (codec_laws mp \<longrightarrow> buffer_laws mp \<longrightarrow> (case st of
       Inl f \<Rightarrow> (\<exists>x. f = Escaped x) | Inr c \<Rightarrow> client_inv c))"

lemma client_on_read_good:
  assumes "codec_laws mp" and "buffer_laws mp" and "client_inv c" and "c_reading c"
  shows "client_good mp (client_on_read mp rr c)"
proof (cases rr)
  case (ReadOk bs)
  let ?c = "c\<lparr>c_reading := False, c_unpac := buffer_consumed bs (c_unpac c)\<rparr>"
  have "promises_exist ?c" "\<not> c_connecting c" "writer_inv (c_writer c)"
    using assms(3,4) by (auto simp: client_inv_def promises_exist_def)
  moreover have "length (u_buf (c_unpac ?c)) < client_fuel ?c" by (simp add: client_fuel_def)
  ultimately show ?thesis
    using client_decode_cases [OF assms(1), of ?c "client_fuel ?c"] ReadOk
    by (auto simp: client_on_read_def client_good_def client_do_read_reserved [OF assms(2)]
        client_inv_def promises_exist_def Let_def)
qed (use assms in \<open>auto simp: client_on_read_def client_good_def client_inv_def promises_exist_def\<close>)

lemma client_on_connect_good:
  assumes "buffer_laws mp" and "client_inv c" and "c_connecting c"
  shows "client_good mp (case client_on_connect recon cr c of (Inl f, c') \<Rightarrow> Inl f | (Inr _, c') \<Rightarrow> Inr c')"
proof (cases cr)
  case ConnOk
  with assms show ?thesis
    by (simp add: client_on_connect_def client_do_read_def start_read_def client_post_def
        client_good_def client_inv_def promises_exist_def Let_def)
next
  case (ConnError code what)
  obtain again r where "recon (c_reconn c) = (again, r)" by (cases "recon (c_reconn c)")
  with assms ConnError show ?thesis
    by (cases again) (simp_all add: client_on_connect_def client_good_def client_inv_def
        promises_exist_def)
qed

lemma client_on_write_good:
  assumes "client_inv c"
  shows "client_good mp (client_on_write mp ec c)"
proof (cases "w_inflight (c_writer c)")
  case None
  with assms show ?thesis
    by (simp add: client_on_write_def complete_def client_good_def client_inv_def promises_exist_def)
next
  case (Some b)
  have w: "writer_inv (c_writer c)" using assms by (simp add: client_inv_def)
  with Some obtain q where q: "w_queue (c_writer c) = b # q" by (auto simp: writer_inv_def)
  show ?thesis
  proof (cases "complete mp ec (c_writer c)")
    case (Inl f)
    with Some q show ?thesis
      by (cases ec) (auto simp: client_on_write_def client_good_def complete_cases
          split: sum.splits if_splits)
  next
    case (Inr w')
    with complete_inv [OF w this] assms show ?thesis
      by (simp add: client_on_write_def client_good_def client_inv_def promises_exist_def)
  qed
qed

lemma app_call_inv: "client_inv c \<Longrightarrow> client_inv (snd (async_call mp f args c))"
  by (auto simp: async_call_def next_call_idx_def client_post_def client_inv_def promises_exist_def
      Let_def less_Suc_eq)

interpretation client_safe: kept_by_steps "client_machine mp recon" "client_good mp" for mp recon
proof
  fix mp recon st e
  assume good: "client_good mp st"
  show "client_good mp (client_machine mp recon st e)"
  proof (cases "codec_laws mp \<and> buffer_laws mp")
    case False
    then show ?thesis by (auto simp: client_good_def)
  next
    case laws: True
    show ?thesis
    proof (cases st)
      case (Inl f)
      with good show ?thesis by simp
    next
      case (Inr c)
      with good laws have inv: "client_inv c" by (simp add: client_good_def)
      show ?thesis
      proof (cases e)
        case (AppCall f args)
        with app_call_inv [OF inv] Inr show ?thesis by (simp add: client_step_def client_good_def)
      next
        case (AppNotify f args)
        with inv Inr show ?thesis
          by (simp add: client_step_def client_good_def notify_def client_post_def client_inv_def
              promises_exist_def)
      next
        case ClientStrand
        with run_strand_client_inv [OF inv, of mp] Inr show ?thesis
          by (auto simp: client_step_def client_good_def)
      next
        case (ConnectDone cr)
        with inv laws Inr client_on_connect_good [of mp c recon cr] good show ?thesis
          by (simp add: client_step_def)
      next
        case (ClientRead rr)
        with inv laws Inr client_on_read_good [of mp c rr] good show ?thesis
          by (simp add: client_step_def)
      next
        case (ClientWrote ec)
        with client_on_write_good [OF inv] Inr show ?thesis by (simp add: client_step_def)
      qed
    qed
  qed
qed

text \<open>C27. Whatever the application, the server and the network do, in any order, a client never
  takes from an empty write queue, never overlaps two writes, never reads into too small a
  buffer, never names a promise that does not exist and never gets stuck in its decoding loop:
  the only fault left is an exception that leaves a handler.\<close>

theorem client_only_fault_is_escape:
  assumes "codec_laws mp" and "buffer_laws mp"
    and "run_events (client_machine mp recon) (Inr (Client_new mp r)) es = st"
  shows "(\<exists>x. st = Inl (Escaped x)) \<or> (\<exists>c. st = Inr c \<and> promises_exist c)"
proof -
  have "client_good mp (Inr (Client_new mp r))"
    using client_new_inv [OF assms(2), of r] by (simp add: client_good_def)
  from client_safe.run_keeps [OF this, of recon es] assms show ?thesis
    by (cases st) (auto simp: client_good_def client_inv_def)
qed

theorem client_only_fault_is_escape_witness:
  "(\<exists>x. Inl (Escaped (SystemErr \<lparr>se_code = 111, se_text = ''refused''\<rparr>)) = (Inl (Escaped x) :: fault + int client)) \<or>
   (\<exists>c. Inl (Escaped (SystemErr \<lparr>se_code = 111, se_text = ''refused''\<rparr>)) = Inr (c :: int client) \<and> promises_exist c)"
proof (rule client_only_fault_is_escape [OF ref_codec_laws ref_buffer_laws])
  show "run_events (client_machine ref_msgpack default_reconnectable) (Inr (Client_new ref_msgpack 3))
      [AppCall ''f'' [], ClientStrand, ConnectDone (ConnError 110 ''timed out''),
       ConnectDone (ConnError 111 ''refused'')]
    = Inl (Escaped (SystemErr \<lparr>se_code = 111, se_text = ''refused''\<rparr>))"
    by (simp add: client_step_def handler_defs Let_def)
qed

end
