(* ===== verification/ClientSpec.thy ===== *)
theory ClientSpec
  imports ClientRuns
begin

section \<open>What a client promises\<close>

subsection \<open>Responses find their calls\<close>

text \<open>What a response means for the call it answers.\<close>

definition outcome :: "string \<Rightarrow> response \<Rightarrow> promise_state" where
  "outcome f resp = (case r_error resp of
       Some e \<Rightarrow> HasException (RpcErr (RpcError ''rpc::RpcError during call'' f e))
     | None \<Rightarrow> HasValue (case r_result resp of Some v \<Rightarrow> v | None \<Rightarrow> MNil))"

definition awaits :: "'r client \<Rightarrow> uint32 \<Rightarrow> string \<Rightarrow> nat \<Rightarrow> bool" where
  "awaits c i f p \<longleftrightarrow> c_ongoing c i = Some (f, p) \<and> p < length (c_futures c) \<and> c_futures c ! p = Pending"

lemma handle_awaited:
  "awaits c (r_id resp) f p \<Longrightarrow> r_result resp = Some v \<Longrightarrow>
     handle_response resp c = Inr (c\<lparr>c_futures := (c_futures c)[p := outcome f resp],
       c_strand := c_strand c @ [EraseTask (r_id resp)]\<rparr>)"
  by (auto simp: handle_response_def current_call_def settle_call_def settle_def awaits_def
      outcome_def client_post_def split: option.splits)

text \<open>C11. A response settles exactly the call that has its id: the future of the call gets the
  value, or an RpcError that carries the function's name and the error object when the response
  has an error; no other future changes, no ongoing call is lost, and the entry of the call is
  erased by a handler that runs later.\<close>

theorem response_settles_call:
  assumes "awaits c (r_id resp) f p" and "r_result resp = Some v"
  shows "\<exists>c'. handle_response resp c = Inr c' \<and>
     c_futures c' ! p = (case r_error resp of
         None \<Rightarrow> HasValue v
       | Some e \<Rightarrow> HasException (RpcErr (RpcError ''rpc::RpcError during call'' f e))) \<and>
     length (c_futures c') = length (c_futures c) \<and>
     (\<forall>q. q \<noteq> p \<longrightarrow> c_futures c' ! q = c_futures c ! q) \<and>
     c_ongoing c' = c_ongoing c \<and> c_strand c' = c_strand c @ [EraseTask (r_id resp)] \<and>
     c_ongoing (run_erase_task (r_id resp) c') = (c_ongoing c)(r_id resp := None)"
  using assms(1) unfolding handle_awaited [OF assms]
  by (cases "r_error resp")
    (simp_all add: awaits_def outcome_def run_erase_task_def assms(2))

text \<open>A client with two calls under way, for the witnesses.\<close>

definition sample_client :: "int client" where
  "sample_client = (Client_new ref_msgpack 0)\<lparr>c_is_connected := True, c_state := connected,
     c_connecting := False, c_reading := True, c_call_idx := 2,
     c_ongoing := [1 \<mapsto> (''f'', 0), 2 \<mapsto> (''g'', 1)], c_futures := [Pending, Pending]\<rparr>"

theorem response_settles_call_witness:
  "\<exists>c'. handle_response (make_result 2 (MInt 5)) sample_client = Inr c' \<and>
     c_futures c' ! 1 = HasValue (MInt 5) \<and> c_futures c' ! 0 = Pending"
proof -
  have "awaits sample_client (r_id (make_result 2 (MInt 5))) ''g'' 1"
    by (simp add: awaits_def sample_client_def)
  then obtain c' where "handle_response (make_result 2 (MInt 5)) sample_client = Inr c'"
      "c_futures c' ! 1 = HasValue (MInt 5)" "\<forall>q. q \<noteq> 1 \<longrightarrow> c_futures c' ! q = c_futures sample_client ! q"
    using response_settles_call [of sample_client "make_result 2 (MInt 5)" "''g''" 1 "MInt 5"] by auto
  then show ?thesis by (auto simp: sample_client_def)
qed

text \<open>A response whose id belongs to no ongoing call disturbs nothing: every future and every
  ongoing call stays as it is, and once the erase handler has run the ongoing calls are exactly
  what they were.\<close>

lemma unknown_response_harmless:
  assumes "c_ongoing c (r_id resp) = None" and "r_result resp = Some v"
  shows "\<exists>c'. handle_response resp c = Inr c' \<and>
     take (length (c_futures c)) (c_futures c') = c_futures c \<and>
     c_ongoing (run_erase_task (r_id resp) c') = c_ongoing c \<and>
     c_strand c' = c_strand c @ [EraseTask (r_id resp)]"
  using assms
  by (cases "r_error resp")
    (auto simp: handle_response_def current_call_def settle_call_def settle_def client_post_def
      run_erase_task_def Let_def fun_eq_iff)

lemma unknown_response_harmless_witness:
  "\<exists>c'. handle_response (make_result 9 MNil) sample_client = Inr c' \<and>
     take (length (c_futures sample_client)) (c_futures c') = c_futures sample_client \<and>
     c_ongoing (run_erase_task 9 c') = c_ongoing sample_client \<and>
     c_strand c' = [EraseTask 9]"
proof -
  have "c_ongoing sample_client (r_id (make_result 9 MNil)) = None"
    "c_strand sample_client = []"
    by (simp_all add: sample_client_def Client_new_def)
  then show ?thesis
    using unknown_response_harmless [of sample_client "make_result 9 MNil" MNil] by simp
qed

subsection \<open>A stream of responses\<close>

text \<open>
  The futures after the responses \<open>rs\<close> of a server have been read; \<open>expecting\<close> says that each
  of them answers a pending call and that they answer different ones.
\<close>

definition promise_for :: "'r client \<Rightarrow> response \<Rightarrow> nat" where
  "promise_for c r = snd (the (c_ongoing c (r_id r)))"

definition name_for :: "'r client \<Rightarrow> response \<Rightarrow> string" where
  "name_for c r = fst (the (c_ongoing c (r_id r)))"

definition expecting :: "'r client \<Rightarrow> response list \<Rightarrow> bool" where
  "expecting c rs \<longleftrightarrow> distinct (map (promise_for c) rs) \<and>
     (\<forall>r \<in> set rs. awaits c (r_id r) (name_for c r) (promise_for c r))"

definition settled :: "'r client \<Rightarrow> response list \<Rightarrow> promise_state list" where
  "settled c rs =
     fold (\<lambda>r fs. fs[promise_for c r := outcome (name_for c r) (received r)]) rs (c_futures c)"

lemma settled_simps [simp]:
  "settled c [] = c_futures c"
  "settled c (rs @ [r]) = (settled c rs)[promise_for c r := outcome (name_for c r) (received r)]"
  by (simp_all add: settled_def)

text \<open>The client after the first of the responses.\<close>

definition after_response :: "response \<Rightarrow> 'r client \<Rightarrow> 'r client" where
  "after_response r c = c\<lparr>c_futures := settled c [r], c_strand := c_strand c @ [EraseTask (r_id r)]\<rparr>"

lemma after_response_fields [simp]:
  "promise_for (after_response r c) = promise_for c" "name_for (after_response r c) = name_for c"
  "c_futures (after_response r c) = settled c [r]" "c_ongoing (after_response r c) = c_ongoing c"
  "c_unpac (after_response r c) = c_unpac c"
  by (simp_all add: after_response_def promise_for_def name_for_def fun_eq_iff)

lemma reader_fields [simp]:
  "promise_for (c\<lparr>c_unpac := u\<rparr>) = promise_for c" "name_for (c\<lparr>c_unpac := u\<rparr>) = name_for c"
  "promise_for (c\<lparr>c_reading := b\<rparr>) = promise_for c" "name_for (c\<lparr>c_reading := b\<rparr>) = name_for c"
  by (simp_all add: promise_for_def name_for_def fun_eq_iff)

lemma expecting_rest:
  "expecting c (r # rs) \<Longrightarrow> expecting (after_response r c) rs"
  by (auto simp: expecting_def awaits_def settled_def nth_list_update)

lemma settled_rest: "settled (after_response r c) rs = settled c (r # rs)"
  by (simp add: settled_def)

definition after_responses :: "response list \<Rightarrow> 'r client \<Rightarrow> 'r client" where
  "after_responses rs c = fold after_response rs c"

lemma after_responses_simps [simp]:
  "after_responses [] c = c"
  "after_responses (r # rs) c = after_responses rs (after_response r c)"
  "after_responses (rs @ rs') c = after_responses rs' (after_responses rs c)"
  by (simp_all add: after_responses_def)

lemma after_responses_reader [simp]:
  "after_response r (c\<lparr>c_unpac := u\<rparr>) = (after_response r c)\<lparr>c_unpac := u\<rparr>"
  "after_response r (c\<lparr>c_reading := b\<rparr>) = (after_response r c)\<lparr>c_reading := b\<rparr>"
  "after_responses rs (c\<lparr>c_unpac := u\<rparr>) = (after_responses rs c)\<lparr>c_unpac := u\<rparr>"
  "after_responses rs (c\<lparr>c_reading := b\<rparr>) = (after_responses rs c)\<lparr>c_reading := b\<rparr>"
proof -
  show one: "after_response r (c\<lparr>c_unpac := u\<rparr>) = (after_response r c)\<lparr>c_unpac := u\<rparr>"
    "after_response r (c\<lparr>c_reading := b\<rparr>) = (after_response r c)\<lparr>c_reading := b\<rparr>" for r c
    by (simp_all add: after_response_def settled_def)
  show "after_responses rs (c\<lparr>c_unpac := u\<rparr>) = (after_responses rs c)\<lparr>c_unpac := u\<rparr>"
    "after_responses rs (c\<lparr>c_reading := b\<rparr>) = (after_responses rs c)\<lparr>c_reading := b\<rparr>"
    by (induction rs arbitrary: c) (simp_all add: one)
qed

lemma after_responses_fields [simp]:
  "c_futures (after_responses rs c) = settled c rs"
  "c_ongoing (after_responses rs c) = c_ongoing c" "c_unpac (after_responses rs c) = c_unpac c"
  by (induction rs arbitrary: c) (simp_all add: settled_rest)

lemma after_responses_kept [simp]:
  "c_reading (after_responses rs c) = c_reading c" "c_writer (after_responses rs c) = c_writer c"
  by (induction rs arbitrary: c) (simp_all add: after_response_def)

lemma expecting_append:
  "expecting c (rs @ rs') \<Longrightarrow> expecting (after_responses rs c) rs'"
  by (induction rs arbitrary: c) (simp_all add: expecting_rest)

lemma expecting_prefix: "expecting c (rs @ rs') \<Longrightarrow> expecting c rs"
  by (simp add: expecting_def)

lemma handle_expected:
  "expecting c (r # rs) \<Longrightarrow> handle_response (received r) c = Inr (after_response r c)"
  using handle_awaited [of c "received r" "name_for c r" "promise_for c r"]
  by (simp add: expecting_def after_response_def settled_def)

lemma expecting_unpac [simp]:
  "expecting (c\<lparr>c_unpac := u\<rparr>) rs = expecting c rs" "settled (c\<lparr>c_unpac := u\<rparr>) rs = settled c rs"
  "expecting (c\<lparr>c_reading := b\<rparr>) rs = expecting c rs" "settled (c\<lparr>c_reading := b\<rparr>) rs = settled c rs"
  by (simp_all add: expecting_def settled_def awaits_def)

text \<open>The decoding loop on a buffer of responses.\<close>

lemma client_decode_frames:
  assumes "codec_laws mp" and "view_laws mp"
  shows "frames mp bs obs rest \<Longrightarrow> obs = map response_obj rs \<Longrightarrow> u_buf (c_unpac c) = bs \<Longrightarrow>
     expecting c rs \<Longrightarrow> length bs < n \<Longrightarrow>
     client_decode mp n c = Inr (after_responses rs (c\<lparr>c_unpac := (c_unpac c)\<lparr>u_buf := rest\<rparr>\<rparr>))"
proof (induction arbitrary: rs c n rule: frames.induct)
  case (frames_end bs)
  obtain m where "n = Suc m" using frames_end.prems by (cases n) auto
  with frames_end show ?case by (cases c; cases "c_unpac c") (simp add: unpacker_next_def)
next
  case (frames_obj bs ob r obs rest)
  obtain m where n: "n = Suc m" using frames_obj.prems by (cases n) auto
  obtain rp rps where rs: "rs = rp # rps" "ob = response_obj rp" "obs = map response_obj rps"
    using frames_obj.prems(1) by (cases rs) auto
  let ?c = "c\<lparr>c_unpac := (c_unpac c)\<lparr>u_buf := r\<rparr>\<rparr>"
  have ex: "expecting ?c (rp # rps)" using frames_obj.prems(3) rs(1) by simp
  have "length r < m"
    using parse_consumes [OF assms(1) frames_obj.hyps(1)] frames_obj.prems(2,4) n by simp
  from frames_obj.IH [OF rs(3) _ expecting_rest [OF ex] this]
    handle_expected [OF ex] frames_obj.hyps(1) frames_obj.prems(2) rs n
  show ?case
    by (simp add: unpacker_next_def Response_of_obj [OF assms(2)])
qed

lemma client_read_stream:
  assumes "codec_laws mp" and "view_laws mp" and "buffer_laws mp"
    and "\<forall>r \<in> set rs. packable (response_obj r)" and "expecting c rs"
    and "u_buf (c_unpac c) @ bs @ unread = stream mp (map response_obj rs)"
  shows "\<exists>u ds es. rs = ds @ es \<and> u_buf u @ unread = stream mp (map response_obj es) \<and>
     mp_parse mp (u_buf u) = Insufficient \<and>
     client_on_read mp (ReadOk bs) c =
       Inr ((after_responses ds c)\<lparr>c_reading := True, c_unpac := u\<rparr>)"
proof -
  have "\<forall>ob \<in> set (map response_obj rs). packable ob" using assms(4) by simp
  then obtain ds' es' tail where cut: "map response_obj rs = ds' @ es'"
      "u_buf (c_unpac c) @ bs = stream mp ds' @ tail"
      "mp_parse mp tail = Insufficient" "tail @ unread = stream mp es'"
    using stream_cut [OF assms(1), of "map response_obj rs" "u_buf (c_unpac c) @ bs" unread] assms(6)
    by auto
  then obtain ds es where rs: "rs = ds @ es" "ds' = map response_obj ds" "es' = map response_obj es"
    by (auto simp: map_eq_append_conv)
  let ?c = "c\<lparr>c_reading := False, c_unpac := buffer_consumed bs (c_unpac c)\<rparr>"
  let ?u = "reserve_if_low mp ((buffer_consumed bs (c_unpac c))\<lparr>u_buf := tail\<rparr>)"
  have "frames mp (u_buf (c_unpac ?c)) ds' tail"
    using frames_packed [OF assms(1) _ cut(3), of ds'] assms(4) cut(2) rs
    by (simp add: buffer_consumed_def stream_def)
  moreover have "expecting ?c ds" using assms(5) rs(1) by (simp add: expecting_prefix)
  ultimately have "client_decode mp (client_fuel ?c) ?c =
      Inr (after_responses ds (?c\<lparr>c_unpac := (c_unpac ?c)\<lparr>u_buf := tail\<rparr>\<rparr>))"
    using rs(2) by (intro client_decode_frames [OF assms(1,2) _ _ refl]) (simp_all add: client_fuel_def)
  then have "client_on_read mp (ReadOk bs) c =
      Inr ((after_responses ds c)\<lparr>c_reading := True, c_unpac := ?u\<rparr>)"
    using client_do_read_reserved [OF assms(3), of "(after_responses ds c)\<lparr>c_reading := False,
        c_unpac := (buffer_consumed bs (c_unpac c))\<lparr>u_buf := tail\<rparr>\<rparr>"]
    by (simp add: client_on_read_def Let_def)
  moreover have "u_buf ?u @ unread = stream mp (map response_obj es)" "mp_parse mp (u_buf ?u) = Insufficient"
    using cut(3,4) rs(3) by simp_all
  ultimately show ?thesis using rs(1) by blast
qed

lemma settled_nth:
  assumes "expecting c rs"
  shows "(\<forall>r \<in> set rs. settled c rs ! promise_for c r = outcome (name_for c r) (received r)) \<and>
    (\<forall>p. p \<notin> promise_for c ` set rs \<longrightarrow> settled c rs ! p = c_futures c ! p) \<and>
    length (settled c rs) = length (c_futures c)"
  using assms
proof (induction rs rule: rev_induct)
  case Nil
  then show ?case by simp
next
  case (snoc r rs)
  then show ?case by (auto simp: expecting_def awaits_def nth_list_update)
qed

text \<open>All responses of a stream, cut into reads in any way.\<close>

lemma client_read_all:
  assumes "codec_laws mp" and "view_laws mp" and "buffer_laws mp"
  shows "\<forall>r \<in> set rs. packable (response_obj r) \<Longrightarrow> expecting c rs \<Longrightarrow> c_reading c \<Longrightarrow>
     mp_parse mp (u_buf (c_unpac c)) = Insufficient \<Longrightarrow>
     u_buf (c_unpac c) @ concat chunks = stream mp (map response_obj rs) \<Longrightarrow>
     \<exists>u. run_events (client_machine mp recon) (Inr c) (map (\<lambda>bs. ClientRead (ReadOk bs)) chunks) =
       Inr ((after_responses rs c)\<lparr>c_reading := True, c_unpac := u\<rparr>)"
proof (induction chunks arbitrary: c rs)
  case Nil
  have "rs = []"
  proof (cases rs)
    case (Cons r rs')
    with Nil.prems(1) have "packable (response_obj r)" by simp
    with Nil.prems(4,5) Cons parse_pack [OF assms(1)] show ?thesis by simp
  qed
  with Nil.prems(3) show ?case by (intro exI [of _ "c_unpac c"]) (cases c; simp)
next
  case (Cons bs chunks)
  have "u_buf (c_unpac c) @ bs @ concat chunks = stream mp (map response_obj rs)"
    using Cons.prems(5) by simp
  from client_read_stream [OF assms Cons.prems(1,2) this] obtain u ds es where step:
      "rs = ds @ es" "u_buf u @ concat chunks = stream mp (map response_obj es)"
      "mp_parse mp (u_buf u) = Insufficient"
      "client_on_read mp (ReadOk bs) c = Inr ((after_responses ds c)\<lparr>c_reading := True, c_unpac := u\<rparr>)"
    by blast
  let ?c = "(after_responses ds c)\<lparr>c_reading := True, c_unpac := u\<rparr>"
  have "expecting ?c es" using Cons.prems(2) step(1) by (simp add: expecting_append)
  with Cons.IH [of es ?c] step Cons.prems(1,3) obtain u' where
    "run_events (client_machine mp recon) (Inr ?c) (map (\<lambda>bs. ClientRead (ReadOk bs)) chunks) =
       Inr ((after_responses es ?c)\<lparr>c_reading := True, c_unpac := u'\<rparr>)"
    by auto
  with step Cons.prems(3) show ?case
    by (intro exI [of _ u']) (simp add: client_step_def)
qed

text \<open>C12. However the stream of a server's responses is cut into reads, and in whatever order
  they come, once it has been read every awaited call has the outcome of its own response, all
  other futures are as before, and nothing escapes.\<close>

theorem client_settles_stream:
  assumes "codec_laws mp" and "view_laws mp" and "buffer_laws mp"
    and "\<forall>r \<in> set rs. packable (response_obj r)" and "expecting c rs" and "c_reading c"
    and "u_buf (c_unpac c) = []" and "concat chunks = stream mp (map response_obj rs)"
  shows "\<exists>c'. run_events (client_machine mp recon) (Inr c) (map (\<lambda>bs. ClientRead (ReadOk bs)) chunks)
       = Inr c' \<and>
     (\<forall>r \<in> set rs. c_futures c' ! promise_for c r = outcome (name_for c r) (received r)) \<and>
     (\<forall>p. p \<notin> promise_for c ` set rs \<longrightarrow> c_futures c' ! p = c_futures c ! p)"
proof -
  obtain u where u: "run_events (client_machine mp recon) (Inr c)
      (map (\<lambda>bs. ClientRead (ReadOk bs)) chunks) =
      Inr ((after_responses rs c)\<lparr>c_reading := True, c_unpac := u\<rparr>)"
    using client_read_all [OF assms(1-6), of chunks recon] assms(7,8) parse_empty [OF assms(1)]
    by auto
  with settled_nth [OF assms(5)] show ?thesis by simp
qed

definition sample_responses :: "response list" where
  "sample_responses = [make_result 2 (MInt 5), make_error 1 (MStr ''no'')]"

lemma sample_expecting:
  "expecting sample_client sample_responses"
  "\<forall>r \<in> set sample_responses. packable (response_obj r)"
  "c_reading sample_client" "u_buf (c_unpac sample_client) = []"
  by (simp_all add: expecting_def awaits_def sample_responses_def sample_client_def
      promise_for_def name_for_def packable_response_obj)

theorem client_settles_stream_witness:
  "\<exists>c'. run_events (client_machine ref_msgpack default_reconnectable) (Inr sample_client)
     [ClientRead (ReadOk (take 10 (stream ref_msgpack (map response_obj sample_responses)))),
      ClientRead (ReadOk (drop 10 (stream ref_msgpack (map response_obj sample_responses))))]
     = Inr c' \<and>
   c_futures c' ! 1 = HasValue (MInt 5) \<and>
   c_futures c' ! 0 =
     HasException (RpcErr (RpcError ''rpc::RpcError during call'' ''f'' (MStr ''no'')))"
proof -
  let ?s = "stream ref_msgpack (map response_obj sample_responses)"
  have "concat [take 10 ?s, drop 10 ?s] = ?s" by simp
  from client_settles_stream [OF ref_codec_laws ref_view_laws ref_buffer_laws sample_expecting(2,1,3,4) this,
      of default_reconnectable]
  show ?thesis
    by (auto simp: sample_responses_def sample_client_def promise_for_def name_for_def outcome_def)
qed

end
