(* ===== verification/ClientCalls.thy ===== *)
theory ClientCalls
  imports ClientSpec
begin

section \<open>Calls, connecting and waiting\<close>

subsection \<open>Issuing calls\<close>

text \<open>What a list of calls posts: consecutive ids, consecutive promises, the packed requests.\<close>

type_synonym request = "string \<times> mobj list"

fun posted :: "msgpack \<Rightarrow> int32 \<Rightarrow> nat \<Rightarrow> request list \<Rightarrow> client_task list" where
  "posted mp idx p [] = []"
| "posted mp idx p ((f, args) # reqs) =
     CallTask (idx + 1) f p (mp_pack mp (call_obj (idx + 1) f args)) # posted mp (idx + 1) (Suc p) reqs"

definition issue :: "msgpack \<Rightarrow> request list \<Rightarrow> 'r client \<Rightarrow> 'r client" where
  "issue mp reqs c = fold (\<lambda>(f, args) c. snd (async_call mp f args c)) reqs c"

lemma issue_eq:
  "issue mp reqs c = c\<lparr>c_call_idx := c_call_idx c + of_nat (length reqs),
     c_futures := c_futures c @ replicate (length reqs) Pending,
     c_strand := c_strand c @ posted mp (c_call_idx c) (length (c_futures c)) reqs\<rparr>"
proof (induction reqs arbitrary: c)
  case Nil
  then show ?case by (simp add: issue_def)
next
  case (Cons req reqs)
  obtain f args where req: "req = (f, args)" by (cases req)
  have "issue mp (req # reqs) c = issue mp reqs (snd (async_call mp f args c))"
    by (simp add: issue_def req)
  also have "snd (async_call mp f args c) = c\<lparr>c_call_idx := c_call_idx c + 1,
      c_futures := c_futures c @ [Pending],
      c_strand := c_strand c @ [CallTask (c_call_idx c + 1) f (length (c_futures c))
        (mp_pack mp (call_obj (c_call_idx c + 1) f args))]\<rparr>"
    by (simp add: async_call_def next_call_idx_def client_post_def Let_def)
  finally show ?case
    using Cons [of "snd (async_call mp f args c)"]
    by (simp add: async_call_def next_call_idx_def client_post_def Let_def req add_ac)
qed

lemma issue_run:
  "run_events (client_machine mp recon) (Inr c) (map (\<lambda>(f, args). AppCall f args) reqs) =
     Inr (issue mp reqs c)"
  by (induction reqs arbitrary: c) (auto simp: issue_def client_step_def)

text \<open>The ids of the calls posted by a client.\<close>

definition task_ids :: "client_task list \<Rightarrow> int32 list" where
  "task_ids ts = concat (map (\<lambda>t. case t of CallTask i f p b \<Rightarrow> [i] | _ \<Rightarrow> []) ts)"

lemma posted_ids: "task_ids (posted mp idx p reqs) = map (\<lambda>k. idx + of_nat (Suc k)) [0..<length reqs]"
proof (induction reqs arbitrary: idx p)
  case (Cons req reqs)
  obtain f args where "req = (f, args)" by (cases req)
  then show ?case
    using Cons [of "idx + 1" "Suc p"]
    by (simp add: task_ids_def upt_conv_Cons map_Suc_upt [symmetric] comp_def add_ac del: upt_Suc)
qed (simp add: task_ids_def)

lemma of_nat_word_inject:
  "a < 2 ^ 32 \<Longrightarrow> b < 2 ^ 32 \<Longrightarrow> (of_nat a :: 32 word) = of_nat b \<longleftrightarrow> a = b"
  by (simp add: word_of_nat_eq_iff take_bit_nat_eq_self)

lemma distinct_ids:
  "distinct (map (\<lambda>k. (idx :: 32 word) + of_nat (Suc k)) [0..<n]) \<longleftrightarrow> n \<le> 2 ^ 32"
proof
  assume "n \<le> 2 ^ 32"
  have "inj_on (\<lambda>k. idx + of_nat (Suc k)) {..<2 ^ 32}"
  proof (rule inj_onI)
    fix a b :: nat
    assume ab: "a \<in> {..<2 ^ 32}" "b \<in> {..<2 ^ 32}" "idx + of_nat (Suc a) = idx + of_nat (Suc b)"
    then have "(of_nat a :: 32 word) = of_nat b" by simp
    with ab show "a = b" using of_nat_word_inject by simp
  qed
  with \<open>n \<le> 2 ^ 32\<close> show "distinct (map (\<lambda>k. idx + of_nat (Suc k)) [0..<n])"
    by (auto simp: distinct_map atLeast0LessThan intro: inj_on_subset)
next
  assume d: "distinct (map (\<lambda>k. idx + of_nat (Suc k)) [0..<n])"
  have "n = card (set (map (\<lambda>k. idx + of_nat (Suc k)) [0..<n]))"
    using distinct_card [OF d] by simp
  also have "\<dots> \<le> card (UNIV :: 32 word set)" by (intro card_mono) simp_all
  also have "\<dots> = 2 ^ 32" by (simp add: card_word)
  finally show "n \<le> 2 ^ 32" .
qed

text \<open>C28. Call ids: the ids of consecutive calls of a client are pairwise different as long as
  there are at most 2 to the 32 of them, across the overflow of the signed counter, and no
  longer; the id with which a request is packed is the one under which its promise is stored.\<close>

theorem call_ids_unique:
  "(distinct (task_ids (posted mp (c_call_idx c) (length (c_futures c)) reqs)) \<longleftrightarrow>
      length reqs \<le> 2 ^ 32) \<and>
   c_strand (issue mp reqs c) = c_strand c @ posted mp (c_call_idx c) (length (c_futures c)) reqs \<and>
   (\<forall>i f p b. CallTask i f p b \<in> set (posted mp (c_call_idx c) (length (c_futures c)) reqs) \<longrightarrow>
      (\<exists>args. (f, args) \<in> set reqs \<and> b = mp_pack mp (call_obj i f args)))"
proof -
  have "\<exists>args. (f, args) \<in> set reqs \<and> b = mp_pack mp (call_obj i f args)"
    if "CallTask i f p b \<in> set (posted mp idx q reqs)" for i f p b idx q
    using that
  proof (induction reqs arbitrary: idx q)
    case (Cons req reqs)
    then show ?case by (cases req) fastforce
  qed simp
  then show ?thesis unfolding posted_ids distinct_ids issue_eq by auto
qed

text \<open>Two calls across the overflow of the signed counter.\<close>

theorem call_ids_unique_witness:
  "distinct (task_ids (posted ref_msgpack 0x7FFFFFFF 0 [(''f'', []), (''g'', [])])) \<and>
   task_ids (posted ref_msgpack 0x7FFFFFFF 0 [(''f'', []), (''g'', [])]) = [0x80000000, 0x80000001]"
  using call_ids_unique [of ref_msgpack "(Client_new ref_msgpack (0 :: int))\<lparr>c_call_idx := 0x7FFFFFFF\<rparr>"
      "[(''f'', []), (''g'', [])]"]
  by (simp add: task_ids_def)

subsection \<open>Calls made before the connection\<close>

lemma client_write_open:
  "writer_open (c_writer c) \<Longrightarrow> client_write b c = Inr (c\<lparr>c_writer := put_message b (c_writer c)\<rparr>)"
  by (simp add: client_write_def put_message_def or_unchanged_def
      writer_write_total [OF writer_open_inv])

lemma write_pending_open:
  "writer_open (c_writer c) \<Longrightarrow>
     write_pending mp bs c =
       Inr (replicate (length bs) (mp_moved mp), c\<lparr>c_writer := fold put_message bs (c_writer c)\<rparr>)"
proof (induction bs arbitrary: c)
  case Nil
  then show ?case by (cases c; simp)
next
  case (Cons b bs)
  have "\<not> is_closed (c_writer c)" using Cons.prems by (simp add: writer_open_def is_closed_def)
  moreover have "writer_open (put_message b (c_writer c))" using Cons.prems by (rule chan.ready_put)
  ultimately show ?case using Cons by (simp add: client_write_open)
qed

lemma flush_pending_open:
  "writer_open (c_writer c) \<Longrightarrow>
     flush_pending mp c = Inr (c\<lparr>c_writer := fold put_message (c_pending c) (c_writer c),
       c_pending := replicate (length (c_pending c)) (mp_moved mp)\<rparr>)"
  by (simp add: flush_pending_def write_pending_open)

text \<open>The buffers and entries that posted calls leave behind.\<close>

definition posted_buffers :: "msgpack \<Rightarrow> int32 \<Rightarrow> nat \<Rightarrow> request list \<Rightarrow> bytes list" where
  "posted_buffers mp idx p reqs =
     concat (map (\<lambda>t. case t of CallTask i f q b \<Rightarrow> [b] | _ \<Rightarrow> []) (posted mp idx p reqs))"

lemma posted_buffers_simps [simp]:
  "posted_buffers mp idx p [] = []"
  "posted_buffers mp idx p ((f, args) # reqs) =
     mp_pack mp (call_obj (idx + 1) f args) # posted_buffers mp (idx + 1) (Suc p) reqs"
  by (simp_all add: posted_buffers_def)

fun register :: "int32 \<Rightarrow> nat \<Rightarrow> request list \<Rightarrow> (int32 \<rightharpoonup> call_t) \<Rightarrow> (int32 \<rightharpoonup> call_t)" where
  "register idx p [] m = m"
| "register idx p ((f, args) # reqs) m = register (idx + 1) (Suc p) reqs (m(idx + 1 \<mapsto> (f, p)))"

definition no_ongoing :: "'r client \<Rightarrow> int32 \<Rightarrow> nat \<Rightarrow> bool" where
  "no_ongoing c idx n \<longleftrightarrow> (\<forall>k < n. c_ongoing c (idx + of_nat (Suc k)) = None)"

lemma no_ongoing_Suc:
  "no_ongoing c idx (Suc n) \<Longrightarrow> c_ongoing c (idx + 1) = None"
  "no_ongoing c idx (Suc n) \<Longrightarrow> Suc n \<le> 2 ^ 32 \<Longrightarrow>
     no_ongoing (c\<lparr>c_ongoing := (c_ongoing c)(idx + 1 \<mapsto> e), c_strand := ts, c_pending := ps, c_writer := w\<rparr>)
       (idx + 1) n"
proof -
  assume n: "no_ongoing c idx (Suc n)"
  then show "c_ongoing c (idx + 1) = None" by (force simp: no_ongoing_def)
  assume small: "Suc n \<le> 2 ^ 32"
  have "idx + 1 + of_nat (Suc k) \<noteq> idx + 1" if "k < n" for k
  proof -
    have "(of_nat (Suc k) :: 32 word) \<noteq> of_nat 0"
      using of_nat_word_inject [of "Suc k" 0] that small by simp
    then show ?thesis by simp
  qed
  moreover have "c_ongoing c (idx + 1 + of_nat (Suc k)) = None" if "k < n" for k
  proof -
    from n that have "c_ongoing c (idx + of_nat (Suc (Suc k))) = None"
      unfolding no_ongoing_def by blast
    then show ?thesis by (simp add: add_ac)
  qed
  ultimately show "no_ongoing (c\<lparr>c_ongoing := (c_ongoing c)(idx + 1 \<mapsto> e), c_strand := ts,
      c_pending := ps, c_writer := w\<rparr>) (idx + 1) n"
    by (simp add: no_ongoing_def)
qed

lemma run_posted_pending:
  "\<not> c_is_connected c \<Longrightarrow> c_strand c = posted mp idx p reqs @ ts \<Longrightarrow> length reqs \<le> 2 ^ 32 \<Longrightarrow>
     no_ongoing c idx (length reqs) \<Longrightarrow>
     run_events (client_machine mp recon) (Inr c) (replicate (length reqs) ClientStrand) =
       Inr (c\<lparr>c_strand := ts, c_ongoing := register idx p reqs (c_ongoing c),
         c_pending := c_pending c @ posted_buffers mp idx p reqs\<rparr>)"
proof (induction reqs arbitrary: c idx p)
  case Nil
  then show ?case by (cases c; simp)
next
  case (Cons req reqs)
  obtain f args where req: "req = (f, args)" by (cases req)
  let ?b = "mp_pack mp (call_obj (idx + 1) f args)"
  let ?c = "c\<lparr>c_ongoing := (c_ongoing c)(idx + 1 \<mapsto> (f, p)), c_strand := posted mp (idx + 1) (Suc p) reqs @ ts,
    c_pending := c_pending c @ [?b], c_writer := c_writer c\<rparr>"
  have "abandon (idx + 1) (c\<lparr>c_strand := posted mp (idx + 1) (Suc p) reqs @ ts\<rparr>) =
      c\<lparr>c_strand := posted mp (idx + 1) (Suc p) reqs @ ts\<rparr>"
    using Cons.prems(4) no_ongoing_Suc(1) [of c idx "length reqs"] by (simp add: abandon_def)
  then have "client_step mp recon c ClientStrand = Inr ?c"
    using Cons.prems(1,2) by (simp add: client_step_def client_run_strand_def run_client_task_def
        run_call_task_def req)
  moreover have "no_ongoing ?c (idx + 1) (length reqs)"
    using Cons.prems(3,4) by (intro no_ongoing_Suc(2)) simp_all
  ultimately show ?case
    using Cons.IH [of ?c "idx + 1" "Suc p"] Cons.prems(1,3) by (simp add: req fun_upd_def)
qed

text \<open>The requests of a list of calls of a new client, as they are packed.\<close>

definition request_bytes :: "msgpack \<Rightarrow> request list \<Rightarrow> bytes list" where
  "request_bytes mp reqs =
     map (\<lambda>(k, f, args). mp_pack mp (call_obj (of_nat (Suc k)) f args)) (enumerate 0 reqs)"

lemma posted_buffers_enumerate:
  "posted_buffers mp (of_nat n) p reqs =
     map (\<lambda>(k, f, args). mp_pack mp (call_obj (of_nat (Suc k)) f args)) (enumerate n reqs)"
proof (induction reqs arbitrary: n p)
  case (Cons req reqs)
  obtain f args where "req = (f, args)" by (cases req)
  then show ?case using Cons [of "Suc n" "Suc p"] by (simp add: add.commute)
qed simp

lemma posted_buffers_new: "posted_buffers mp 0 p reqs = request_bytes mp reqs"
  using posted_buffers_enumerate [of mp 0 p reqs] by (simp add: request_bytes_def)

lemma put_all_new:
  "w_queue (fold put_message ds (AsyncWriter_new :: 't writer)) = ds"
  "w_wire (fold put_message ds (AsyncWriter_new :: 't writer)) = []"
  "writer_open (fold put_message ds (AsyncWriter_new :: 't writer))"
proof -
  have "writer_open (AsyncWriter_new :: 't writer)" "w_queue (AsyncWriter_new :: 't writer) = []"
    "w_wire (AsyncWriter_new :: 't writer) = []"
    by (simp_all add: writer_open_def AsyncWriter_new_def)
  with chan.put_all [of "AsyncWriter_new :: 't writer" ds]
  show "w_queue (fold put_message ds (AsyncWriter_new :: 't writer)) = ds"
    "w_wire (fold put_message ds (AsyncWriter_new :: 't writer)) = []"
    "writer_open (fold put_message ds (AsyncWriter_new :: 't writer))"
    by simp_all
qed

text \<open>A new client whose calls are posted before the connection is made.\<close>

definition early_calls :: "request list \<Rightarrow> client_event list" where
  "early_calls reqs = map (\<lambda>(f, args). AppCall f args) reqs @
     replicate (length reqs) ClientStrand @ [ConnectDone ConnOk, ClientStrand]"

lemma length_request_bytes [simp]: "length (request_bytes mp reqs) = length reqs"
  by (simp add: request_bytes_def)

lemma early_calls_run:
  assumes "buffer_laws mp" and "length reqs \<le> 2 ^ 32"
  shows "run_events (client_machine mp recon) (Inr (Client_new mp r)) (early_calls reqs) =
    Inr ((Client_new mp r)\<lparr>c_call_idx := of_nat (length reqs),
      c_futures := replicate (length reqs) Pending, c_ongoing := register 0 0 reqs Map.empty,
      c_pending := replicate (length reqs) [], c_is_connected := True, c_state := connected,
      c_connecting := False, c_reading := True, c_strand := [],
      c_writer := fold put_message (request_bytes mp reqs) AsyncWriter_new\<rparr>)"
proof -
  let ?new = "Client_new mp r"
  let ?c1 = "?new\<lparr>c_call_idx := of_nat (length reqs),
      c_futures := replicate (length reqs) Pending, c_strand := posted mp 0 0 reqs\<rparr>"
  let ?c2 = "?c1\<lparr>c_strand := [], c_ongoing := register 0 0 reqs Map.empty,
    c_pending := request_bytes mp reqs\<rparr>"
  have "issue mp reqs ?new = ?c1" by (simp add: issue_eq)
  moreover have "run_events (client_machine mp recon) (Inr ?c1) (replicate (length reqs) ClientStrand) =
      Inr ?c2"
    using run_posted_pending [of ?c1 mp 0 0 reqs "[]" recon] assms(2)
    by (simp add: no_ongoing_def posted_buffers_new)
  moreover have "writer_open (AsyncWriter_new :: unit writer)"
    by (simp add: writer_open_def AsyncWriter_new_def)
  then have "run_events (client_machine mp recon) (Inr ?c2) [ConnectDone ConnOk, ClientStrand] =
      Inr (?c2\<lparr>c_connecting := False, c_is_connected := True, c_state := connected,
        c_reading := True, c_strand := [],
        c_writer := fold put_message (request_bytes mp reqs) AsyncWriter_new,
        c_pending := replicate (length reqs) []\<rparr>)"
    using unpacker_new_cap [OF assms(1)] assms(1)
    by (simp add: client_step_def client_on_connect_def client_do_read_def start_read_def
        client_post_def client_run_strand_def run_client_task_def Let_def flush_pending_open)
  ultimately show ?thesis by (simp add: early_calls_def issue_run)
qed

text \<open>Calls made before the connection exists are not lost and not reordered: they are kept
  until the connection is made and then handed to the writer, each exactly once, in the order
  of the calls, with the ids 1, 2, ...; every future is still pending and its call is
  registered under its id.\<close>

lemma early_calls_sent_in_order:
  assumes "buffer_laws mp" and "length reqs \<le> 2 ^ 32"
  shows "\<exists>c. run_events (client_machine mp recon) (Inr (Client_new mp r)) (early_calls reqs) = Inr c \<and>
     w_wire (c_writer c) @ w_queue (c_writer c) =
       map (\<lambda>(k, f, args). mp_pack mp (call_obj (of_nat (Suc k)) f args)) (enumerate 0 reqs) \<and>
     writer_open (c_writer c) \<and> c_futures c = replicate (length reqs) Pending \<and>
     c_ongoing c = register 0 0 reqs Map.empty \<and> connection_state c = connected"
  by (simp add: early_calls_run [OF assms] put_all_new connection_state_def)
    (simp add: request_bytes_def)

lemma early_calls_sent_in_order_example:
  "\<exists>c. run_events (client_machine ref_msgpack default_reconnectable)
       (Inr (Client_new ref_msgpack 0)) (early_calls [(''f'', []), (''g'', [MNil])]) = Inr c \<and>
     w_wire (c_writer c) @ w_queue (c_writer c) =
       [mp_pack ref_msgpack (call_obj 1 ''f'' []), mp_pack ref_msgpack (call_obj 2 ''g'' [MNil])] \<and>
     writer_open (c_writer c) \<and> c_futures c = [Pending, Pending] \<and>
     c_ongoing c = [1 \<mapsto> (''f'', 0), 2 \<mapsto> (''g'', 1)] \<and> connection_state c = connected"
proof -
  have "length [(''f'', []), (''g'', [MNil])] \<le> 2 ^ 32" by simp
  from early_calls_sent_in_order [OF ref_buffer_laws this, of default_reconnectable 0]
  show ?thesis by (simp add: numeral_2_eq_2)
qed

text \<open>The buffers of early calls are never dropped: on a connected client, every later call
  first hands all of them to the writer again, as the empty buffers that were left when they
  were moved from, and keeps them.\<close>

lemma pending_calls_never_cleared:
  assumes "writer_open (c_writer c)" and "c_is_connected c"
  shows "\<exists>c'. run_client_task mp (CallTask idx f p buffer) c = Inr c' \<and>
     w_queue (c_writer c') = w_queue (c_writer c) @ c_pending c @ [buffer] \<and>
     c_pending c' = replicate (length (c_pending c)) (mp_moved mp)"
proof -
  have o: "writer_open (fold put_message (c_pending c) (c_writer c))"
    "w_queue (fold put_message (c_pending c) (c_writer c)) = w_queue (c_writer c) @ c_pending c"
    using chan.put_all [OF assms(1)] by simp_all
  then show ?thesis
    using assms chan.pending_put [OF o(1), of buffer]
    by (simp add: run_client_task_def run_call_task_def flush_pending_open client_write_open)
qed

lemma pending_calls_never_cleared_witness:
  "\<exists>c'. run_client_task ref_msgpack (CallTask 4 ''f'' 3 [9])
       (sample_client\<lparr>c_pending := [[], [], []]\<rparr>) = Inr c' \<and>
     w_queue (c_writer c') = [[], [], [], [9]] \<and> c_pending c' = [[], [], []]"
proof -
  have "writer_open (c_writer (sample_client\<lparr>c_pending := [[], [], []]\<rparr>))"
    "c_is_connected (sample_client\<lparr>c_pending := [[], [], []]\<rparr>)"
    "w_queue (c_writer sample_client) = []"
    by (simp_all add: sample_client_def Client_new_def AsyncWriter_new_def writer_open_def)
  with pending_calls_never_cleared [OF this(1,2), of ref_msgpack 4 "''f''" 3 "[9]"] show ?thesis
    by (simp add: numeral_3_eq_3)
qed

subsection \<open>A notification before the connection\<close>

lemma stalled_write:
  "stalled w \<Longrightarrow> \<exists>w'. writer_write d w = Inr w' \<and> stalled w' \<and> w_wire w' = w_wire w"
  by (auto simp: stalled_def writer_write_def Let_def)

lemma stalled_write_pending:
  "stalled (c_writer c) \<Longrightarrow> \<exists>left w. write_pending mp bs c = Inr (left, c\<lparr>c_writer := w\<rparr>) \<and>
     stalled w \<and> w_wire w = w_wire (c_writer c)"
proof (induction bs arbitrary: c)
  case Nil
  then show ?case by (intro exI [of _ "[]"] exI [of _ "c_writer c"]) (cases c; simp)
next
  case (Cons b bs)
  obtain w where w: "writer_write b (c_writer c) = Inr w" "stalled w" "w_wire w = w_wire (c_writer c)"
    using stalled_write [OF Cons.prems] by blast
  with Cons.IH [of "c\<lparr>c_writer := w\<rparr>"] show ?case by (auto simp: client_write_def)
qed

definition wedged :: "bytes list \<Rightarrow> 'r client \<Rightarrow> bool" where
  "wedged ws c \<longleftrightarrow> stalled (c_writer c) \<and> w_wire (c_writer c) = ws"

lemma wedged_write: "wedged ws c \<Longrightarrow> client_write b c = Inr c' \<Longrightarrow> wedged ws c'"
  using stalled_write [of "c_writer c" b] by (auto simp: wedged_def client_write_def)

lemma wedged_flush: "wedged ws c \<Longrightarrow> flush_pending mp c = Inr c' \<Longrightarrow> wedged ws c'"
  using stalled_write_pending [of c mp "c_pending c"] by (auto simp: wedged_def flush_pending_def)

lemma wedged_frame:
  "c_writer c' = c_writer c \<Longrightarrow> wedged ws c' = wedged ws c"
  by (simp add: wedged_def)

lemma client_decode_writer: "client_decode mp n c = Inr c' \<Longrightarrow> c_writer c' = c_writer c"
proof (induction n arbitrary: c)
  case (Suc n)
  then show ?case
    by (auto split: next_result.splits sum.splits dest!: handle_response_fields(1))
qed simp

lemma wedged_step:
  assumes "wedged ws c" and "client_step mp recon c e = Inr c'"
  shows "wedged ws c'"
proof (cases e)
  case (ConnectDone cr)
  with assms show ?thesis
    by (cases cr; cases "recon (c_reconn c)")
      (auto simp: client_step_def client_on_connect_def client_do_read_def start_read_def
        client_post_def wedged_def Let_def split: if_splits bool.splits)
next
  case (ClientRead rr)
  with assms show ?thesis
    by (cases rr) (auto simp: client_step_def client_on_read_def client_do_read_def start_read_def
        wedged_def Let_def dest!: client_decode_writer split: if_splits sum.splits)
next
  case ClientStrand
  show ?thesis
  proof (cases "c_strand c")
    case (Cons t ts)
    let ?c = "c\<lparr>c_strand := ts\<rparr>"
    have w: "wedged ws ?c" using assms(1) by (simp add: wedged_def)
    have run: "run_client_task mp t ?c = Inr c'"
      using assms(2) ClientStrand Cons by (simp add: client_step_def client_run_strand_def)
    show ?thesis
    proof (cases t)
      case (CallTask i f p b)
      let ?d = "(abandon i ?c)\<lparr>c_ongoing := (c_ongoing ?c)(i \<mapsto> (f, p))\<rparr>"
      have d: "wedged ws ?d" using w by (simp add: wedged_def)
      show ?thesis
      proof (cases "c_is_connected c")
        case True
        with run CallTask obtain d1 where "flush_pending mp ?d = Inr d1" "client_write b d1 = Inr c'"
          by (auto simp: run_client_task_def run_call_task_def split: sum.splits)
        with d show ?thesis by (blast intro: wedged_flush wedged_write)
      next
        case False
        with run CallTask d show ?thesis
          by (auto simp: run_client_task_def run_call_task_def wedged_def)
      qed
    next
      case (NotifyTask b)
      with run w show ?thesis by (auto simp: run_client_task_def intro: wedged_write)
    next
      case FlushTask
      with run w show ?thesis by (auto simp: run_client_task_def intro: wedged_flush)
    next
      case (EraseTask i)
      with run w show ?thesis by (auto simp: run_client_task_def run_erase_task_def wedged_def)
    qed
  qed (use assms ClientStrand in \<open>simp add: client_step_def client_run_strand_def\<close>)
next
  case (ClientWrote ec)
  with assms show ?thesis
    by (auto simp: client_step_def client_on_write_def wedged_def stalled_def complete_def)
qed (use assms in \<open>auto simp: client_step_def async_call_def next_call_idx_def client_post_def
    notify_def wedged_def Let_def\<close>)

lemma wedged_run:
  "wedged ws c \<Longrightarrow> run_events (client_machine mp recon) (Inr c) es = Inr c' \<Longrightarrow> wedged ws c'"
proof (induction es arbitrary: c)
  case (Cons e es)
  from Cons.prems(2) obtain c1 where "client_step mp recon c e = Inr c1"
    by (cases "client_step mp recon c e") auto
  with Cons wedged_step [OF Cons.prems(1) this] show ?case by simp
qed simp

text \<open>Unlike a call, a notification is not held back until the connection exists: it is
  written to the socket at once. When that write fails with an error other than a broken pipe,
  the client is silent for ever: in every continuation, through the connection and whatever is
  called later, nothing is put on the wire.\<close>

lemma early_notification_wedges:
  assumes "run_events (client_machine mp recon) (Inr (Client_new mp r))
     (AppNotify f args # ClientStrand # ClientWrote WriteError # es) = Inr c"
  shows "w_wire (c_writer c) = []"
proof -
  have "\<exists>c1. run_events (client_machine mp recon) (Inr (Client_new mp r))
      [AppNotify f args, ClientStrand, ClientWrote WriteError] = Inr c1 \<and> wedged [] c1"
    by (simp add: client_step_def handler_defs AsyncWriter_new_def wedged_def stalled_def)
  then obtain c1 where c1: "run_events (client_machine mp recon) (Inr (Client_new mp r))
      [AppNotify f args, ClientStrand, ClientWrote WriteError] = Inr c1" "wedged [] c1"
    by blast
  with assms have "run_events (client_machine mp recon) (Inr c1) es = Inr c" by simp
  from wedged_run [OF c1(2) this] show ?thesis by (simp add: wedged_def)
qed

text \<open>For the witness: the connection is made after the failure and a call is issued.\<close>

lemma early_notification_wedges_witness:
  "\<exists>c. run_events (client_machine ref_msgpack default_reconnectable) (Inr (Client_new ref_msgpack 0))
     [AppNotify ''hello'' [], ClientStrand, ClientWrote WriteError, ConnectDone ConnOk, ClientStrand,
      AppCall ''f'' [], ClientStrand, ClientWrote WriteOk] = Inr c \<and> w_wire (c_writer c) = []"
proof -
  have "\<exists>c. run_events (client_machine ref_msgpack default_reconnectable) (Inr (Client_new ref_msgpack 0))
     [AppNotify ''hello'' [], ClientStrand, ClientWrote WriteError, ConnectDone ConnOk, ClientStrand,
      AppCall ''f'' [], ClientStrand, ClientWrote WriteOk] = Inr c"
    using unpacker_new_cap [OF ref_buffer_laws]
    by (simp add: client_step_def handler_defs AsyncWriter_new_def Let_def)
  then obtain c where c: "run_events (client_machine ref_msgpack default_reconnectable) (Inr (Client_new ref_msgpack 0))
     [AppNotify ''hello'' [], ClientStrand, ClientWrote WriteError, ConnectDone ConnOk, ClientStrand,
      AppCall ''f'' [], ClientStrand, ClientWrote WriteOk] = Inr c"
    by blast
  with early_notification_wedges [OF c] show ?thesis by blast
qed

end
