(* ===== verification/ClientLife.thy ===== *)
theory ClientLife
  imports ClientSpec
begin

section \<open>The life of a client\<close>

text \<open>
  The constructor resolves the address, which may throw, and starts to connect; the destructor
  stops the io\_context, joins the io thread and destroys the members. The name resolution is a
  parameter.
\<close>

definition Client_construct ::
  "msgpack \<Rightarrow> (string \<Rightarrow> string \<Rightarrow> thrown + 'ep list) \<Rightarrow> string \<Rightarrow> 16 word \<Rightarrow> 'r \<Rightarrow> thrown + 'r client" where
  "Client_construct mp resolve addr port reconnectable =
     map_sum id (\<lambda>endpoints. Client_new mp reconnectable) (resolve addr (fmt_nat (unat port)))"

text \<open>
  Destroying the ongoing calls and the handlers that were posted and not run destroys their
  promises, which breaks those that are not satisfied. Nothing is sent any more.
\<close>

definition posted_promises :: "client_task list \<Rightarrow> nat set" where
  "posted_promises ts = {p. \<exists>i f b. CallTask i f p b \<in> set ts}"

definition owned :: "'r client \<Rightarrow> nat \<Rightarrow> bool" where
  "owned c p \<longleftrightarrow> p \<in> snd ` ran (c_ongoing c) \<or> p \<in> posted_promises (c_strand c)"

definition break_promise :: "promise_state \<Rightarrow> promise_state" where
  "break_promise st = (if st = Pending then HasException broken_promise else st)"

definition client_destroy :: "'r client \<Rightarrow> 'r client" where
  "client_destroy c =
     c\<lparr>c_futures := map (\<lambda>p. if owned c p then break_promise (c_futures c ! p) else c_futures c ! p)
         [0..<length (c_futures c)],
       c_ongoing := Map.empty, c_strand := [], c_pending := [], c_connecting := False,
       c_reading := False\<rparr>"

lemma posted_promises_simps [simp]:
  "posted_promises [] = {}"
  "posted_promises (CallTask i f p b # ts) = insert p (posted_promises ts)"
  "posted_promises (NotifyTask b # ts) = posted_promises ts"
  "posted_promises (FlushTask # ts) = posted_promises ts"
  "posted_promises (EraseTask j # ts) = posted_promises ts"
  "posted_promises (ts @ us) = posted_promises ts \<union> posted_promises us"
  by (auto simp: posted_promises_def)

subsection \<open>Every pending promise has an owner\<close>

definition no_orphans :: "'r client \<Rightarrow> bool" where
  "no_orphans c \<longleftrightarrow> (\<forall>p < length (c_futures c). c_futures c ! p = Pending \<longrightarrow> owned c p)"

text \<open>Only the futures, the ongoing calls and the strand matter.\<close>

lemma no_orphans_cong:
  "c_futures c' = c_futures c \<Longrightarrow> c_ongoing c' = c_ongoing c \<Longrightarrow>
     posted_promises (c_strand c') = posted_promises (c_strand c) \<Longrightarrow> no_orphans c' = no_orphans c"
  by (simp add: no_orphans_def owned_def)

lemma owned_ongoing: "c_ongoing c i = Some (f, p) \<Longrightarrow> owned c p"
  by (force simp: owned_def ran_def)

lemma owned_cases:
  "owned c p \<longleftrightarrow> (\<exists>i f. c_ongoing c i = Some (f, p)) \<or> p \<in> posted_promises (c_strand c)"
  by (force simp: owned_def ran_def)

lemma no_orphans_settle:
  "no_orphans c \<Longrightarrow> st \<noteq> Pending \<Longrightarrow> no_orphans (c\<lparr>c_futures := (c_futures c)[p := st]\<rparr>)"
  unfolding no_orphans_def
proof (intro allI impI)
  fix q
  assume orig: "\<forall>p<length (c_futures c). c_futures c ! p = Pending \<longrightarrow> owned c p" "st \<noteq> Pending"
    and q: "q < length (c_futures (c\<lparr>c_futures := (c_futures c)[p := st]\<rparr>))"
      "c_futures (c\<lparr>c_futures := (c_futures c)[p := st]\<rparr>) ! q = Pending"
  then have "c_futures c ! q = Pending" by (cases "q = p") simp_all
  with orig q have "owned c q" by simp
  then show "owned (c\<lparr>c_futures := (c_futures c)[p := st]\<rparr>) q" by (simp add: owned_def)
qed

lemma no_orphans_new:
  "no_orphans c \<Longrightarrow> c_ongoing c i = None \<Longrightarrow>
     no_orphans (c\<lparr>c_futures := c_futures c @ [Pending],
       c_ongoing := (c_ongoing c)(i \<mapsto> (f, length (c_futures c)))\<rparr>)"
  by (auto simp: no_orphans_def owned_cases nth_append less_Suc_eq fun_upd_def split: if_splits)
    (metis option.distinct(1))+

text \<open>An entry that is removed or overwritten has its promise broken first.\<close>

lemma abandon_settles:
  assumes "c_ongoing c i = Some (f, p)" and "p < length (c_futures c)"
  shows "c_futures (abandon i c) ! p \<noteq> Pending"
  using assms by (simp add: abandon_def)

lemma abandon_pending:
  "c_futures (abandon i c) ! p = Pending \<Longrightarrow> c_futures c ! p = Pending"
  by (auto simp: abandon_def nth_list_update split: option.splits if_splits)
    (metis list_update_beyond not_le nth_list_update promise_state.distinct(3))

lemma no_orphans_replace:
  assumes "no_orphans c"
    and "c_futures c' = c_futures (abandon i c)"
    and "\<And>j. j \<noteq> i \<Longrightarrow> c_ongoing c' j = c_ongoing c j"
    and "\<And>p. p \<in> posted_promises (c_strand c) \<Longrightarrow> owned c' p"
  shows "no_orphans c'"
  unfolding no_orphans_def
proof (intro allI impI)
  fix p
  assume p: "p < length (c_futures c')" "c_futures c' ! p = Pending"
  have "c_futures c ! p = Pending" using p(2) assms(2) abandon_pending [of i c p] by simp
  with assms(1) p(1) assms(2) have "owned c p" by (simp add: no_orphans_def)
  then consider j f where "c_ongoing c j = Some (f, p)" | "p \<in> posted_promises (c_strand c)"
    by (auto simp: owned_cases)
  then show "owned c' p"
  proof cases
    case (1 j f)
    have "j \<noteq> i" using 1 abandon_settles [of c i f p] p assms(2) by auto
    with 1 assms(3) show ?thesis by (metis owned_ongoing)
  qed (rule assms(4))
qed

lemma flush_keeps:
  "flush_pending mp c = Inr c' \<Longrightarrow> writer_inv (c_writer c) \<Longrightarrow>
     c_futures c' = c_futures c \<and> c_ongoing c' = c_ongoing c \<and> c_strand c' = c_strand c \<and>
     writer_inv (c_writer c')"
  using flush_pending_cases [of c mp] by auto

lemma client_write_keeps:
  "client_write b c = Inr c' \<Longrightarrow>
     c_futures c' = c_futures c \<and> c_ongoing c' = c_ongoing c \<and> c_strand c' = c_strand c"
  by (auto simp: client_write_def map_sum_def split: sum.splits)

lemma run_strand_no_orphans:
  assumes "no_orphans c" and "writer_inv (c_writer c)" and "client_run_strand mp c = Inr c'"
  shows "no_orphans c'"
proof (cases "c_strand c")
  case Nil
  with assms show ?thesis by (simp add: client_run_strand_def)
next
  case (Cons t ts)
  show ?thesis
  proof (cases t)
    case (CallTask i f p b)
    let ?c = "(abandon i (c\<lparr>c_strand := ts\<rparr>))\<lparr>c_ongoing := (c_ongoing c)(i \<mapsto> (f, p))\<rparr>"
    have base: "no_orphans ?c"
      by (rule no_orphans_replace [OF assms(1), of _ i])
        (auto simp: Cons CallTask owned_cases abandon_def split: option.splits)
    have "c_futures c' = c_futures ?c \<and> c_ongoing c' = c_ongoing ?c \<and> c_strand c' = c_strand ?c"
      using assms(2,3) Cons CallTask
      by (auto simp: client_run_strand_def run_client_task_def run_call_task_def Let_def
          dest!: flush_keeps client_write_keeps split: if_splits sum.splits)
    with base show ?thesis by (simp add: no_orphans_cong [of c' ?c])
  next
    case (NotifyTask b)
    with assms Cons show ?thesis
      by (auto simp: client_run_strand_def run_client_task_def no_orphans_def owned_def
          dest!: client_write_keeps)
  next
    case FlushTask
    with assms Cons show ?thesis
      by (auto simp: client_run_strand_def run_client_task_def no_orphans_def owned_def
          dest!: flush_keeps)
  next
    case (EraseTask i)
    with assms(3) Cons have "c' = run_erase_task i (c\<lparr>c_strand := ts\<rparr>)"
      by (simp add: client_run_strand_def run_client_task_def)
    then show ?thesis
      by (auto intro!: no_orphans_replace [OF assms(1), of _ i]
          simp: run_erase_task_def Cons EraseTask owned_cases abandon_def split: option.splits)
  qed
qed

lemma handle_response_no_orphans:
  assumes "no_orphans c" and "handle_response resp c = Inr c'"
  shows "no_orphans c'"
proof -
  obtain f p c1 where c1: "current_call (r_id resp) c = ((f, p), c1)"
    by (cases "current_call (r_id resp) c") auto
  obtain c2 where c2: "settle_call f p resp c1 = Inr c2" "c' = client_post (EraseTask (r_id resp)) c2"
    using assms(2) c1 by (auto simp: handle_response_def split: sum.splits)
  have "no_orphans c1"
    using c1 assms(1) by (auto simp: current_call_def Let_def no_orphans_new split: option.splits)
  moreover obtain st where "c2 = c1\<lparr>c_futures := (c_futures c1)[p := st]\<rparr>" "st \<noteq> Pending"
    using c2(1) by (auto simp: settle_call_def dest!: settle_fields split: option.splits sum.splits)
  ultimately have "no_orphans c2" by (simp add: no_orphans_settle)
  then show ?thesis by (simp add: c2(2) client_post_def no_orphans_def owned_def)
qed

lemma client_decode_no_orphans:
  "no_orphans c \<Longrightarrow> client_decode mp n c = Inr c' \<Longrightarrow> no_orphans c'"
proof (induction n arbitrary: c)
  case (Suc n)
  show ?case
  proof (cases "unpacker_next mp (c_unpac c)")
    case (NextObject ob u)
    then obtain resp c1 where "handle_response resp (c\<lparr>c_unpac := u\<rparr>) = Inr c1"
        "client_decode mp n c1 = Inr c'"
      using Suc.prems(2) by (auto split: sum.splits)
    moreover have "no_orphans (c\<lparr>c_unpac := u\<rparr>)" using Suc.prems(1) by (simp add: no_orphans_def owned_def)
    ultimately show ?thesis using Suc.IH handle_response_no_orphans by blast
  qed (use Suc.prems in auto)
qed simp

lemma client_on_read_no_orphans:
  assumes "no_orphans c" and "client_on_read mp rr c = Inr c'"
  shows "no_orphans c'"
proof (cases rr)
  case (ReadOk bs)
  let ?c = "c\<lparr>c_reading := False, c_unpac := buffer_consumed bs (c_unpac c)\<rparr>"
  obtain c2 where c2: "client_decode mp (client_fuel ?c) ?c = Inr c2"
      "client_do_read (c2\<lparr>c_unpac := reserve_if_low mp (c_unpac c2)\<rparr>) = Inr c'"
    using assms(2) ReadOk by (auto simp: client_on_read_def Let_def split: sum.splits)
  have "no_orphans ?c" using assms(1) by (simp add: no_orphans_def owned_def)
  with c2(1) have "no_orphans c2" by (rule client_decode_no_orphans [rotated])
  with c2(2) show ?thesis
    by (auto simp: client_do_read_def no_orphans_def owned_def split: sum.splits)
qed (use assms in \<open>auto simp: client_on_read_def no_orphans_def owned_def\<close>)

lemma client_on_connect_no_orphans:
  "no_orphans c \<Longrightarrow> client_on_connect recon cr c = (Inr u, c') \<Longrightarrow> no_orphans c'"
  by (cases cr) (auto simp: client_on_connect_def client_do_read_def client_post_def Let_def
      no_orphans_def owned_def split: sum.splits prod.splits bool.splits)

lemma client_on_write_no_orphans:
  "no_orphans c \<Longrightarrow> client_on_write mp ec c = Inr c' \<Longrightarrow> no_orphans c'"
  by (auto simp: client_on_write_def map_sum_def no_orphans_def owned_def split: sum.splits)

lemma async_call_no_orphans: "no_orphans c \<Longrightarrow> no_orphans (snd (async_call mp f args c))"
  by (auto simp: async_call_def next_call_idx_def client_post_def Let_def no_orphans_def owned_def
      nth_append less_Suc_eq)

definition client_alive :: "msgpack \<Rightarrow> fault + 'r client \<Rightarrow> bool" where
  "client_alive mp st \<longleftrightarrow> client_good mp st \<and> (codec_laws mp \<longrightarrow> buffer_laws mp \<longrightarrow> (case st of
       Inl f \<Rightarrow> True | Inr c \<Rightarrow> no_orphans c))"

lemma client_step_no_orphans:
  assumes "no_orphans c" and "writer_inv (c_writer c)" and "client_step mp recon c e = Inr c'"
  shows "no_orphans c'"
proof (cases e)
  case (AppCall f args)
  with assms async_call_no_orphans show ?thesis by (auto simp: client_step_def)
next
  case (AppNotify f args)
  with assms show ?thesis
    by (auto simp: client_step_def notify_def client_post_def no_orphans_def owned_def)
next
  case (ConnectDone cr)
  with assms client_on_connect_no_orphans [OF assms(1), of recon cr] show ?thesis
    by (auto simp: client_step_def split: if_splits prod.splits sum.splits)
next
  case (ClientRead rr)
  with assms client_on_read_no_orphans [OF assms(1)] show ?thesis
    by (auto simp: client_step_def split: if_splits)
qed (use assms run_strand_no_orphans client_on_write_no_orphans in \<open>auto simp: client_step_def\<close>)

interpretation client_live: kept_by_steps "client_machine mp recon" "client_alive mp" for mp recon
proof
  fix mp recon st e
  assume alive: "client_alive mp st"
  then have good: "client_good mp (client_machine mp recon st e)"
    using client_safe.step_keeps by (auto simp: client_alive_def)
  show "client_alive mp (client_machine mp recon st e)"
  proof (cases st)
    case (Inl f)
    with alive show ?thesis by simp
  next
    case (Inr c)
    with alive good show ?thesis
      by (auto simp: client_alive_def client_good_def client_inv_def
          intro: client_step_no_orphans split: sum.splits)
  qed
qed

subsection \<open>Nobody waits for ever\<close>

text \<open>C13. No caller is left waiting by a client that goes away: in every reachable state each future
  that is still pending belongs to a call that is posted or ongoing, and destroying the client
  answers exactly those with a broken promise. Futures that had a value or an exception keep
  it; and nothing more is sent, whatever was still queued.\<close>

theorem destroyed_client_answers_all:
  assumes "codec_laws mp" and "buffer_laws mp"
    and "run_events (client_machine mp recon) (Inr (Client_new mp r)) es = Inr c"
  shows "(\<forall>p < length (c_futures c).
       future_get (c_futures (client_destroy c) ! p) =
         (case c_futures c ! p of Pending \<Rightarrow> Some (Inl broken_promise) | st \<Rightarrow> future_get st)) \<and>
     w_wire (c_writer (client_destroy c)) = w_wire (c_writer c)"
proof -
  have "no_orphans (Client_new mp r)" by (simp add: no_orphans_def)
  then have "client_alive mp (Inr (Client_new mp r))"
    using client_new_inv [OF assms(2), of r] by (simp add: client_alive_def client_good_def)
  from client_live.run_keeps [OF this, of recon es] assms have "no_orphans c"
    by (simp add: client_alive_def)
  then show ?thesis
    by (auto simp: client_destroy_def no_orphans_def break_promise_def split: promise_state.splits)
qed

text \<open>For the witness: two calls before the connection, of which the strand has run one.\<close>

theorem destroyed_client_answers_all_witness:
  "\<exists>c. run_events (client_machine ref_msgpack default_reconnectable) (Inr (Client_new ref_msgpack 0))
       [AppCall ''f'' [], AppCall ''g'' [], ClientStrand] = Inr c \<and>
     c_futures c = [Pending, Pending] \<and>
     future_get (c_futures (client_destroy c) ! 0) = Some (Inl broken_promise) \<and>
     future_get (c_futures (client_destroy c) ! 1) = Some (Inl broken_promise)"
proof -
  obtain c where c: "run_events (client_machine ref_msgpack default_reconnectable)
        (Inr (Client_new ref_msgpack 0)) [AppCall ''f'' [], AppCall ''g'' [], ClientStrand] = Inr c"
      "c_futures c = [Pending, Pending]"
    by (simp add: client_step_def handler_defs Let_def)
  from destroyed_client_answers_all [OF ref_codec_laws ref_buffer_laws c(1)] c(2) have
      "\<forall>p < 2. future_get (c_futures (client_destroy c) ! p) =
         (case [Pending, Pending] ! p of Pending \<Rightarrow> Some (Inl broken_promise) | st \<Rightarrow> future_get st)"
    by simp
  with c show ?thesis by (auto simp: All_less_Suc2 numeral_2_eq_2)
qed

end
