(* ===== verification/ClientAnswers.thy ===== *)
theory ClientAnswers
  imports ClientCalls ClientLife SessionWorkers
begin

section \<open>A client and the answers to its own calls\<close>

text \<open>
  The state of a client against what its application has asked for and what it has been
  answered, in any run in which only answers to calls that it has sent are read: which call each
  promise, each entry of the ongoing calls and each posted handler belongs to, and that the
  buffers on their way to the wire are those of its own requests.
\<close>

subsection \<open>The buffers of a client\<close>

text \<open>The requests made, as objects: calls carry the ids 1, 2, ...\<close>

definition id_of :: "nat \<Rightarrow> uint32" where
  "id_of p = of_nat (Suc p)"

definition nth_call :: "request list \<Rightarrow> nat \<Rightarrow> mobj" where
  "nth_call calls p = call_obj (id_of p) (fst (calls ! p)) (snd (calls ! p))"

definition made_objs :: "request list \<Rightarrow> request list \<Rightarrow> mobj list" where
  "made_objs calls notes =
     map (nth_call calls) [0..<length calls] @ map (\<lambda>(f, args). notify_obj f args) notes"

definition nonempty :: "bytes list \<Rightarrow> bytes multiset" where
  "nonempty bs = filter_mset (\<lambda>b. b \<noteq> []) (mset bs)"

lemma nonempty_simps [simp]:
  "nonempty [] = {#}" "nonempty (xs @ ys) = nonempty xs + nonempty ys"
  "nonempty ([] # bs) = nonempty bs" "b \<noteq> [] \<Longrightarrow> nonempty (b # bs) = add_mset b (nonempty bs)"
  by (simp_all add: nonempty_def)

lemma nonempty_Cons: "nonempty (b # bs) = (if b = [] then {#} else {#b#}) + nonempty bs"
  by (simp add: nonempty_def)

definition task_buffers :: "client_task list \<Rightarrow> bytes list" where
  "task_buffers ts = concat (map (\<lambda>t. case t of CallTask i f p b \<Rightarrow> [b] | NotifyTask b \<Rightarrow> [b] | _ \<Rightarrow> []) ts)"

lemma task_buffers_simps [simp]:
  "task_buffers [] = []" "task_buffers (ts @ us) = task_buffers ts @ task_buffers us"
  "task_buffers (CallTask i f p b # ts) = b # task_buffers ts"
  "task_buffers (NotifyTask b # ts) = b # task_buffers ts"
  "task_buffers (FlushTask # ts) = task_buffers ts" "task_buffers (EraseTask i # ts) = task_buffers ts"
  by (simp_all add: task_buffers_def)

text \<open>What a writer holds or has sent, and what a client has on its way.\<close>

definition in_writer :: "'t writer \<Rightarrow> bytes multiset" where
  "in_writer w = nonempty (w_queue w @ w_wire w)"

definition on_the_way :: "'r client \<Rightarrow> bytes multiset" where
  "on_the_way c = nonempty (task_buffers (c_strand c) @ c_pending c) + in_writer (c_writer c)"

text \<open>A client never closes its writer, so that nothing it hands to the writer is dropped there; what a
  broken pipe pops is all that can be lost.\<close>

definition writer_live :: "'t writer \<Rightarrow> bool" where
  "writer_live w \<longleftrightarrow> writer_inv w \<and> \<not> w_exit w"

lemma writer_write_holds:
  "writer_live w \<Longrightarrow> writer_write b w = Inr w' \<Longrightarrow> writer_live w' \<and> in_writer w' = in_writer w + nonempty [b]"
  using writer_write_inv [of w b w'] by (auto simp: writer_live_def writer_write_total in_writer_def split: if_splits)

lemma writer_live_new [simp]: "writer_live AsyncWriter_new"
  by (simp add: writer_live_def AsyncWriter_new_def writer_inv_def)

lemma complete_holds:
  assumes "writer_live w" and "complete mp ec w = Inr w'"
  shows "writer_live w' \<and> in_writer w' \<subseteq># in_writer w \<and> (ec \<noteq> BrokenPipe \<longrightarrow> in_writer w' = in_writer w)"
proof (cases "w_inflight w")
  case None
  with assms show ?thesis by (simp add: complete_def)
next
  case (Some b)
  with assms(1) obtain q where q: "w_queue w = b # q" by (auto simp: writer_live_def writer_inv_def)
  have "in_writer w' \<subseteq># in_writer w \<and> (ec \<noteq> BrokenPipe \<longrightarrow> in_writer w' = in_writer w) \<and> w_exit w' = w_exit w"
    using Some q assms(2)
    by (cases ec) (auto simp: complete_cases in_writer_def nonempty_Cons split: sum.splits if_splits)
  then show ?thesis using assms complete_inv [of w mp ec w'] by (simp add: writer_live_def)
qed

lemma client_write_holds:
  assumes "writer_live (c_writer c)"
  shows "\<exists>w. client_write b c = Inr (c\<lparr>c_writer := w\<rparr>) \<and> writer_live w \<and>
     in_writer w = in_writer (c_writer c) + nonempty [b]"
proof -
  obtain w where w: "writer_write b (c_writer c) = Inr w"
    using writer_write_total [of "c_writer c" b] assms by (auto simp: writer_live_def)
  from writer_write_holds [OF assms w] w show ?thesis
    by (intro exI [of _ w]) (simp add: client_write_def)
qed

lemma write_pending_holds:
  assumes "buffer_laws mp"
  shows "writer_live (c_writer c) \<Longrightarrow> \<exists>left w. write_pending mp bs c = Inr (left, c\<lparr>c_writer := w\<rparr>) \<and>
     writer_live w \<and> nonempty left + in_writer w = nonempty bs + in_writer (c_writer c)"
proof (induction bs arbitrary: c)
  case (Cons b bs)
  obtain w where w: "client_write b c = Inr (c\<lparr>c_writer := w\<rparr>)" "writer_live w"
      "in_writer w = in_writer (c_writer c) + nonempty [b]"
    using client_write_holds [OF Cons.prems] by blast
  obtain left w' where rest: "write_pending mp bs (c\<lparr>c_writer := w\<rparr>) = Inr (left, c\<lparr>c_writer := w'\<rparr>)" "writer_live w'"
      "nonempty left + in_writer w' = nonempty bs + in_writer w"
    using Cons.IH [of "c\<lparr>c_writer := w\<rparr>"] w(2) by auto
  have moved: "mp_moved mp = []" using assms unfolding buffer_laws_def by (rule conjunct1)
  have "\<not> is_closed (c_writer c)" using Cons.prems by (simp add: writer_live_def is_closed_def)
  then have "write_pending mp (b # bs) c = Inr ([] # left, c\<lparr>c_writer := w'\<rparr>)" using w(1) rest(1) moved by simp
  moreover have "nonempty ([] # left) + in_writer w' = nonempty (b # bs) + in_writer (c_writer c)"
    using rest(3) w(3) by (simp add: nonempty_Cons ac_simps)
  ultimately show ?case using rest(2) by blast
next
  case Nil
  then show ?case by (intro exI [of _ "[]"] exI [of _ "c_writer c"]) simp
qed

subsection \<open>Every step keeps to the requests made\<close>

lemma flush_pending_holds:
  assumes "buffer_laws mp" and "writer_live (c_writer c)"
  shows "\<exists>left w. flush_pending mp c = Inr (c\<lparr>c_writer := w, c_pending := left\<rparr>) \<and> writer_live w \<and>
     nonempty left + in_writer w = nonempty (c_pending c) + in_writer (c_writer c)"
  using write_pending_holds [OF assms, of "c_pending c"] by (fastforce simp: flush_pending_def)

text \<open>The next handler on the strand: what it does to the writer and the kept buffers, and nothing
  else but registering or erasing a call.\<close>

lemma abandon_strand [simp]: "abandon i (c\<lparr>c_strand := ts\<rparr>) = (abandon i c)\<lparr>c_strand := ts\<rparr>"
  by (simp add: abandon_def split: option.splits prod.splits)

lemma run_strand_effect:
  assumes "buffer_laws mp" and "writer_live (c_writer c)" and "c_strand c = t # ts"
    and "client_run_strand mp c = Inr c'"
  shows "\<exists>w left. writer_live w \<and>
     nonempty left + in_writer w = nonempty (task_buffers [t]) + nonempty (c_pending c) + in_writer (c_writer c) \<and>
     c' = (case t of
         CallTask i f p b \<Rightarrow> (abandon i c)\<lparr>c_ongoing := (c_ongoing c)(i \<mapsto> (f, p))\<rparr>
       | EraseTask i \<Rightarrow> (abandon i c)\<lparr>c_ongoing := (c_ongoing c)(i := None)\<rparr>
       | _ \<Rightarrow> c)\<lparr>c_strand := ts, c_writer := w, c_pending := left\<rparr>"
proof (cases t)
  case (CallTask i f p b)
  let ?d = "(abandon i c)\<lparr>c_strand := ts, c_ongoing := (c_ongoing c)(i \<mapsto> (f, p))\<rparr>"
  show ?thesis
  proof (cases "c_is_connected c")
    case True
    obtain left w1 where flush: "flush_pending mp ?d = Inr (?d\<lparr>c_writer := w1, c_pending := left\<rparr>)"
        "writer_live w1" "nonempty left + in_writer w1 = nonempty (c_pending c) + in_writer (c_writer c)"
      using flush_pending_holds [OF assms(1), of ?d] assms(2) by auto
    obtain w2 where last: "client_write b (?d\<lparr>c_writer := w1, c_pending := left\<rparr>) =
        Inr (?d\<lparr>c_writer := w1, c_pending := left, c_writer := w2\<rparr>)" "writer_live w2"
        "in_writer w2 = in_writer w1 + nonempty [b]"
      using client_write_holds [of "?d\<lparr>c_writer := w1, c_pending := left\<rparr>" b] flush(2) by auto
    have "nonempty left + in_writer w2 = nonempty [b] + nonempty (c_pending c) + in_writer (c_writer c)"
      using flush(3) last(3) by (simp add: ac_simps)
    moreover have "c' = ?d\<lparr>c_writer := w2, c_pending := left\<rparr>"
      using assms(3,4) CallTask True flush(1) last(1)
      by (auto simp add: client_run_strand_def run_client_task_def run_call_task_def)
    ultimately show ?thesis
      using last(2) CallTask by (intro exI [of _ w2] exI [of _ left]) simp
  next
    case False
    then have "c' = ?d\<lparr>c_pending := c_pending c @ [b]\<rparr>"
      using assms(3,4) CallTask
      by (simp add: client_run_strand_def run_client_task_def run_call_task_def)
    then show ?thesis
      using assms(2) CallTask
      by (intro exI [of _ "c_writer c"] exI [of _ "c_pending c @ [b]"]) (simp add: ac_simps)
  qed
next
  case (NotifyTask b)
  obtain w where "client_write b (c\<lparr>c_strand := ts\<rparr>) = Inr (c\<lparr>c_strand := ts, c_writer := w\<rparr>)" "writer_live w"
      "in_writer w = in_writer (c_writer c) + nonempty [b]"
    using client_write_holds [of "c\<lparr>c_strand := ts\<rparr>" b] assms(2) by auto
  moreover from this have "c' = c\<lparr>c_strand := ts, c_writer := w, c_pending := c_pending c\<rparr>"
    using assms(3,4) NotifyTask by (cases c) (auto simp: client_run_strand_def run_client_task_def)
  ultimately show ?thesis
    using NotifyTask by (intro exI [of _ w] exI [of _ "c_pending c"]) (simp add: ac_simps)
next
  case FlushTask
  obtain left w where "flush_pending mp (c\<lparr>c_strand := ts\<rparr>) = Inr (c\<lparr>c_strand := ts, c_writer := w, c_pending := left\<rparr>)"
      "writer_live w" "nonempty left + in_writer w = nonempty (c_pending c) + in_writer (c_writer c)"
    using flush_pending_holds [OF assms(1), of "c\<lparr>c_strand := ts\<rparr>"] assms(2) by auto
  moreover from this have "c' = c\<lparr>c_strand := ts, c_writer := w, c_pending := left\<rparr>"
    using assms(3,4) FlushTask by (auto simp: client_run_strand_def run_client_task_def)
  ultimately show ?thesis using FlushTask by (intro exI [of _ w] exI [of _ left]) simp
next
  case (EraseTask i)
  with assms have "c' = (abandon i c)\<lparr>c_ongoing := (c_ongoing c)(i := None), c_strand := ts\<rparr>"
    by (auto simp: client_run_strand_def run_client_task_def run_erase_task_def)
  with assms(2) EraseTask show ?thesis
    by (intro exI [of _ "c_writer c"] exI [of _ "c_pending c"]) simp
qed

subsection \<open>Where every call stands\<close>

text \<open>The requests that an event of the application makes.\<close>

definition calls_in :: "client_event \<Rightarrow> request list" where
  "calls_in e = (case e of AppCall f args \<Rightarrow> [(f, args)] | _ \<Rightarrow> [])"

definition notes_in :: "client_event \<Rightarrow> request list" where
  "notes_in e = (case e of AppNotify f args \<Rightarrow> [(f, args)] | _ \<Rightarrow> [])"

text \<open>
  A call has been posted, or it has been registered and waits for its response, or its response
  is one of those read and has settled its future. \<open>rs\<close> are the responses read so far.
\<close>

definition call_state :: "request list \<Rightarrow> response list \<Rightarrow> 'r client \<Rightarrow> nat \<Rightarrow> bool" where
  "call_state calls rs c p = (let i = id_of p; f = fst (calls ! p) in
     if p \<in> posted_promises (c_strand c)
     then c_futures c ! p = Pending \<and> c_ongoing c i = None \<and> i \<notin> r_id ` set rs
     else if i \<in> r_id ` set rs
     then (\<exists>r \<in> set rs. r_id r = i \<and> c_futures c ! p = outcome f (received r)) \<and>
       (c_ongoing c i = None \<or> c_ongoing c i = Some (f, p))
     else c_futures c ! p = Pending \<and> c_ongoing c i = Some (f, p))"

definition task_fits :: "msgpack \<Rightarrow> request list \<Rightarrow> response list \<Rightarrow> client_task \<Rightarrow> bool" where
  "task_fits mp calls rs t = (case t of
       CallTask i f p b \<Rightarrow> p < length calls \<and> i = id_of p \<and> f = fst (calls ! p) \<and> b = mp_pack mp (nth_call calls p)
     | EraseTask i \<Rightarrow> i \<in> r_id ` set rs
     | _ \<Rightarrow> True)"

definition posted_list :: "client_task list \<Rightarrow> nat list" where
  "posted_list ts = concat (map (\<lambda>t. case t of CallTask i f p b \<Rightarrow> [p] | _ \<Rightarrow> []) ts)"

lemma posted_list_simps [simp]:
  "posted_list [] = []" "posted_list (ts @ us) = posted_list ts @ posted_list us"
  "posted_list (CallTask i f p b # ts) = p # posted_list ts"
  "posted_list (NotifyTask b # ts) = posted_list ts"
  "posted_list (FlushTask # ts) = posted_list ts" "posted_list (EraseTask i # ts) = posted_list ts"
  by (simp_all add: posted_list_def)

lemma posted_list_set: "set (posted_list ts) = posted_promises ts"
  by (fastforce simp: posted_list_def posted_promises_def split: client_task.splits)

definition answers_own ::
  "msgpack \<Rightarrow> request list \<Rightarrow> request list \<Rightarrow> response list \<Rightarrow> 'r client \<Rightarrow> bool" where
  "answers_own mp calls notes rs c \<longleftrightarrow>
     c_call_idx c = of_nat (length calls) \<and> length (c_futures c) = length calls \<and> writer_live (c_writer c) \<and>
     on_the_way c \<subseteq># image_mset (mp_pack mp) (mset (made_objs calls notes)) \<and>
     (\<forall>t \<in> set (c_strand c). task_fits mp calls rs t) \<and> distinct (posted_list (c_strand c)) \<and>
     (\<forall>p < length calls. call_state calls rs c p) \<and>
     (\<forall>i. c_ongoing c i \<noteq> None \<longrightarrow> (\<exists>p < length calls. i = id_of p)) \<and>
     (\<forall>r \<in> set rs. \<exists>p < length calls. r_id r = id_of p)"

lemma id_of_inject:
  "p < n \<Longrightarrow> q < n \<Longrightarrow> n < 2 ^ 32 \<Longrightarrow> id_of p = id_of q \<longleftrightarrow> p = q"
  using of_nat_word_inject [of "Suc p" "Suc q"] by (simp only: id_of_def) simp

lemma answers_own_new: "answers_own mp [] [] [] (Client_new mp r)"
proof -
  have "on_the_way (Client_new mp r) = {#}"
    by (simp add: on_the_way_def in_writer_def AsyncWriter_new_def)
  then show ?thesis by (simp add: answers_own_def)
qed

lemma answers_own_keys:
  assumes "answers_own mp calls notes rs c"
  shows "c_ongoing c i \<noteq> None \<Longrightarrow> \<exists>p < length calls. i = id_of p"
    and "r \<in> set rs \<Longrightarrow> \<exists>p < length calls. r_id r = id_of p"
    and "p < length calls \<Longrightarrow> call_state calls rs c p"
    and "t \<in> set (c_strand c) \<Longrightarrow> task_fits mp calls rs t"
  using assms unfolding answers_own_def by blast+

lemma answers_own_cong:
  assumes "answers_own mp calls notes rs c"
    and "c_call_idx c' = c_call_idx c" and "c_futures c' = c_futures c" and "c_ongoing c' = c_ongoing c"
    and "writer_live (c_writer c')" and "on_the_way c' \<subseteq># on_the_way c"
    and "c_strand c' = c_strand c \<or> c_strand c' = c_strand c @ [FlushTask] \<or> c_strand c = FlushTask # c_strand c'
      \<or> (\<exists>b. c_strand c = NotifyTask b # c_strand c')"
  shows "answers_own mp calls notes rs c'"
proof -
  have "posted_promises (c_strand c') = posted_promises (c_strand c)" using assms(7) by auto
  then have "call_state calls rs c' p = call_state calls rs c p" for p
    using assms(3,4) by (simp add: call_state_def)
  moreover have "on_the_way c' \<subseteq># image_mset (mp_pack mp) (mset (made_objs calls notes))"
    using assms(1,6) by (auto simp: answers_own_def)
  moreover have "(\<forall>t \<in> set (c_strand c'). task_fits mp calls rs t) \<and> distinct (posted_list (c_strand c'))"
    using assms(1,7) by (auto simp: answers_own_def task_fits_def)
  ultimately show ?thesis
    using assms(1-5) by (simp add: answers_own_def)
qed

subsection \<open>Events that read nothing\<close>

lemma made_objs_append:
  "mset (made_objs (calls @ [req]) notes) =
     add_mset (call_obj (id_of (length calls)) (fst req) (snd req)) (mset (made_objs calls notes))"
proof -
  have old: "map (nth_call (calls @ [req])) [0..<length calls] = map (nth_call calls) [0..<length calls]"
    by (simp add: nth_call_def nth_append)
  have whole: "made_objs (calls @ [req]) notes = map (nth_call calls) [0..<length calls] @
      call_obj (id_of (length calls)) (fst req) (snd req) # map (\<lambda>(f, args). notify_obj f args) notes"
    by (simp add: made_objs_def old) (simp add: nth_call_def)
  show ?thesis unfolding whole by (simp add: made_objs_def)
qed

lemma on_the_way_post:
  "on_the_way (client_post t c) = on_the_way c + nonempty (task_buffers [t])"
  by (cases t) (simp_all add: on_the_way_def client_post_def ac_simps nonempty_Cons)

lemma nonempty_one: "nonempty [b] \<subseteq># {#b#}"
  by (simp add: nonempty_def)

lemma call_state_new:
  assumes "p < length calls" and "c_futures c' ! p = c_futures c ! p" and "c_ongoing c' = c_ongoing c"
    and "p \<in> posted_promises (c_strand c') \<longleftrightarrow> p \<in> posted_promises (c_strand c)"
  shows "call_state (calls @ others) rs c' p = call_state calls rs c p"
  using assms by (simp add: call_state_def nth_append)

lemma own_call:
  assumes own: "answers_own mp calls notes rs c" and few: "Suc (length calls) < 2 ^ 32"
  shows "answers_own mp (calls @ [(f, args)]) notes rs (snd (async_call mp f args c))"
proof -
  let ?n = "length calls" and ?i = "id_of (length calls)"
  let ?t = "CallTask ?i f ?n (mp_pack mp (call_obj ?i f args))"
  let ?c = "c\<lparr>c_call_idx := ?i, c_futures := c_futures c @ [Pending]\<rparr>"
  have n: "length (c_futures c) = ?n" and idx: "c_call_idx c + 1 = ?i"
    using own by (simp_all add: answers_own_def id_of_def)
  have c': "snd (async_call mp f args c) = client_post ?t ?c"
    by (simp add: async_call_def next_call_idx_def n idx Let_def)
  have old: "p < ?n" if "p \<in> posted_promises (c_strand c)" for p
    using that own by (auto simp: answers_own_def task_fits_def posted_promises_def)
  have fresh: "?i \<noteq> id_of p" if "p < ?n" for p
    using id_of_inject [of p "Suc ?n" ?n] that few by auto
  have "call_state (calls @ [(f, args)]) rs (client_post ?t ?c) p" if "p < ?n" for p
  proof -
    have "call_state (calls @ [(f, args)]) rs (client_post ?t ?c) p = call_state calls rs c p"
      using that n by (intro call_state_new) (auto simp: client_post_def nth_append)
    with own that show ?thesis by (simp add: answers_own_def)
  qed
  moreover have "call_state (calls @ [(f, args)]) rs (client_post ?t ?c) ?n"
  proof -
    have "c_ongoing c ?i = None" using answers_own_keys(1) [OF own, of ?i] fresh by blast
    moreover have "?i \<notin> r_id ` set rs" using answers_own_keys(2) [OF own] fresh by fastforce
    ultimately show ?thesis using n by (simp add: call_state_def client_post_def Let_def nth_append)
  qed
  ultimately have states: "\<forall>p < length (calls @ [(f, args)]). call_state (calls @ [(f, args)]) rs (client_post ?t ?c) p"
    by (auto simp: less_Suc_eq)
  have "on_the_way (client_post ?t ?c) \<subseteq># on_the_way c + {#mp_pack mp (call_obj ?i f args)#}"
    using nonempty_one [of "mp_pack mp (call_obj ?i f args)"]
    by (simp add: on_the_way_post) (simp add: on_the_way_def)
  also have "\<dots> \<subseteq># image_mset (mp_pack mp) (mset (made_objs (calls @ [(f, args)]) notes))"
    using own by (simp add: made_objs_append answers_own_def)
  finally have way: "on_the_way (client_post ?t ?c) \<subseteq># image_mset (mp_pack mp) (mset (made_objs (calls @ [(f, args)]) notes))" .
  have tasks: "\<forall>t \<in> set (c_strand (client_post ?t ?c)). task_fits mp (calls @ [(f, args)]) rs t"
    using own by (auto simp: client_post_def answers_own_def task_fits_def nth_call_def nth_append split: client_task.splits)
  have posted: "distinct (posted_list (c_strand (client_post ?t ?c)))"
    using own old by (auto simp: client_post_def answers_own_def posted_list_set)
  have keys: "\<forall>i. c_ongoing (client_post ?t ?c) i \<noteq> None \<longrightarrow> (\<exists>p < length (calls @ [(f, args)]). i = id_of p)"
    "\<forall>r \<in> set rs. \<exists>p < length (calls @ [(f, args)]). r_id r = id_of p"
    using answers_own_keys(1,2) [OF own] less_SucI [of _ ?n] by (simp add: client_post_def, metis)+
  have "c_call_idx (client_post ?t ?c) = of_nat (length (calls @ [(f, args)]))"
    "length (c_futures (client_post ?t ?c)) = length (calls @ [(f, args)])" "writer_live (c_writer (client_post ?t ?c))"
    using own n by (simp_all add: client_post_def id_of_def answers_own_def)
  with way states tasks posted keys show ?thesis unfolding c' answers_own_def by (intro conjI)
qed

lemma own_notify:
  assumes own: "answers_own mp calls notes rs c"
  shows "answers_own mp calls (notes @ [(f, args)]) rs (notify mp f args c)"
proof -
  let ?b = "mp_pack mp (notify_obj f args)"
  have "on_the_way (notify mp f args c) \<subseteq># on_the_way c + {#?b#}"
    using nonempty_one [of ?b] by (simp add: notify_def on_the_way_post)
  also have "\<dots> \<subseteq># image_mset (mp_pack mp) (mset (made_objs calls (notes @ [(f, args)])))"
    using own by (simp add: made_objs_def answers_own_def)
  finally have "on_the_way (notify mp f args c) \<subseteq># image_mset (mp_pack mp) (mset (made_objs calls (notes @ [(f, args)])))" .
  moreover have "call_state calls rs (notify mp f args c) p = call_state calls rs c p" for p
    by (simp add: call_state_def notify_def client_post_def)
  ultimately show ?thesis
    using own by (auto simp: answers_own_def task_fits_def notify_def client_post_def)
qed

text \<open>The handlers on the strand. A call that is registered has no entry yet, and an entry that is
  erased belongs to a call that has been answered, so that no promise is broken.\<close>

lemma abandon_absent: "c_ongoing c i = None \<Longrightarrow> abandon i c = c"
  by (simp add: abandon_def)

lemma abandon_settled: "c_ongoing c i = Some (f, p) \<Longrightarrow> c_futures c ! p \<noteq> Pending \<Longrightarrow> abandon i c = c"
  by (simp add: abandon_def)

lemma outcome_not_pending [simp]: "outcome f r \<noteq> Pending" "Pending \<noteq> outcome f r"
  by (simp_all add: outcome_def split: option.splits)

lemma own_registers:
  assumes own: "answers_own mp calls notes rs c" and few: "length calls < 2 ^ 32"
    and strand: "c_strand c = CallTask i f p b # ts"
    and c': "c_ongoing c' = (c_ongoing c)(i \<mapsto> (f, p))" "c_strand c' = ts" "c_futures c' = c_futures c"
      "c_call_idx c' = c_call_idx c"
    and w: "writer_live (c_writer c')" "on_the_way c' \<subseteq># on_the_way c"
  shows "answers_own mp calls notes rs c'"
proof -
  have t: "p < length calls" "i = id_of p" "f = fst (calls ! p)"
    using answers_own_keys(4) [OF own, of "CallTask i f p b"] strand by (simp_all add: task_fits_def)
  have once: "distinct (p # posted_list ts)" using own strand by (simp add: answers_own_def)
  have "call_state calls rs c' q" if "q < length calls" for q
  proof (cases "q = p")
    case True
    have "p \<notin> posted_promises ts" using once by (simp add: posted_list_set)
    moreover have "call_state calls rs c p" using answers_own_keys(3) [OF own t(1)] .
    ultimately show ?thesis using True t strand c' by (simp add: call_state_def Let_def)
  next
    case False
    then have "id_of q \<noteq> i" using id_of_inject [OF that t(1) few] t(2) by simp
    moreover have "call_state calls rs c q" using answers_own_keys(3) [OF own that] .
    ultimately show ?thesis using False strand c' by (simp add: call_state_def Let_def)
  qed
  moreover have "\<forall>j. c_ongoing c' j \<noteq> None \<longrightarrow> (\<exists>q < length calls. j = id_of q)"
    using answers_own_keys(1) [OF own] t(1,2) c'(1) by auto
  moreover have "on_the_way c' \<subseteq># image_mset (mp_pack mp) (mset (made_objs calls notes))"
    using own w(2) by (auto simp: answers_own_def)
  ultimately show ?thesis
    using own strand c' w(1) once unfolding answers_own_def by simp
qed

lemma own_erases:
  assumes own: "answers_own mp calls notes rs c" and few: "length calls < 2 ^ 32"
    and strand: "c_strand c = EraseTask i # ts"
    and c': "c_ongoing c' = (c_ongoing c)(i := None)" "c_strand c' = ts" "c_futures c' = c_futures c"
      "c_call_idx c' = c_call_idx c"
    and w: "writer_live (c_writer c')" "on_the_way c' \<subseteq># on_the_way c"
  shows "answers_own mp calls notes rs c'"
proof -
  have i: "i \<in> r_id ` set rs"
    using answers_own_keys(4) [OF own, of "EraseTask i"] strand by (simp add: task_fits_def)
  have "call_state calls rs c' q" if "q < length calls" for q
  proof -
    have "call_state calls rs c q" using answers_own_keys(3) [OF own that] .
    then show ?thesis using strand c' i by (auto simp: call_state_def Let_def split: if_splits)
  qed
  moreover have "\<forall>j. c_ongoing c' j \<noteq> None \<longrightarrow> (\<exists>q < length calls. j = id_of q)"
    using answers_own_keys(1) [OF own] c'(1) by auto
  moreover have "on_the_way c' \<subseteq># image_mset (mp_pack mp) (mset (made_objs calls notes))"
    using own w(2) by (auto simp: answers_own_def)
  ultimately show ?thesis
    using own strand c' w(1) unfolding answers_own_def by simp
qed

lemma own_abandon:
  assumes own: "answers_own mp calls notes rs c" and few: "length calls < 2 ^ 32"
    and "c_strand c = t # ts" and "t = CallTask i f p b \<or> t = EraseTask i"
  shows "abandon i c = c"
  using assms(4)
proof
  assume t: "t = CallTask i f p b"
  then have "p < length calls" "i = id_of p"
    using answers_own_keys(4) [OF own, of t] assms(3) by (simp_all add: task_fits_def)
  moreover have "p \<in> posted_promises (c_strand c)" using assms(3) t by simp
  ultimately show ?thesis
    using answers_own_keys(3) [OF own, of p] by (simp add: call_state_def Let_def abandon_absent)
next
  assume t: "t = EraseTask i"
  then have i: "i \<in> r_id ` set rs"
    using answers_own_keys(4) [OF own, of t] assms(3) by (simp add: task_fits_def)
  then obtain q where q: "q < length calls" "i = id_of q"
    using answers_own_keys(2) [OF own] by auto
  have "c_ongoing c i = None \<or> c_ongoing c i = Some (fst (calls ! q), q) \<and> c_futures c ! q \<noteq> Pending"
    using i q answers_own_keys(3) [OF own q(1)] by (auto simp: call_state_def Let_def split: if_splits)
  then show ?thesis by (metis abandon_absent abandon_settled)
qed

lemma own_strand:
  assumes "buffer_laws mp" and own: "answers_own mp calls notes rs c" and few: "length calls < 2 ^ 32"
    and "client_run_strand mp c = Inr c'"
  shows "answers_own mp calls notes rs c' \<and> on_the_way c' = on_the_way c"
proof (cases "c_strand c")
  case Nil
  with assms show ?thesis by (simp add: client_run_strand_def)
next
  case (Cons t ts)
  have "writer_live (c_writer c)" using own by (simp add: answers_own_def)
  from run_strand_effect [OF assms(1) this Cons assms(4)] obtain w left where w: "writer_live w"
      "nonempty left + in_writer w = nonempty (task_buffers [t]) + nonempty (c_pending c) + in_writer (c_writer c)"
      "c' = (case t of
         CallTask i f p b \<Rightarrow> (abandon i c)\<lparr>c_ongoing := (c_ongoing c)(i \<mapsto> (f, p))\<rparr>
       | EraseTask i \<Rightarrow> (abandon i c)\<lparr>c_ongoing := (c_ongoing c)(i := None)\<rparr>
       | _ \<Rightarrow> c)\<lparr>c_strand := ts, c_writer := w, c_pending := left\<rparr>"
    by blast
  have fields: "c_writer c' = w" "c_pending c' = left" "c_strand c' = ts" using w(3) by simp_all
  have "task_buffers (c_strand c) = task_buffers [t] @ task_buffers ts" by (cases t) (simp_all add: Cons)
  with w(2) have same: "on_the_way c' = on_the_way c"
    by (simp add: on_the_way_def fields ac_simps)
  then have way: "on_the_way c' \<subseteq># on_the_way c" by simp
  have "answers_own mp calls notes rs c'"
  proof (cases t)
    case (CallTask i f p b)
    with w(3) own_abandon [OF own few Cons, of i f p b] own_registers [OF own few, of i f p b ts c'] Cons way w(1) fields
    show ?thesis by simp
  next
    case (EraseTask i)
    with w(3) own_abandon [OF own few Cons, of i] own_erases [OF own few, of i ts c'] Cons way w(1) fields
    show ?thesis by simp
  next
    case (NotifyTask b)
    with w(1,3) Cons fields show ?thesis by (intro answers_own_cong [OF own _ _ _ _ way]) simp_all
  next
    case FlushTask
    with w(1,3) Cons fields show ?thesis by (intro answers_own_cong [OF own _ _ _ _ way]) simp_all
  qed
  with same show ?thesis by simp
qed

text \<open>The events of the network but for data that arrives.\<close>

lemma on_connect_fields:
  assumes "client_on_connect recon cr c = (Inr u, c')"
  shows "c_call_idx c' = c_call_idx c \<and> c_futures c' = c_futures c \<and> c_ongoing c' = c_ongoing c \<and>
     c_writer c' = c_writer c \<and> c_pending c' = c_pending c \<and>
     (c_strand c' = c_strand c \<or> c_strand c' = c_strand c @ [FlushTask]) \<and>
     u_buf (c_unpac c') = u_buf (c_unpac c)"
  using assms
  by (cases cr) (auto simp: client_on_connect_def client_do_read_def start_read_def client_post_def Let_def
      split: sum.splits if_splits prod.splits bool.splits)

lemma own_network:
  assumes own: "answers_own mp calls notes rs c" and "client_step mp recon c e = Inr c'"
    and "case e of ConnectDone cr \<Rightarrow> True | ClientWrote ec \<Rightarrow> True | ClientRead rr \<Rightarrow> (\<forall>bs. rr \<noteq> ReadOk bs) | _ \<Rightarrow> False"
  shows "answers_own mp calls notes rs c' \<and> u_buf (c_unpac c') = u_buf (c_unpac c)"
proof -
  have w: "writer_live (c_writer c)" using own by (simp add: answers_own_def)
  show ?thesis
  proof (cases e)
    case (ConnectDone cr)
    show ?thesis
    proof (cases "c_connecting c")
      case True
      with assms(2) ConnectDone obtain u where "client_on_connect recon cr c = (Inr u, c')"
        by (auto simp: client_step_def split: prod.splits sum.splits)
      note fields = on_connect_fields [OF this]
      then have "on_the_way c' = on_the_way c" by (auto simp: on_the_way_def)
      with fields w show ?thesis by (auto intro!: answers_own_cong [OF own])
    qed (use own assms(2) ConnectDone in \<open>simp add: client_step_def\<close>)
  next
    case (ClientWrote ec)
    obtain w' where w': "complete mp ec (c_writer c) = Inr w'" "c' = c\<lparr>c_writer := w'\<rparr>"
      using assms(2) ClientWrote by (auto simp: client_step_def client_on_write_def map_sum_def split: sum.splits)
    have "on_the_way c' \<subseteq># on_the_way c"
      using complete_holds [OF w w'(1)] by (simp add: on_the_way_def w'(2))
    with complete_holds [OF w w'(1)] show ?thesis
      using w'(2) by (auto intro!: answers_own_cong [OF own])
  next
    case (ClientRead rr)
    then have "c' = c \<or> (\<exists>st. c' = c\<lparr>c_reading := False, c_state := st\<rparr>) \<or> c' = c\<lparr>c_reading := False\<rparr>"
      using assms(2,3) by (cases rr) (auto simp: client_step_def client_on_read_def split: if_splits)
    then show ?thesis
      using w by (auto intro!: answers_own_cong [OF own] simp: on_the_way_def)
  qed (use assms(3) in simp_all)
qed

subsection \<open>Reading answers to its own calls\<close>

lemma after_responses_strand:
  "c_strand (after_responses rs c) = c_strand c @ map (EraseTask \<circ> r_id) rs"
  by (induction rs arbitrary: c) (simp_all add: after_response_def)

lemma after_responses_more [simp]:
  "c_pending (after_responses rs c) = c_pending c" "c_call_idx (after_responses rs c) = c_call_idx c"
  by (induction rs arbitrary: c) (simp_all add: after_response_def)

lemma erase_tasks [simp]:
  "posted_promises (map (EraseTask \<circ> r_id) rs) = {}" "posted_list (map (EraseTask \<circ> r_id) rs) = []"
  "task_buffers (map (EraseTask \<circ> r_id) rs) = []"
  by (induction rs) simp_all

text \<open>The responses are to calls that have been registered, and none is answered twice.\<close>

definition due :: "request list \<Rightarrow> response list \<Rightarrow> 'r client \<Rightarrow> response list \<Rightarrow> bool" where
  "due calls rs c news \<longleftrightarrow> distinct (map r_id (rs @ news)) \<and>
     (\<forall>r \<in> set news. \<exists>p < length calls. r_id r = id_of p \<and> p \<notin> posted_promises (c_strand c))"

lemma due_awaits:
  assumes own: "answers_own mp calls notes rs c" and "due calls rs c news" and "r \<in> set news"
  shows "\<exists>p < length calls. r_id r = id_of p \<and> p \<notin> posted_promises (c_strand c) \<and>
     promise_for c r = p \<and> name_for c r = fst (calls ! p) \<and> awaits c (r_id r) (fst (calls ! p)) p"
proof -
  obtain p where p: "p < length calls" "r_id r = id_of p" "p \<notin> posted_promises (c_strand c)"
    using assms(2,3) by (auto simp: due_def)
  moreover have "id_of p \<notin> r_id ` set rs"
  proof -
    have "r_id r \<in> r_id ` set news" using assms(3) by simp
    moreover have "r_id ` set rs \<inter> r_id ` set news = {}" using assms(2) by (simp add: due_def)
    ultimately show ?thesis using p(2) by auto
  qed
  ultimately have "c_futures c ! p = Pending" "c_ongoing c (id_of p) = Some (fst (calls ! p), p)"
    using answers_own_keys(3) [OF own p(1)] by (simp_all add: call_state_def Let_def)
  moreover have "length (c_futures c) = length calls" using own by (simp add: answers_own_def)
  ultimately show ?thesis
    using p by (intro exI [of _ p]) (simp add: promise_for_def name_for_def awaits_def)
qed

lemma due_expecting:
  assumes own: "answers_own mp calls notes rs c" and "due calls rs c news"
  shows "expecting c news"
proof -
  have "inj_on (promise_for c) (set news)"
  proof (rule inj_onI)
    fix a b assume "a \<in> set news" "b \<in> set news" "promise_for c a = promise_for c b"
    with due_awaits [OF assms] have "r_id a = r_id b" by metis
    moreover have "inj_on r_id (set news)" using assms(2) by (simp add: due_def distinct_map)
    ultimately show "a = b" using \<open>a \<in> set news\<close> \<open>b \<in> set news\<close> by (simp add: inj_onD)
  qed
  moreover have "distinct news" using assms(2) by (simp add: due_def distinct_map)
  ultimately show ?thesis
    using due_awaits [OF assms] by (fastforce simp: expecting_def distinct_map)
qed

lemma task_fits_more: "task_fits mp calls rs t \<Longrightarrow> task_fits mp calls (rs @ news) t"
  by (auto simp: task_fits_def split: client_task.splits)

lemma own_responses:
  assumes own: "answers_own mp calls notes rs c" and due: "due calls rs c news" and few: "length calls < 2 ^ 32"
  shows "answers_own mp calls notes (rs @ news) ((after_responses news c)\<lparr>c_reading := b, c_unpac := u\<rparr>)"
proof -
  let ?c = "(after_responses news c)\<lparr>c_reading := b, c_unpac := u\<rparr>"
  note futures = settled_nth [OF due_expecting [OF own due]]
  have promises: "posted_promises (c_strand (after_responses news c)) = posted_promises (c_strand c)"
    by (simp add: after_responses_strand)
  have state: "call_state calls (rs @ news) ?c p" if p: "p < length calls" for p
  proof (cases "id_of p \<in> r_id ` set news")
    case True
    then obtain r where r: "r \<in> set news" "r_id r = id_of p" by auto
    obtain q where q: "q < length calls" "r_id r = id_of q" "q \<notin> posted_promises (c_strand c)" "promise_for c r = q"
        "name_for c r = fst (calls ! q)" "awaits c (r_id r) (fst (calls ! q)) q"
      using due_awaits [OF own due r(1)] by blast
    have "q = p" using id_of_inject [OF q(1) p few] q(2) r(2) by simp
    moreover have "settled c news ! p = outcome (fst (calls ! p)) (received r)"
      using futures r(1) q(4,5) \<open>q = p\<close> by auto
    moreover have "id_of p \<in> r_id ` set (rs @ news)" using True by auto
    ultimately show ?thesis
      using q r by (auto simp: call_state_def Let_def promises awaits_def)
  next
    case False
    have "p \<notin> promise_for c ` set news"
    proof
      assume "p \<in> promise_for c ` set news"
      then obtain r where "r \<in> set news" "promise_for c r = p" by auto
      with due_awaits [OF own due, of r] have "r_id r = id_of p" by auto
      with False \<open>r \<in> set news\<close> show False by (metis imageI)
    qed
    then have "settled c news ! p = c_futures c ! p" using futures by blast
    with False answers_own_keys(3) [OF own p] show ?thesis
      by (auto simp: call_state_def Let_def promises image_Un)
  qed
  have tasks: "\<forall>t \<in> set (c_strand ?c). task_fits mp calls (rs @ news) t"
    using task_fits_more [OF answers_own_keys(4) [OF own], of _ news]
    by (auto simp: after_responses_strand task_fits_def [of _ _ _ "EraseTask i" for i])
  have way: "on_the_way ?c = on_the_way c"
    by (simp add: on_the_way_def after_responses_strand)
  have ids: "\<forall>r \<in> set (rs @ news). \<exists>p < length calls. r_id r = id_of p"
    using answers_own_keys(2) [OF own] due by (auto simp: due_def)
  show ?thesis
    using own state tasks ids futures unfolding answers_own_def way
    by (simp add: after_responses_strand)
qed

text \<open>Data arrives: the bytes are the next ones of the stream of the answers \<open>news\<close>.\<close>

lemma own_read:
  assumes laws: "codec_laws mp" "view_laws mp" "buffer_laws mp"
    and own: "answers_own mp calls notes rs c" and due: "due calls rs c news" and few: "length calls < 2 ^ 32"
    and packed: "\<forall>r \<in> set news. packable (response_obj r)"
    and bytes: "u_buf (c_unpac c) @ bs @ unread = stream mp (map response_obj news)"
  shows "\<exists>c' ds es. client_on_read mp (ReadOk bs) c = Inr c' \<and> news = ds @ es \<and>
     u_buf (c_unpac c') @ unread = stream mp (map response_obj es) \<and> answers_own mp calls notes (rs @ ds) c'"
proof -
  obtain u ds es where step: "news = ds @ es" "u_buf u @ unread = stream mp (map response_obj es)"
      "client_on_read mp (ReadOk bs) c = Inr ((after_responses ds c)\<lparr>c_reading := True, c_unpac := u\<rparr>)"
    using client_read_stream [OF laws packed due_expecting [OF own due] bytes] by blast
  have "due calls rs c ds" using due step(1) by (auto simp: due_def)
  from own_responses [OF own this few] step show ?thesis
    by (intro exI [of _ "(after_responses ds c)\<lparr>c_reading := True, c_unpac := u\<rparr>"] exI [of _ ds] exI [of _ es])
      simp
qed

subsection \<open>What is on the wire\<close>

lemma call_obj_inject: "call_obj i f args = call_obj j g args' \<longleftrightarrow> i = j \<and> f = g \<and> args = args'"
  by (auto simp: call_obj_def) (metis word_of_sint32)

lemma call_obj_not_notify: "call_obj i f args \<noteq> notify_obj g args'"
  by (simp add: call_obj_def notify_obj_def)

lemma made_call_once:
  assumes "length calls < 2 ^ 32" and "p < length calls"
  shows "count (mset (made_objs calls notes)) (nth_call calls p) = 1"
proof -
  have "inj_on (nth_call calls) {0..<length calls}"
    using id_of_inject [OF _ _ assms(1)] by (auto simp: inj_on_def nth_call_def call_obj_inject)
  then have "distinct (map (nth_call calls) [0..<length calls])" by (simp add: distinct_map)
  moreover have "nth_call calls p \<in> set (map (nth_call calls) [0..<length calls])" using assms(2) by simp
  ultimately have "count (mset (map (nth_call calls) [0..<length calls])) (nth_call calls p) = 1"
    using distinct_count_atmost_1 by metis
  moreover have "nth_call calls p \<notin> set (map (\<lambda>(f, args). notify_obj f args) notes)"
    using call_obj_not_notify by (fastforce simp: nth_call_def)
  then have "count (mset (map (\<lambda>(f, args). notify_obj f args) notes)) (nth_call calls p) = 0"
    by (simp only: count_mset_0_iff simp_thms)
  ultimately show ?thesis by (simp only: made_objs_def mset_append count_union)
qed

text \<open>The object that a buffer was packed from.\<close>

definition unpacked :: "msgpack \<Rightarrow> bytes \<Rightarrow> mobj" where
  "unpacked mp b = (case mp_parse mp b of Parsed ob r \<Rightarrow> ob | _ \<Rightarrow> MNil)"

lemma unpacked_pack: "codec_laws mp \<Longrightarrow> packable ob \<Longrightarrow> unpacked mp (mp_pack mp ob) = ob"
  by (simp add: unpacked_def parse_pack_whole)

definition requests_packable :: "request list \<Rightarrow> bool" where
  "requests_packable reqs \<longleftrightarrow> (\<forall>(f, args) \<in> set reqs. packable_call f args)"

lemma made_packable:
  "requests_packable calls \<Longrightarrow> requests_packable notes \<Longrightarrow> ob \<in> set (made_objs calls notes) \<Longrightarrow> packable ob"
  by (auto simp: requests_packable_def made_objs_def nth_call_def dest!: nth_mem split: prod.splits)

definition sent_objs :: "msgpack \<Rightarrow> 'r client \<Rightarrow> mobj list" where
  "sent_objs mp c = map (unpacked mp) (filter (\<lambda>b. b \<noteq> []) (w_wire (c_writer c)))"

lemma concat_nonempty: "concat (filter (\<lambda>b. b \<noteq> []) bs) = concat bs"
  by (induction bs) simp_all

lemma sent_objects:
  assumes laws: "codec_laws mp" and own: "answers_own mp calls notes rs c"
    and packed: "requests_packable calls" "requests_packable notes"
  shows "concat (w_wire (c_writer c)) = stream mp (sent_objs mp c)"
    and "image_mset (unpacked mp) (nonempty (task_buffers (c_strand c))) + mset (sent_objs mp c) \<subseteq>#
      mset (made_objs calls notes)"
proof -
  let ?M = "mset (made_objs calls notes)" and ?w = "c_writer c"
  have open_M: "image_mset (unpacked mp) (image_mset (mp_pack mp) ?M) = ?M"
    using unpacked_pack [OF laws] made_packable [OF packed]
    by (simp add: multiset.map_comp comp_def) (metis (mono_tags, lifting) image_mset_cong multiset.map_ident set_mset_mset)
  have way: "on_the_way c \<subseteq># image_mset (mp_pack mp) ?M" using own by (simp add: answers_own_def)
  have parts: "nonempty (task_buffers (c_strand c)) + nonempty (w_wire ?w) \<subseteq># on_the_way c"
    by (simp add: on_the_way_def in_writer_def)
  from subset_mset.order_trans [OF parts way]
  have "image_mset (unpacked mp) (nonempty (task_buffers (c_strand c)) + nonempty (w_wire ?w)) \<subseteq># ?M"
    using image_mset_subseteq_mono [of _ "image_mset (mp_pack mp) ?M" "unpacked mp"] open_M by metis
  then show "image_mset (unpacked mp) (nonempty (task_buffers (c_strand c))) + mset (sent_objs mp c) \<subseteq># ?M"
    by (simp add: sent_objs_def nonempty_def)
  have "mp_pack mp (unpacked mp b) = b" if "b \<in> set (w_wire ?w)" "b \<noteq> []" for b
  proof -
    have "b \<in># on_the_way c" using that by (simp add: on_the_way_def in_writer_def nonempty_def)
    then have "b \<in># image_mset (mp_pack mp) ?M" using way by (rule mset_subset_eqD [rotated])
    then show ?thesis using unpacked_pack [OF laws] made_packable [OF packed] by auto
  qed
  then have "map (mp_pack mp) (sent_objs mp c) = filter (\<lambda>b. b \<noteq> []) (w_wire ?w)"
    unfolding sent_objs_def map_map comp_def by (intro map_idI) auto
  then show "concat (w_wire ?w) = stream mp (sent_objs mp c)"
    by (simp add: stream_def concat_nonempty)
qed

text \<open>The calls on the wire have been registered, and their ids are different.\<close>

lemma count_in_both: "x \<in># A \<Longrightarrow> x \<in># B \<Longrightarrow> 2 \<le> count (A + B) x"
proof -
  assume "x \<in># A" "x \<in># B"
  then have "1 \<le> count A x" "1 \<le> count B x" by (simp_all only: count_greater_eq_one_iff)
  then show ?thesis unfolding count_union by linarith
qed

lemma distinct_sub: "mset xs \<subseteq># mset ys \<Longrightarrow> distinct ys \<Longrightarrow> distinct xs"
proof -
  assume sub: "mset xs \<subseteq># mset ys" and ys: "distinct ys"
  have "set xs \<subseteq> set ys" using sub by (metis set_mset_mono set_mset_mset)
  have "count (mset xs) a = 1" if "a \<in> set xs" for a
  proof (rule le_antisym)
    have "count (mset ys) a = 1"
      using ys that \<open>set xs \<subseteq> set ys\<close> by (auto simp: distinct_count_atmost_1)
    then show "count (mset xs) a \<le> 1" using mset_subset_eq_count [OF sub, of a] by linarith
    show "1 \<le> count (mset xs) a" using that by (simp only: count_greater_eq_one_iff set_mset_mset)
  qed
  then show ?thesis by (simp add: distinct_count_atmost_1)
qed

lemma posted_not_sent:
  assumes laws: "codec_laws mp" and own: "answers_own mp calls notes rs c" and few: "length calls < 2 ^ 32"
    and packed: "requests_packable calls" "requests_packable notes"
    and p: "p < length calls" "p \<in> posted_promises (c_strand c)"
  shows "nth_call calls p \<notin> set (sent_objs mp c)"
proof
  assume sent: "nth_call calls p \<in> set (sent_objs mp c)"
  obtain i f b where t: "CallTask i f p b \<in> set (c_strand c)" using p(2) by (auto simp: posted_promises_def)
  then have b: "b = mp_pack mp (nth_call calls p)"
    using answers_own_keys(4) [OF own t] by (simp add: task_fits_def)
  have ob: "packable (nth_call calls p)"
    using made_packable [OF packed, of "nth_call calls p"] p(1) by (simp add: made_objs_def)
  have "b \<in> set (task_buffers (c_strand c))" using t by (force simp: task_buffers_def)
  then have "nth_call calls p \<in># image_mset (unpacked mp) (nonempty (task_buffers (c_strand c)))"
    using b unpacked_pack [OF laws ob] pack_nonempty [OF laws ob] by (force simp: nonempty_def)
  then have "2 \<le> count (image_mset (unpacked mp) (nonempty (task_buffers (c_strand c))) + mset (sent_objs mp c))
      (nth_call calls p)"
    using sent count_in_both by (metis set_mset_mset)
  also have "\<dots> \<le> 1"
    using mset_subset_eq_count [OF sent_objects(2) [OF laws own packed]] made_call_once [OF few p(1)] by metis
  finally show False by simp
qed

lemma call_id_made:
  assumes "view_laws mp"
  shows "call_id mp (call_obj i f args) = [i]" and "call_id mp (notify_obj f args) = []"
  using assms by (simp_all add: call_id_def)

lemma call_ids_made:
  assumes "view_laws mp"
  shows "call_ids mp (made_objs calls notes) = map id_of [0..<length calls]"
proof -
  have "call_ids mp (map (nth_call calls) ps) = map id_of ps" for ps
    by (induction ps) (simp_all add: call_ids_def nth_call_def call_id_made [OF assms])
  moreover have "call_ids mp (map (\<lambda>(f, args). notify_obj f args) ns) = []" for ns
    by (induction ns) (auto simp: call_ids_def call_id_made [OF assms])
  ultimately show ?thesis by (simp add: made_objs_def call_ids_def)
qed

lemma answers_due:
  assumes laws: "codec_laws mp" "view_laws mp" and own: "answers_own mp calls notes rs c"
    and few: "length calls < 2 ^ 32" and packed: "requests_packable calls" "requests_packable notes"
    and ids: "mset (map r_id (rs @ news)) \<subseteq># mset (call_ids mp (sent_objs mp c))"
  shows "due calls rs c news"
proof -
  let ?obs = "sent_objs mp c"
  have sent: "mset ?obs \<subseteq># mset (made_objs calls notes)"
    using sent_objects(2) [OF laws(1) own packed] by (metis mset_subset_eq_add_right subset_mset.order_trans)
  have "mset (map r_id (rs @ news)) \<subseteq># mset (map id_of [0..<length calls])"
    using subset_mset.order_trans [OF ids call_ids_subset [OF sent]] by (simp only: call_ids_made [OF laws(2)])
  moreover have "distinct (map id_of [0..<length calls])"
    using id_of_inject [OF _ _ few] by (auto simp: distinct_map inj_on_def)
  ultimately have "distinct (map r_id (rs @ news))"
    by (rule distinct_sub)
  moreover have "\<exists>p < length calls. r_id r = id_of p \<and> p \<notin> posted_promises (c_strand c)" if "r \<in> set news" for r
  proof -
    have "r_id r \<in> set (call_ids mp ?obs)"
      using ids that by (metis (no_types, lifting) image_eqI mset_subset_eqD set_append set_map set_mset_mset UnI2)
    then obtain ob where ob: "ob \<in> set ?obs" "r_id r \<in> set (call_id mp ob)"
      by (auto simp: call_ids_def)
    from ob(1) have "ob \<in> set (made_objs calls notes)"
      using sent by (metis mset_subset_eqD set_mset_mset)
    with ob(2) obtain p where p: "p < length calls" "ob = nth_call calls p"
      by (auto simp: made_objs_def call_id_made [OF laws(2)])
    then have "r_id r = id_of p" using ob(2) by (simp add: nth_call_def call_id_made [OF laws(2)])
    with p ob(1) posted_not_sent [OF laws(1) own few packed p(1)] show ?thesis by blast
  qed
  ultimately show ?thesis by (simp add: due_def)
qed

end
