(* ===== verification/System.thy ===== *)
theory System
  imports WorkerServes ClientAnswers
begin

section \<open>Clients, network and server\<close>

text \<open>
  Any number of clients and one server as one machine. Connection \<open>k\<close> is between client \<open>k\<close> and
  session \<open>k\<close>; the network hands each side the bytes the other has written, in order, in pieces
  of any size and after any delay. Everything else happens as in the machines of the client and
  of \<open>WorkerSteps\<close>: the events of all of them, the single steps of the server's handlers among
  them, interleave in any way.
\<close>

subsection \<open>The machine\<close>

record ('w, 'r) sys =
  y_clients :: "nat \<Rightarrow> 'r client"
  y_server :: "'w par"
  y_up :: "nat \<Rightarrow> bytes"
  y_down :: "nat \<Rightarrow> bytes"

datatype sys_event = AtClient nat client_event | AtServer par_event

datatype sys_fault = AtClientFault nat fault | AtServerFault srv_fault

definition sys_init :: "msgpack \<Rightarrow> 'w dispatcher \<Rightarrow> bool \<Rightarrow> 'w \<Rightarrow> 'r \<Rightarrow> ('w, 'r) sys" where
  "sys_init mp d suppress w r = \<lparr>y_clients = (\<lambda>k. Client_new mp r), y_server = all_idle (serving_with d suppress w),
     y_up = (\<lambda>k. []), y_down = (\<lambda>k. [])\<rparr>"

text \<open>The bytes that an event brings to a client, and what each side has put on its wire.\<close>

definition bytes_got :: "'r client \<Rightarrow> client_event \<Rightarrow> bytes" where
  "bytes_got c e = (case e of ClientRead rr \<Rightarrow>
       if c_reading c then (case rr of ReadOk bs \<Rightarrow> bs | _ \<Rightarrow> []) else []
     | _ \<Rightarrow> [])"

definition sent_up :: "('w, 'r) sys \<Rightarrow> nat \<Rightarrow> bytes" where
  "sent_up y k = concat (w_wire (c_writer (y_clients y k)))"

definition sent_down :: "('w, 'r) sys \<Rightarrow> nat \<Rightarrow> bytes" where
  "sent_down y k = (if k < length (sv_objs (p_srv (y_server y)))
     then concat (w_wire (ss_writer (sv_objs (p_srv (y_server y)) ! k))) else [])"

text \<open>Nothing of connection \<open>k\<close> is under way or waits, and no worker is in the middle of a handler.\<close>

definition connection_rests :: "('w, 'r) sys \<Rightarrow> nat \<Rightarrow> bool" where
  "connection_rests y k \<longleftrightarrow> all_free (y_server y) \<and> k < length (sv_objs (p_srv (y_server y))) \<and>
     (let s = sv_objs (p_srv (y_server y)) ! k; c = y_clients y k in
        ss_reading s \<and> ss_jobs s = [] \<and> w_strand (ss_writer s) = [] \<and> w_queue (ss_writer s) = [] \<and>
        \<not> w_exit (ss_writer s) \<and> y_up y k = sent_up y k \<and> y_down y k = sent_down y k \<and>
        c_strand c = [] \<and> (\<forall>b \<in> set (c_pending c). b = []) \<and> w_queue (c_writer c) = [])"

text \<open>The network brings nothing that has not been sent.\<close>

definition network_allows :: "('w, 'r) sys \<Rightarrow> sys_event \<Rightarrow> bool" where
  "network_allows y e = (case e of
       AtClient k ce \<Rightarrow> prefix (y_down y k @ bytes_got (y_clients y k) ce) (sent_down y k)
     | AtServer se \<Rightarrow> (case se of
           ReadChunk t k bs \<Rightarrow> prefix (y_up y k @ par_reads k (y_server y) se) (sent_up y k)
         | _ \<Rightarrow> True))"

definition sys_step ::
  "msgpack \<Rightarrow> ('r \<Rightarrow> bool \<times> 'r) \<Rightarrow> ('w, 'r) sys \<Rightarrow> sys_event \<Rightarrow> sys_fault + ('w, 'r) sys" where
  "sys_step mp recon y e = (if \<not> network_allows y e then Inr y else case e of
       AtClient k ce \<Rightarrow> (case client_step mp recon (y_clients y k) ce of
           Inl f \<Rightarrow> Inl (AtClientFault k f)
         | Inr c \<Rightarrow> Inr (y\<lparr>y_clients := (y_clients y)(k := c),
             y_down := (y_down y)(k := y_down y k @ bytes_got (y_clients y k) ce)\<rparr>))
     | AtServer se \<Rightarrow> (case par_step mp (y_server y) se of
           Inl f \<Rightarrow> Inl (AtServerFault f)
         | Inr v \<Rightarrow> Inr (y\<lparr>y_server := v, y_up := (\<lambda>k. y_up y k @ par_reads k (y_server y) se)\<rparr>)))"

definition sys_machine ::
  "msgpack \<Rightarrow> ('r \<Rightarrow> bool \<times> 'r) \<Rightarrow> sys_fault + ('w, 'r) sys \<Rightarrow> sys_event \<Rightarrow> sys_fault + ('w, 'r) sys" where
  "sys_machine mp recon st e = (case st of Inl f \<Rightarrow> Inl f | Inr y \<Rightarrow> sys_step mp recon y e)"

lemma sys_machine_simps [simp]:
  "sys_machine mp recon (Inl f) e = Inl f" "sys_machine mp recon (Inr y) e = sys_step mp recon y e"
  by (simp_all add: sys_machine_def)

lemma sys_machine_stuck [simp]: "run_events (sys_machine mp recon) (Inl f) es = Inl f"
  by (induction es) simp_all

text \<open>The requests that the application of client \<open>k\<close> makes in a run.\<close>

definition calls_of :: "nat \<Rightarrow> sys_event list \<Rightarrow> request list" where
  "calls_of k es = concat (map (\<lambda>e. case e of AtClient j ce \<Rightarrow> if j = k then calls_in ce else [] | _ \<Rightarrow> []) es)"

definition notes_of :: "nat \<Rightarrow> sys_event list \<Rightarrow> request list" where
  "notes_of k es = concat (map (\<lambda>e. case e of AtClient j ce \<Rightarrow> if j = k then notes_in ce else [] | _ \<Rightarrow> []) es)"

lemma requests_simps [simp]:
  "calls_of k [] = []" "calls_of k (es @ fs) = calls_of k es @ calls_of k fs"
  "calls_of k (AtServer se # es) = calls_of k es"
  "calls_of k (AtClient j ce # es) = (if j = k then calls_in ce else []) @ calls_of k es"
  "notes_of k [] = []" "notes_of k (es @ fs) = notes_of k es @ notes_of k fs"
  "notes_of k (AtServer se # es) = notes_of k es"
  "notes_of k (AtClient j ce # es) = (if j = k then notes_in ce else []) @ notes_of k es"
  by (simp_all add: calls_of_def notes_of_def)

subsection \<open>Wires only grow\<close>

lemma writer_write_wire: "writer_write b w = Inr w' \<Longrightarrow> w_wire w' = w_wire w"
  by (auto simp: writer_write_def do_write_def Let_def split: if_splits list.splits)

lemma pop_wire: "pop_and_continue w = Inr w' \<Longrightarrow> w_wire w' = w_wire w"
  by (auto simp: pop_and_continue_def do_write_def Let_def split: list.splits if_splits)

lemma complete_wire: "complete mp ec w = Inr w' \<Longrightarrow> prefix (w_wire w) (w_wire w')"
  by (cases ec) (auto simp: complete_def on_write_def dest!: pop_wire split: option.splits list.splits sum.splits if_splits)

definition grows :: "bytes list \<Rightarrow> bytes list \<Rightarrow> bool" where
  "grows ws ws' \<longleftrightarrow> prefix (concat ws) (concat ws')"

lemma grows_refl [simp]: "grows ws ws"
  by (simp add: grows_def)

lemma grows_prefix: "prefix ws ws' \<Longrightarrow> grows ws ws'"
  by (auto simp: grows_def prefix_def)

lemma client_write_wire: "client_write b c = Inr c' \<Longrightarrow> w_wire (c_writer c') = w_wire (c_writer c)"
  by (auto simp: client_write_def map_sum_def dest: writer_write_wire split: sum.splits)

lemma write_pending_wire:
  "write_pending mp bs c = Inr (left, c') \<Longrightarrow> w_wire (c_writer c') = w_wire (c_writer c)"
proof (induction bs arbitrary: c left)
  case (Cons b bs)
  then show ?case by (auto split: sum.splits prod.splits dest!: client_write_wire)
qed simp

lemma flush_pending_wire: "flush_pending mp c = Inr c' \<Longrightarrow> w_wire (c_writer c') = w_wire (c_writer c)"
  by (auto simp: flush_pending_def dest: write_pending_wire split: sum.splits)

lemma client_run_strand_wire:
  "client_run_strand mp c = Inr c' \<Longrightarrow> w_wire (c_writer c') = w_wire (c_writer c)"
  by (auto simp: client_run_strand_def run_client_task_def run_call_task_def run_erase_task_def Let_def
      split: list.splits client_task.splits sum.splits if_splits
      dest!: flush_pending_wire client_write_wire)

lemma client_step_wire:
  assumes "client_step mp recon c e = Inr c'"
  shows "grows (w_wire (c_writer c)) (w_wire (c_writer c'))"
proof (cases e)
  case (ConnectDone cr)
  then have "c_writer c' = c_writer c"
    using assms by (auto simp: client_step_def dest: on_connect_fields split: if_splits prod.splits sum.splits)
  then show ?thesis by simp
next
  case (ClientRead rr)
  then have "c_writer c' = c_writer c"
    using assms by (cases rr) (auto simp: client_step_def client_on_read_def client_do_read_def Let_def
        dest!: client_decode_writer split: if_splits sum.splits)
  then show ?thesis by simp
next
  case ClientStrand
  then show ?thesis using assms by (simp add: client_step_def client_run_strand_wire)
next
  case (ClientWrote ec)
  then show ?thesis
    using assms by (auto simp: client_step_def client_on_write_def map_sum_def
        dest!: grows_prefix [OF complete_wire] split: sum.splits)
qed (use assms in \<open>auto simp: client_step_def async_call_def next_call_idx_def notify_def client_post_def Let_def\<close>)

text \<open>The sessions.\<close>

lemma run_strand_wire:
  "run_strand mp s = Inr (s', pc) \<Longrightarrow> w_wire (ss_writer s') = w_wire (ss_writer s)"
  by (auto simp: run_strand_def run_session_task_def with_writer_def map_sum_def shutdown_socket_def Let_def
      dest!: writer_write_wire split: list.splits strand_task.splits session_task.splits sum.splits)

lemma post_tasks_wire [simp]: "w_wire (ss_writer (post_tasks ts s)) = w_wire (ss_writer s)"
proof -
  have "w_wire (fold (\<lambda>t. post_on_strand (Derived t)) ts w) = w_wire w" for w :: "session_task writer"
    by (induction ts arbitrary: w) (simp_all add: post_on_strand_def)
  then show ?thesis by (simp add: post_tasks_def)
qed

lemma sess_step_wire:
  assumes "sess_step mp d (s, c) e = Inr (s', c')"
  shows "prefix (w_wire (ss_writer s)) (w_wire (ss_writer s'))"
proof (cases e)
  case (Read rr)
  have "s' = session_close (s\<lparr>ss_reading := False\<rparr>) \<or> ss_writer s' = ss_writer s"
    using assms Read
    by (cases rr) (auto simp: sess_step_def session_on_read_def session_do_read_def start_read_def
        Let_def dest!: session_decode_writer split: if_splits sum.splits)
  then show ?thesis by auto
next
  case (Job k)
  with assms show ?thesis
    by (auto simp: sess_step_def run_job_def split: if_splits prod.splits sum.splits)
next
  case Strand
  with assms show ?thesis
    by (auto simp: sess_step_def map_sum_def dest: run_strand_wire split: sum.splits)
next
  case (Wrote ec)
  with assms show ?thesis
    by (auto simp: sess_step_def session_on_write_def with_writer_def map_sum_def
        intro: complete_wire split: sum.splits)
qed (use assms in \<open>auto simp: sess_step_def\<close>)

definition wires_grow :: "'w srv \<Rightarrow> 'w srv \<Rightarrow> bool" where
  "wires_grow v v' \<longleftrightarrow> length (wires v) \<le> length (wires v') \<and>
     (\<forall>k < length (wires v). prefix (wires v ! k) (wires v' ! k))"

lemma wires_grow_same: "wires v' = wires v \<Longrightarrow> wires_grow v v'"
  by (simp add: wires_grow_def)

lemma parent_calls_wires: "parent_calls t k pc v = Inr v' \<Longrightarrow> wires v' = wires v"
  by (auto simp: parent_calls_def close_session_def wires_def [of "sv_sessions_update f v" for f v]
      split: if_splits) (simp_all add: wires_def)

lemma srv_step_wires:
  assumes "srv_step mp v e = Inr v'"
  shows "wires_grow v v'"
proof (cases e)
  case (AcceptDone t ok)
  with assms show ?thesis
    by (auto simp: srv_step_def on_accept_def start_accept_def Let_def wires_grow_def wires_def nth_append
        split: if_splits sum.splits)
next
  case (SessionStep t k se)
  show ?thesis
  proof (cases "has_state v t Running \<and> \<not> sv_stopped v \<and> k < length (sv_objs v)")
    case True
    have update: "wires_grow v (v\<lparr>sv_objs := (sv_objs v)[k := s]\<rparr>)"
      if "prefix (w_wire (ss_writer (sv_objs v ! k))) (w_wire (ss_writer s))" for s
      using that True by (auto simp: wires_grow_def wires_def nth_list_update)
    have "session_step mp t k se v = Inr v'" using assms True SessionStep by (simp add: srv_step_def)
    then show ?thesis
    proof (cases rule: session_step_cases)
      case (strand s pc)
      have "wires v' = wires (v\<lparr>sv_objs := (sv_objs v)[k := s]\<rparr>)" by (rule parent_calls_wires [OF strand(3)])
      with update [of s] run_strand_wire [OF strand(2)] show ?thesis by (simp add: wires_grow_def)
    next
      case (own s c)
      have "wires v' = wires (v\<lparr>sv_objs := (sv_objs v)[k := s]\<rparr>)" by (simp add: own(4) wires_def)
      with update [OF sess_step_wire [OF own(3)]] show ?thesis by (simp add: wires_grow_def)
    qed (simp add: wires_grow_same)
  qed (use assms SessionStep in \<open>auto simp: srv_step_def wires_grow_same\<close>)
next
  case CloseAllCalled
  with assms show ?thesis by (auto simp: srv_step_def intro: wires_grow_same)
qed (use assms thread_event_fields [OF assms] in \<open>auto simp: wires_def intro!: wires_grow_same\<close>)

lemma put_session_wires:
  "w_wire (ss_writer s) = w_wire (ss_writer (sv_objs v ! k)) \<Longrightarrow> wires (put_session k s v) = wires v"
  by (cases "k < length (sv_objs v)") (simp_all add: wires_def map_update list_update_same_conv list_update_beyond)

lemma leave_ctx_wires [simp]: "wires (leave_ctx t c v) = wires v"
  by (simp add: wires_def)

lemma work_wires:
  "chunk_arrives bs s = (x, s') \<Longrightarrow> w_wire (ss_writer s') = w_wire (ss_writer s)"
  "decode_next mp s = Inr (x, s') \<Longrightarrow> w_wire (ss_writer s') = w_wire (ss_writer s)"
  "read_again mp s = Inr (x, s') \<Longrightarrow> w_wire (ss_writer s') = w_wire (ss_writer s)"
  by (auto simp: chunk_arrives_def decode_next_def read_again_def session_do_read_def start_read_def map_sum_def
      split: if_splits next_result.splits sum.splits)

lemma par_step_wires:
  assumes "par_step mp p e = Inr p'"
  shows "wires_grow (p_srv p) (p_srv p')"
proof (cases e)
  case (Whole se)
  with assms srv_step_wires [of mp "p_srv p" se] show ?thesis
    by (auto simp: par_step_def wires_grow_same map_sum_def split: if_splits sum.splits)
next
  case (ReadChunk t k bs)
  with assms show ?thesis
    by (auto simp: par_step_def dest: work_wires split: if_splits prod.splits intro!: wires_grow_same put_session_wires)
next
  case (TakeJob t k i)
  have "wires (snd (take_job t k i (p_srv p))) = wires (p_srv p)"
    by (simp add: take_job_def Let_def put_session_wires)
  with TakeJob assms show ?thesis by (auto simp: par_step_def split: if_splits prod.splits intro!: wires_grow_same)
next
  case (Advance t)
  have "wires v = wires (p_srv p)" if "advance mp t k wk (p_srv p) = Inr (x, v)" for k wk x v
    using that by (cases wk) (auto simp: advance_def dispatch_job_def post_next_def map_sum_def
        dest: work_wires split: sum.splits if_splits prod.splits list.splits intro!: put_session_wires)
  with Advance assms show ?thesis
    by (auto simp: par_step_def split: option.splits sum.splits intro!: wires_grow_same)
qed

lemma sent_down_grows:
  assumes "par_step mp (y_server y) e = Inr v"
  shows "prefix (sent_down y k) (sent_down (y\<lparr>y_server := v, y_up := up\<rparr>) k)"
  using par_step_wires [OF assms] by (auto simp: wires_grow_def sent_down_def wires_def prefix_def)

subsection \<open>Streams have one reading\<close>

lemma stream_prefix_unique:
  assumes "codec_laws mp"
  shows "\<forall>ob \<in> set xs \<union> set ys. packable ob \<Longrightarrow> stream mp xs @ bs = stream mp ys \<Longrightarrow> \<exists>zs. ys = xs @ zs \<and> bs = stream mp zs"
proof (induction xs arbitrary: ys)
  case (Cons x xs)
  have "stream mp ys \<noteq> []" using Cons.prems pack_nonempty [OF assms, of x] by auto
  then obtain y ys' where ys: "ys = y # ys'" by (cases ys) auto
  have "mp_parse mp (mp_pack mp x @ stream mp xs @ bs) = Parsed x (stream mp xs @ bs)"
    "mp_parse mp (mp_pack mp y @ stream mp ys') = Parsed y (stream mp ys')"
    using Cons.prems(1) ys parse_pack [OF assms] by simp_all
  moreover have "mp_pack mp x @ stream mp xs @ bs = mp_pack mp y @ stream mp ys'" using Cons.prems(2) ys by simp
  ultimately have "Parsed x (stream mp xs @ bs) = Parsed y (stream mp ys')" by metis
  then have same: "x = y" "stream mp xs @ bs = stream mp ys'" by (simp_all only: parsed.inject)
  have "\<forall>ob \<in> set xs \<union> set ys'. packable ob" using Cons.prems(1) ys by simp
  from Cons.IH [OF this same(2)] obtain zs where "ys' = xs @ zs" "bs = stream mp zs" by (elim exE conjE)
  with same(1) ys show ?case by (intro exI [of _ zs]) simp
qed simp

lemma response_obj_same:
  assumes "response_obj r = response_obj r'"
  shows "r_id r = r_id r'" and "received r = received r'"
proof -
  have "uint (r_id r) = uint (r_id r')" using assms by (simp add: response_obj_def)
  then show "r_id r = r_id r'" by (metis word_of_int_uint)
  with assms show "received r = received r'"
    by (cases r; cases r') (auto simp: response_obj_def received_def split: option.splits)
qed

lemma responses_same:
  "map response_obj rs = map response_obj rs' \<Longrightarrow>
     map r_id rs = map r_id rs' \<and> map received rs = map received rs'"
proof (induction rs arbitrary: rs')
  case (Cons r rs)
  obtain r' rs'' where rs': "rs' = r' # rs''" "response_obj r = response_obj r'"
      "map response_obj rs = map response_obj rs''"
    using Cons.prems by (cases rs') auto
  from Cons.IH [OF rs'(3)] response_obj_same [OF rs'(2)] show ?case by (simp add: rs'(1))
qed simp

lemma answers_own_same:
  assumes "answers_own mp calls notes rs c" and "map response_obj rs = map response_obj rs'"
  shows "answers_own mp calls notes rs' c"
proof -
  have ids: "r_id ` set rs' = r_id ` set rs" using responses_same [OF assms(2)] by (metis set_map)
  have "\<exists>r' \<in> set rs'. r_id r' = r_id r \<and> received r' = received r" if "r \<in> set rs" for r
  proof -
    have "response_obj r \<in> set (map response_obj rs)" using that by simp
    then obtain r' where "r' \<in> set rs'" "response_obj r' = response_obj r" unfolding assms(2) by auto
    with response_obj_same show ?thesis by blast
  qed
  then have found: "\<exists>r \<in> set rs'. r_id r = i \<and> st = outcome f (received r)"
    if "\<exists>r \<in> set rs. r_id r = i \<and> st = outcome f (received r)" for i st f
    using that by metis
  have "call_state calls rs' c p" if "call_state calls rs c p" for p
    using that found [of "id_of p" "c_futures c ! p" "fst (calls ! p)"]
    by (simp add: call_state_def Let_def ids split: if_splits)
  moreover have "task_fits mp calls rs t = task_fits mp calls rs' t" for t
    by (simp add: task_fits_def ids split: client_task.splits)
  moreover have "\<exists>p < length calls. r_id r' = id_of p" if "r' \<in> set rs'" for r'
  proof -
    have "r_id r' \<in> r_id ` set rs" using that ids by auto
    then obtain r where "r \<in> set rs" "r_id r = r_id r'" by auto
    with answers_own_keys(2) [OF assms(1), of r] show ?thesis by simp
  qed
  ultimately show ?thesis
    using assms(1) answers_own_keys(3) [OF assms(1)] unfolding answers_own_def by simp
qed

text \<open>What the functions promise about all requests, they promise about those sent.\<close>

lemma answers_fit_mono:
  "answers_fit mp d P obs \<Longrightarrow> (\<And>k. set (obs' k) \<subseteq> set (obs k)) \<Longrightarrow> answers_fit mp d P obs'"
  unfolding answers_fit_def by (meson subsetD)

lemma made_objs_mono:
  "set (made_objs calls notes) \<subseteq> set (made_objs (calls @ calls') (notes @ notes'))"
  by (auto simp: made_objs_def nth_call_def nth_append)

subsection \<open>The invariant\<close>

text \<open>The requests that are made can be packed, no client makes 2 to the 32 calls, and the functions
  answer them with values that can be packed, as long as the application state satisfies \<open>P\<close>.\<close>

definition requests_ok ::
  "msgpack \<Rightarrow> 'w dispatcher \<Rightarrow> ('w \<Rightarrow> bool) \<Rightarrow> sys_event list \<Rightarrow> bool" where
  "requests_ok mp d P es \<longleftrightarrow>
     (\<forall>k. requests_packable (calls_of k es) \<and> requests_packable (notes_of k es) \<and> length (calls_of k es) < 2 ^ 32) \<and>
     answers_fit mp d P (\<lambda>k. made_objs (calls_of k es) (notes_of k es))"

lemma requests_ok_prefix:
  assumes "requests_ok mp d P (es @ fs)"
  shows "requests_ok mp d P es"
proof -
  have "answers_fit mp d P (\<lambda>k. made_objs (calls_of k (es @ fs)) (notes_of k (es @ fs)))"
    using assms by (simp add: requests_ok_def)
  then have "answers_fit mp d P (\<lambda>k. made_objs (calls_of k es) (notes_of k es))"
    by (rule answers_fit_mono) (simp add: made_objs_mono)
  moreover have "requests_packable (calls_of k es) \<and> requests_packable (notes_of k es) \<and>
      length (calls_of k es) < 2 ^ 32" for k
    using assms unfolding requests_ok_def by (auto dest!: spec [of _ k] simp: requests_packable_def)
  ultimately show ?thesis by (simp add: requests_ok_def)
qed

text \<open>
  The server has had a run of its own on the bytes delivered; each side has been given a part of
  what the other has sent; and each client stands as its own calls and the answers it has read
  say.
\<close>

definition server_ran ::
  "msgpack \<Rightarrow> 'w dispatcher \<Rightarrow> bool \<Rightarrow> 'w \<Rightarrow> sys_event list \<Rightarrow> ('w, 'r) sys \<Rightarrow> bool" where
  "server_ran mp d suppress w es y \<longleftrightarrow>
     (\<exists>ses. AtServer ` set ses \<subseteq> set es \<and> run_events (par_machine mp) (Inr (all_idle (serving_with d suppress w))) ses = Inr (y_server y) \<and>
        (\<forall>k. collected (par_step mp) (par_reads k) (Inr (all_idle (serving_with d suppress w))) ses = y_up y k)) \<and>
     (\<forall>k. prefix (y_up y k) (sent_up y k)) \<and> (\<forall>k. prefix (y_down y k) (sent_down y k))"

definition client_stands ::
  "msgpack \<Rightarrow> sys_event list \<Rightarrow> ('w, 'r) sys \<Rightarrow> nat \<Rightarrow> response list \<Rightarrow> bool" where
  "client_stands mp es y k rs \<longleftrightarrow>
     answers_own mp (calls_of k es) (notes_of k es) rs (y_clients y k) \<and>
     (\<forall>r \<in> set rs. packable (response_obj r)) \<and>
     y_down y k = stream mp (map response_obj rs) @ u_buf (c_unpac (y_clients y k))"

definition sys_inv ::
  "msgpack \<Rightarrow> 'w dispatcher \<Rightarrow> bool \<Rightarrow> 'w \<Rightarrow> sys_event list \<Rightarrow> ('w, 'r) sys \<Rightarrow> bool" where
  "sys_inv mp d suppress w es y \<longleftrightarrow> server_ran mp d suppress w es y \<and> (\<forall>k. \<exists>rs. client_stands mp es y k rs)"

lemma server_ran_more:
  assumes "server_ran mp d suppress w es y"
  shows "server_ran mp d suppress w (es @ fs) y"
proof -
  have "A \<subseteq> set (es @ fs)" if "A \<subseteq> set es" for A using that by auto
  with assms show ?thesis unfolding server_ran_def by blast
qed

lemma sys_inv_init: "sys_inv mp d suppress w [] (sys_init mp d suppress w r)"
proof -
  let ?y = "sys_init mp d suppress w r"
  have "server_ran mp d suppress w [] ?y"
    unfolding server_ran_def by (auto simp: sys_init_def intro!: exI [of _ "[]"])
  moreover have "client_stands mp [] ?y k []" for k
    using answers_own_new by (simp add: client_stands_def sys_init_def)
  ultimately show ?thesis unfolding sys_inv_def by blast
qed

text \<open>What a client has put on the wire is some of the requests it has made.\<close>

lemma sent_now:
  assumes "codec_laws mp" and ok: "requests_ok mp d P es" and inv: "sys_inv mp d suppress w es y"
  shows "sent_up y k = stream mp (sent_objs mp (y_clients y k))"
    and "mset (sent_objs mp (y_clients y k)) \<subseteq># mset (made_objs (calls_of k es) (notes_of k es))"
    and "set (sent_objs mp (y_clients y k)) \<subseteq> set (made_objs (calls_of k es) (notes_of k es))"
    and "well_packed (sent_objs mp (y_clients y k))"
proof -
  obtain rs where own: "answers_own mp (calls_of k es) (notes_of k es) rs (y_clients y k)"
    using inv by (auto simp: sys_inv_def client_stands_def)
  have p: "requests_packable (calls_of k es)" "requests_packable (notes_of k es)"
    using ok by (simp_all add: requests_ok_def)
  note objs = sent_objects [OF assms(1) own p]
  show "sent_up y k = stream mp (sent_objs mp (y_clients y k))" using objs(1) by (simp add: sent_up_def)
  show sub: "mset (sent_objs mp (y_clients y k)) \<subseteq># mset (made_objs (calls_of k es) (notes_of k es))"
    using objs(2) by (metis mset_subset_eq_add_right subset_mset.order_trans)
  then show "set (sent_objs mp (y_clients y k)) \<subseteq> set (made_objs (calls_of k es) (notes_of k es))"
    by (metis set_mset_mono set_mset_mset)
  then show "well_packed (sent_objs mp (y_clients y k))"
    using made_packable [OF p] by (auto simp: well_packed_def)
qed

text \<open>The answers posted are some of the answers.\<close>

lemma answers_for_some: "mset ps \<subseteq># mset as \<Longrightarrow> set (answers_for k ps) \<subseteq> set (answers_for k as)"
  by (drule set_mset_mono) (auto simp: answers_for_def)

lemma explained_now:
  assumes laws: "codec_laws mp" "view_laws mp" "buffer_laws mp" and ok: "requests_ok mp d P es" and "P w"
    and inv: "sys_inv mp d suppress w es y"
  shows "\<exists>hist as ps. serve_all mp d hist w = (as, Some (sv_world (p_srv (y_server y)))) \<and>
     sendable mp (map snd as) \<and> mset ps \<subseteq># mset as \<and>
     (\<forall>k. mset (requests_of k hist) \<subseteq># mset (sent_objs mp (y_clients y k)) \<and>
        mset (map r_id (answers_for k ps)) \<subseteq># mset (call_ids mp (sent_objs mp (y_clients y k))) \<and>
        prefix (sent_down y k) (stream mp (map response_obj (answers_for k ps))))"
proof -
  let ?obs = "\<lambda>k. sent_objs mp (y_clients y k)"
  note wire = sent_now(1) [OF laws(1) ok inv] and made = sent_now(3) [OF laws(1) ok inv]
    and packed = sent_now(4) [OF laws(1) ok inv]
  have fit: "answers_fit mp d P ?obs"
    using ok made by (auto simp: requests_ok_def intro: answers_fit_mono)
  obtain ses where ses: "run_events (par_machine mp) (Inr (all_idle (serving_with d suppress w))) ses = Inr (y_server y)"
      "\<forall>k. collected (par_step mp) (par_reads k) (Inr (all_idle (serving_with d suppress w))) ses = y_up y k" "\<forall>k. prefix (y_up y k) (sent_up y k)"
    using inv by (auto simp: sys_inv_def server_ran_def)
  have "\<forall>k. well_packed (?obs k)" "\<forall>k. prefix (collected (par_step mp) (par_reads k) (Inr (all_idle (serving_with d suppress w))) ses) (stream mp (?obs k))"
    using packed ses(2,3) wire by simp_all
  from workers_in_sequence [OF laws this(1) fit assms(5) this(2) ses(1) refl] obtain hist as ps where
      h: "serve_all mp d hist w = (as, Some (sv_world (p_srv (y_server y))))" "sendable mp (map snd as)"
      "mset ps \<subseteq># mset as" "\<forall>h \<in> set hist. fst h < length (sv_objs (p_srv (y_server y)))"
      "\<forall>k < length (sv_objs (p_srv (y_server y))). let s = sv_objs (p_srv (y_server y)) ! k in
        mset (requests_of k hist) + mset (ss_jobs s) \<subseteq># mset (?obs k) \<and>
        prefix (w_wire (ss_writer s)) (map (response_data mp) (answers_for k ps)) \<and>
        mset (map r_id (answers_for k ps)) \<subseteq># mset (call_ids mp (?obs k))"
    by blast
  have "mset (requests_of k hist) \<subseteq># mset (?obs k) \<and>
      mset (map r_id (answers_for k ps)) \<subseteq># mset (call_ids mp (?obs k)) \<and>
      prefix (sent_down y k) (stream mp (map response_obj (answers_for k ps)))" for k
  proof (cases "k < length (sv_objs (p_srv (y_server y)))")
    case True
    have "prefix (concat (w_wire (ss_writer (sv_objs (p_srv (y_server y)) ! k)))) (concat (map (response_data mp) (answers_for k ps)))"
      using h(5) True by (auto simp: Let_def prefix_def)
    moreover have "map (response_data mp) (answers_for k ps) = map (mp_pack mp) (map response_obj (answers_for k ps))"
      by (simp add: response_data_def)
    then have "concat (map (response_data mp) (answers_for k ps)) = stream mp (map response_obj (answers_for k ps))"
      by (simp only: stream_def)
    ultimately show ?thesis
      using h(5) True by (auto simp: Let_def sent_down_def intro: subset_mset.order_trans [rotated])
  next
    case False
    then have "k \<notin> fst ` set hist" using h(4) by auto
    then have "answers_for k ps = []"
      using answers_for_some [OF h(3), of k] answers_for_other [OF h(1)] by auto
    with \<open>k \<notin> fst ` set hist\<close> False show ?thesis
      by (simp add: requests_of_other sent_down_def)
  qed
  with h(1-3) show ?thesis by blast
qed

subsection \<open>Every step keeps it\<close>

lemma own_quiet:
  assumes "buffer_laws mp" and own: "answers_own mp calls notes rs c" and few: "length (calls @ calls_in e) < 2 ^ 32"
    and step: "client_step mp recon c e = Inr c'" and quiet: "\<forall>bs. e = ClientRead (ReadOk bs) \<longrightarrow> \<not> c_reading c"
  shows "answers_own mp (calls @ calls_in e) (notes @ notes_in e) rs c' \<and> u_buf (c_unpac c') = u_buf (c_unpac c)"
proof (cases e)
  case (AppCall f args)
  with own_call [OF own, of f args] few step show ?thesis
    by (auto simp: client_step_def calls_in_def notes_in_def async_call_def next_call_idx_def client_post_def Let_def)
next
  case (AppNotify f args)
  with own_notify [OF own, of f args] step show ?thesis
    by (auto simp: client_step_def calls_in_def notes_in_def notify_def client_post_def)
next
  case ClientStrand
  have run: "client_run_strand mp c = Inr c'" using step ClientStrand by (simp add: client_step_def)
  have "c_unpac c' = c_unpac c"
  proof (cases "c_strand c")
    case (Cons t ts)
    have "writer_live (c_writer c)" using own by (simp add: answers_own_def)
    from run_strand_effect [OF assms(1) this Cons run] show ?thesis by (cases t) auto
  qed (use run in \<open>simp add: client_run_strand_def\<close>)
  with own_strand [OF assms(1) own _ run] few ClientStrand show ?thesis
    by (simp add: calls_in_def notes_in_def)
next
  case (ConnectDone cr)
  with own_network [OF own step] show ?thesis by (simp add: calls_in_def notes_in_def)
next
  case (ClientWrote ec)
  with own_network [OF own step] show ?thesis by (simp add: calls_in_def notes_in_def)
next
  case (ClientRead rr)
  show ?thesis
  proof (cases "\<exists>bs. rr = ReadOk bs")
    case True
    then have "c' = c" using quiet step ClientRead by (auto simp: client_step_def)
    with own ClientRead show ?thesis by (simp add: calls_in_def notes_in_def)
  next
    case False
    with own_network [OF own step] ClientRead show ?thesis by (simp add: calls_in_def notes_in_def)
  qed
qed

text \<open>A client reads: the bytes are the next ones of the answers to its calls.\<close>

lemma client_reads_answers:
  assumes laws: "codec_laws mp" "view_laws mp" "buffer_laws mp" and ok: "requests_ok mp d P es" and "P w"
    and inv: "sys_inv mp d suppress w es y"
    and allowed: "prefix (y_down y k @ bs) (sent_down y k)"
  shows "\<exists>c rs. client_on_read mp (ReadOk bs) (y_clients y k) = Inr c \<and>
     answers_own mp (calls_of k es) (notes_of k es) rs c \<and> (\<forall>r \<in> set rs. packable (response_obj r)) \<and>
     y_down y k @ bs = stream mp (map response_obj rs) @ u_buf (c_unpac c)"
proof -
  let ?c = "y_clients y k"
  obtain rs0 where own0: "answers_own mp (calls_of k es) (notes_of k es) rs0 ?c"
      "\<forall>r \<in> set rs0. packable (response_obj r)" "y_down y k = stream mp (map response_obj rs0) @ u_buf (c_unpac ?c)"
    using inv by (auto simp: sys_inv_def client_stands_def)
  obtain as ps where h: "sendable mp (map snd as)"
      "mset (map r_id (answers_for k ps)) \<subseteq># mset (call_ids mp (sent_objs mp ?c))"
      "prefix (sent_down y k) (stream mp (map response_obj (answers_for k ps)))" "mset ps \<subseteq># mset as"
    using explained_now [OF laws ok assms(5) inv] by blast
  have packed: "\<forall>r \<in> set (answers_for k ps). packable (response_obj r)"
    using answers_for_sendable [OF h(1), of k] answers_for_some [OF h(4), of k] by (auto simp: sendable_def)
  obtain unread where "y_down y k @ bs @ unread = stream mp (map response_obj (answers_for k ps))"
    using prefix_order.trans [OF allowed h(3)] by (auto simp: prefix_def)
  then have str: "stream mp (map response_obj rs0) @ u_buf (c_unpac ?c) @ bs @ unread =
      stream mp (map response_obj (answers_for k ps))"
    by (simp add: own0(3))
  have "\<forall>ob \<in> set (map response_obj rs0) \<union> set (map response_obj (answers_for k ps)). packable ob"
    using own0(2) packed by auto
  from stream_prefix_unique [OF laws(1) this str] obtain zs where
      zs: "map response_obj (answers_for k ps) = map response_obj rs0 @ zs"
        "u_buf (c_unpac ?c) @ bs @ unread = stream mp zs"
    by blast
  then obtain rs news where split: "answers_for k ps = rs @ news" "map response_obj rs = map response_obj rs0"
      "map response_obj news = zs"
    by (auto simp: map_eq_append_conv)
  have own: "answers_own mp (calls_of k es) (notes_of k es) rs ?c"
    using answers_own_same [OF own0(1)] split(2) by simp
  have p: "requests_packable (calls_of k es)" "requests_packable (notes_of k es)" "length (calls_of k es) < 2 ^ 32"
    using ok by (simp_all add: requests_ok_def)
  have due: "due (calls_of k es) rs ?c news"
    using answers_due [OF laws(1,2) own p(3,1,2)] h(2) split(1) by simp
  have bytes: "u_buf (c_unpac ?c) @ bs @ unread = stream mp (map response_obj news)" using zs(2) split(3) by simp
  have news: "\<forall>r \<in> set news. packable (response_obj r)" using packed split(1) by simp
  from own_read [OF laws own due p(3) news bytes] obtain c ds es' where step: "client_on_read mp (ReadOk bs) ?c = Inr c"
      "news = ds @ es'" "u_buf (c_unpac c) @ unread = stream mp (map response_obj es')"
      "answers_own mp (calls_of k es) (notes_of k es) (rs @ ds) c"
    by blast
  have "(y_down y k @ bs) @ unread = (stream mp (map response_obj (rs @ ds)) @ u_buf (c_unpac c)) @ unread"
    using bytes step(2,3) split(2) own0(3) by simp
  then have "y_down y k @ bs = stream mp (map response_obj (rs @ ds)) @ u_buf (c_unpac c)"
    by (simp only: append_same_eq)
  moreover have "\<forall>r \<in> set (rs @ ds). packable (response_obj r)" using packed split(1) step(2) by auto
  ultimately show ?thesis using step(1,4) by (intro exI [of _ c] exI [of _ "rs @ ds"] conjI)
qed

lemma client_standsI:
  assumes "client_stands mp es y k rs" and "calls_of k es' = calls_of k es" and "notes_of k es' = notes_of k es"
    and "y_clients y' k = y_clients y k" and "y_down y' k = y_down y k"
  shows "client_stands mp es' y' k rs"
  using assms by (simp add: client_stands_def)

text \<open>A client's own event.\<close>

lemma client_moves:
  assumes laws: "codec_laws mp" "view_laws mp" "buffer_laws mp" and ok: "requests_ok mp d P (es @ [AtClient k ce])"
    and "P w" and inv: "sys_inv mp d suppress w es y" and allowed: "network_allows y (AtClient k ce)"
    and step: "client_step mp recon (y_clients y k) ce = Inr c"
    and y': "y' = y\<lparr>y_clients := (y_clients y)(k := c), y_down := (y_down y)(k := y_down y k @ bytes_got (y_clients y k) ce)\<rparr>"
  shows "sys_inv mp d suppress w (es @ [AtClient k ce]) y'"
proof -
  let ?es = "es @ [AtClient k ce]"
  note okp = requests_ok_prefix [OF ok]
  have net: "prefix (y_down y k @ bytes_got (y_clients y k) ce) (sent_down y k)"
    using allowed by (simp add: network_allows_def)
  have "\<exists>rs. client_stands mp ?es y' k rs"
  proof (cases "\<exists>bs. ce = ClientRead (ReadOk bs) \<and> c_reading (y_clients y k)")
    case True
    then obtain bs where bs: "ce = ClientRead (ReadOk bs)" "c_reading (y_clients y k)" by blast
    have "prefix (y_down y k @ bs) (sent_down y k)" using net bs by (simp add: bytes_got_def)
    from client_reads_answers [OF laws okp assms(5) inv this] obtain c1 rs where
        c1: "client_on_read mp (ReadOk bs) (y_clients y k) = Inr c1"
          "answers_own mp (calls_of k es) (notes_of k es) rs c1" "\<forall>r \<in> set rs. packable (response_obj r)"
          "y_down y k @ bs = stream mp (map response_obj rs) @ u_buf (c_unpac c1)"
      by blast
    have "c1 = c" using step bs c1(1) by (simp add: client_step_def)
    with c1 bs show ?thesis
      by (intro exI [of _ rs])
        (simp add: client_stands_def y' calls_in_def notes_in_def bytes_got_def)
  next
    case False
    then have none_got: "bytes_got (y_clients y k) ce = []"
      by (auto simp: bytes_got_def split: client_event.splits read_result.splits)
    obtain rs where rs: "client_stands mp es y k rs" using inv by (auto simp: sys_inv_def)
    have "length (calls_of k es @ calls_in ce) < 2 ^ 32"
      using ok unfolding requests_ok_def by (auto dest!: spec [of _ k])
    moreover have "answers_own mp (calls_of k es) (notes_of k es) rs (y_clients y k)"
      using rs by (simp add: client_stands_def)
    moreover have "\<forall>bs. ce = ClientRead (ReadOk bs) \<longrightarrow> \<not> c_reading (y_clients y k)" using False by blast
    ultimately have "answers_own mp (calls_of k ?es) (notes_of k ?es) rs c"
        "u_buf (c_unpac c) = u_buf (c_unpac (y_clients y k))"
      using own_quiet [OF laws(3) _ _ step] by simp_all
    with rs show ?thesis
      by (intro exI [of _ rs]) (simp add: client_stands_def y' none_got)
  qed
  moreover have "\<exists>rs. client_stands mp ?es y' j rs" if "j \<noteq> k" for j
  proof -
    obtain rs where "client_stands mp es y j rs" using inv by (auto simp: sys_inv_def)
    from client_standsI [OF this, of ?es y'] that show ?thesis by (auto simp: y')
  qed
  ultimately have stands: "\<forall>j. \<exists>rs. client_stands mp ?es y' j rs" by metis
  have up: "prefix (sent_up y j) (sent_up y' j)" for j
    using client_step_wire [OF step] by (simp add: sent_up_def y' grows_def)
  have "sent_down y' j = sent_down y j" for j by (simp add: sent_down_def y')
  moreover have "y_server y' = y_server y" "y_up y' = y_up y" by (simp_all add: y')
  moreover have "prefix (y_down y' j) (sent_down y j)" for j
    using inv net by (simp add: y' sys_inv_def server_ran_def)
  moreover have "prefix (y_up y j) (sent_up y' j)" for j
    using inv prefix_order.trans [OF _ up] by (auto simp: sys_inv_def server_ran_def)
  moreover have "server_ran mp d suppress w ?es y"
    using inv server_ran_more by (auto simp: sys_inv_def)
  ultimately have "server_ran mp d suppress w ?es y'" by (simp add: server_ran_def)
  with stands show ?thesis by (simp add: sys_inv_def)
qed

text \<open>An event of the server.\<close>

lemma server_moves:
  assumes inv: "sys_inv mp d suppress w es y" and allowed: "network_allows y (AtServer se)"
    and step: "par_step mp (y_server y) se = Inr v"
    and y': "y' = y\<lparr>y_server := v, y_up := (\<lambda>k. y_up y k @ par_reads k (y_server y) se)\<rparr>"
  shows "sys_inv mp d suppress w (es @ [AtServer se]) y'"
proof -
  let ?start = "Inr (all_idle (serving_with d suppress w))"
  obtain ses where ses: "run_events (par_machine mp) ?start ses = Inr (y_server y)"
      "\<forall>k. collected (par_step mp) (par_reads k) ?start ses = y_up y k" "AtServer ` set ses \<subseteq> set es"
    using inv by (auto simp: sys_inv_def server_ran_def)
  have "run_events (par_machine mp) ?start (ses @ [se]) = Inr (y_server y')"
    by (simp add: ses(1) step y')
  moreover have "\<forall>k. collected (par_step mp) (par_reads k) ?start (ses @ [se]) = y_up y' k"
    using ses by (simp add: collected_append y')
  moreover have "prefix (y_up y' k) (sent_up y' k)" for k
  proof (cases "\<exists>t bs. se = ReadChunk t k bs")
    case True
    with allowed show ?thesis by (auto simp: network_allows_def y' sent_up_def)
  next
    case False
    then have "par_reads k (y_server y) se = []" by (auto simp: par_reads_def split: par_event.splits)
    with inv show ?thesis by (simp add: y' sys_inv_def server_ran_def sent_up_def)
  qed
  moreover have "prefix (y_down y' k) (sent_down y' k)" for k
    using inv prefix_order.trans [OF _ sent_down_grows [OF step]] by (auto simp: y' sys_inv_def server_ran_def)
  moreover have "AtServer ` set (ses @ [se]) \<subseteq> set (es @ [AtServer se])" using ses(3) by auto
  ultimately have "server_ran mp d suppress w (es @ [AtServer se]) y'" unfolding server_ran_def by blast
  moreover have "\<exists>rs. client_stands mp (es @ [AtServer se]) y' k rs" for k
  proof -
    obtain rs where "client_stands mp es y k rs" using inv by (auto simp: sys_inv_def)
    from client_standsI [OF this, of "es @ [AtServer se]" y'] show ?thesis by (auto simp: y')
  qed
  ultimately show ?thesis by (simp add: sys_inv_def)
qed

text \<open>A read of what has not been sent does not happen.\<close>

lemma refused_requests:
  assumes inv: "sys_inv mp d suppress w es y" and "\<not> network_allows y e"
  shows "calls_of k [e] = [] \<and> notes_of k [e] = []"
proof (cases e)
  case (AtClient j ce)
  have "prefix (y_down y j) (sent_down y j)" using inv by (simp add: sys_inv_def server_ran_def)
  with assms(2) AtClient have "bytes_got (y_clients y j) ce \<noteq> []" by (auto simp: network_allows_def)
  then show ?thesis
    by (auto simp: AtClient bytes_got_def calls_in_def notes_in_def split: client_event.splits)
qed simp

lemma refused_read:
  assumes inv: "sys_inv mp d suppress w es y" and "\<not> network_allows y e"
  shows "sys_inv mp d suppress w (es @ [e]) y"
proof -
  have same: "calls_of k (es @ [e]) = calls_of k es" "notes_of k (es @ [e]) = notes_of k es" for k
    using refused_requests [OF assms] by (simp_all only: requests_simps append_Nil2)
  have "server_ran mp d suppress w (es @ [e]) y"
    using inv server_ran_more by (auto simp: sys_inv_def)
  with inv show ?thesis unfolding sys_inv_def client_stands_def same by blast
qed

lemma sys_step_inv:
  assumes laws: "codec_laws mp" "view_laws mp" "buffer_laws mp" and ok: "requests_ok mp d P (es @ [e])" and "P w"
    and inv: "sys_inv mp d suppress w es y" and step: "sys_step mp recon y e = Inr y'"
  shows "sys_inv mp d suppress w (es @ [e]) y'"
proof (cases "network_allows y e")
  case False
  with step have "y' = y" by (simp add: sys_step_def)
  with refused_read [OF inv False] show ?thesis by simp
next
  case True
  show ?thesis
  proof (cases e)
    case (AtClient k ce)
    from step True AtClient obtain c where c: "client_step mp recon (y_clients y k) ce = Inr c"
        "y' = y\<lparr>y_clients := (y_clients y)(k := c), y_down := (y_down y)(k := y_down y k @ bytes_got (y_clients y k) ce)\<rparr>"
      by (auto simp: sys_step_def split: sum.splits)
    from client_moves [OF laws ok [unfolded AtClient] assms(5) inv True [unfolded AtClient] c] AtClient
    show ?thesis by simp
  next
    case (AtServer se)
    from step True AtServer obtain v where v: "par_step mp (y_server y) se = Inr v"
        "y' = y\<lparr>y_server := v, y_up := (\<lambda>k. y_up y k @ par_reads k (y_server y) se)\<rparr>"
      by (auto simp: sys_step_def split: sum.splits)
    from server_moves [OF inv True [unfolded AtServer] v] AtServer show ?thesis by simp
  qed
qed

lemma sys_run_inv:
  assumes laws: "codec_laws mp" "view_laws mp" "buffer_laws mp" and "P w"
  shows "requests_ok mp d P es \<Longrightarrow>
     run_events (sys_machine mp recon) (Inr (sys_init mp d suppress w r)) es = Inr y \<Longrightarrow> sys_inv mp d suppress w es y"
proof (induction es arbitrary: y rule: rev_induct)
  case Nil
  then show ?case using sys_inv_init by auto
next
  case (snoc e es)
  from snoc.prems(2) obtain y0 where y0: "run_events (sys_machine mp recon) (Inr (sys_init mp d suppress w r)) es = Inr y0"
      "sys_step mp recon y0 e = Inr y"
    by (cases "run_events (sys_machine mp recon) (Inr (sys_init mp d suppress w r)) es") auto
  from sys_step_inv [OF laws snoc.prems(1) assms(4) snoc.IH [OF requests_ok_prefix [OF snoc.prems(1)] y0(1)] y0(2)]
  show ?case .
qed

subsection \<open>Every answer is the answer to its own call\<close>

text \<open>In the sequence \<open>hist\<close>, request \<open>m\<close> of session \<open>k\<close> was served once the requests before it had
  been, and its response was \<open>r\<close>.\<close>

definition answered_with ::
  "msgpack \<Rightarrow> 'w dispatcher \<Rightarrow> 'w \<Rightarrow> served list \<Rightarrow> nat \<Rightarrow> mobj \<Rightarrow> response \<Rightarrow> bool" where
  "answered_with mp d w hist k m r \<longleftrightarrow> (\<exists>before p after as w1 ts c. hist = before @ (k, p, m) # after \<and>
     serve_all mp d before w = (as, Some w1) \<and>
     process_request mp d p (of_nat k) m (fresh_ctx w1) = (Inr ts, c) \<and> responses_in ts = [r])"

lemma answered_with_request: "answered_with mp d w hist k m r \<Longrightarrow> m \<in> set (requests_of k hist)"
  by (auto simp: answered_with_def)

lemma answered_with_id:
  assumes "answered_with mp d w hist k m r"
  shows "r_id r \<in> set (call_id mp m)"
proof -
  obtain p ts w1 c where "process_request mp d p (of_nat k) m (fresh_ctx w1) = (Inr ts, c)" "responses_in ts = [r]"
    using assms by (auto simp: answered_with_def)
  with process_answers_call [OF this(1)] show ?thesis by simp
qed

lemma call_id_one: "length (call_id mp m) \<le> 1"
  by (simp add: call_id_def split: option.splits)

lemma answer_origin:
  "serve_all mp d hist w = (as, Some w') \<Longrightarrow> r \<in> set (answers_for k as) \<Longrightarrow> \<exists>m. answered_with mp d w hist k m r"
proof (induction hist arbitrary: w as)
  case (Cons h hist)
  obtain j p m where h: "h = (j, p, m)" by (cases h)
  obtain ts c bs where step: "process_request mp d p (of_nat j) m (fresh_ctx w) = (Inr ts, c)"
      "serve_all mp d hist (world c) = (bs, Some w')" "as = map (Pair j) (responses_in ts) @ bs"
    using Cons.prems(1) by (auto simp: h split: prod.splits sum.splits)
  show ?case
  proof (cases "r \<in> set (answers_for k bs)")
    case True
    from Cons.IH [OF step(2) this] obtain m' before q after as' w1 ts' c' where
        rest: "hist = before @ (k, q, m') # after" "serve_all mp d before (world c) = (as', Some w1)"
          "process_request mp d q (of_nat k) m' (fresh_ctx w1) = (Inr ts', c')" "responses_in ts' = [r]"
      unfolding answered_with_def by blast
    have "serve_all mp d (h # before) w = (map (Pair j) (responses_in ts) @ as', Some w1)"
      using step(1) rest(2) by (simp add: h)
    with rest show ?thesis
      unfolding answered_with_def by (metis append_Cons)
  next
    case False
    then have here: "j = k" "r \<in> set (responses_in ts)"
      using Cons.prems(2) by (auto simp: step(3) split: if_splits)
    have "length (map r_id (responses_in ts)) \<le> 1"
      using size_mset_mono [OF process_answers_call [OF step(1)]] call_id_one [of mp m] by simp
    then have one: "responses_in ts = [r]" using here(2) by (cases "responses_in ts") auto
    have "h # hist = [] @ (k, p, m) # hist" "serve_all mp d [] w = ([], Some w)" by (simp_all add: h here(1))
    with step(1) one here(1) show ?thesis unfolding answered_with_def by blast
  qed
qed simp

text \<open>The call that an id belongs to.\<close>

lemma made_call_id:
  assumes "view_laws mp" and "length calls < 2 ^ 32" and "p < length calls"
    and "m \<in> set (made_objs calls notes)" and "id_of p \<in> set (call_id mp m)"
  shows "m = nth_call calls p"
proof -
  obtain q where q: "q < length calls" "m = nth_call calls q"
    using assms(4,5) by (auto simp: made_objs_def call_id_made [OF assms(1)])
  then have "id_of p = id_of q" using assms(5) by (simp add: nth_call_def call_id_made [OF assms(1)])
  with id_of_inject [OF assms(3) q(1) assms(2)] q(2) show ?thesis by simp
qed

lemma future_answered:
  assumes laws: "codec_laws mp" "view_laws mp" "buffer_laws mp" and ok: "requests_ok mp d P es"
    and inv: "sys_inv mp d suppress w es y"
    and served: "serve_all mp d hist w = (as, Some w')" "sendable mp (map snd as)"
      "mset ps \<subseteq># mset as"
      "mset (requests_of k hist) \<subseteq># mset (made_objs (calls_of k es) (notes_of k es))"
      "prefix (sent_down y k) (stream mp (map response_obj (answers_for k ps)))"
    and p: "p < length (calls_of k es)"
  shows "c_futures (y_clients y k) ! p = Pending \<or>
     (\<exists>r. answered_with mp d w hist k (nth_call (calls_of k es) p) r \<and>
        c_futures (y_clients y k) ! p = outcome (fst (calls_of k es ! p)) (received r))"
proof -
  let ?c = "y_clients y k" and ?calls = "calls_of k es"
  obtain rs where own: "answers_own mp ?calls (notes_of k es) rs ?c" "\<forall>r \<in> set rs. packable (response_obj r)"
      "y_down y k = stream mp (map response_obj rs) @ u_buf (c_unpac ?c)"
    using inv by (auto simp: sys_inv_def client_stands_def)
  have "prefix (y_down y k) (stream mp (map response_obj (answers_for k ps)))"
    using inv prefix_order.trans [OF _ served(5)] by (auto simp: sys_inv_def server_ran_def)
  then obtain bs where bs: "stream mp (map response_obj rs) @ u_buf (c_unpac ?c) @ bs =
      stream mp (map response_obj (answers_for k ps))"
    by (auto simp: own(3) prefix_def)
  have "\<forall>r \<in> set (answers_for k ps). packable (response_obj r)"
    using answers_for_sendable [OF served(2), of k] answers_for_some [OF served(3), of k]
    by (auto simp: sendable_def)
  then have "\<forall>ob \<in> set (map response_obj rs) \<union> set (map response_obj (answers_for k ps)). packable ob"
    using own(2) by auto
  from stream_prefix_unique [OF laws(1) this bs] obtain zs where
      zs: "map response_obj (answers_for k ps) = map response_obj rs @ zs"
    by blast
  have few: "length ?calls < 2 ^ 32" using ok by (simp add: requests_ok_def)
  have "\<exists>r'. answered_with mp d w hist k (nth_call ?calls p) r' \<and> received r' = received r"
    if "r \<in> set rs" "r_id r = id_of p" for r
  proof -
    have "response_obj r \<in> set (map response_obj (answers_for k ps))" using that(1) by (simp add: zs)
    then obtain r' where r': "r' \<in> set (answers_for k ps)" "response_obj r' = response_obj r" by auto
    from answer_origin [OF served(1)] r'(1) answers_for_some [OF served(3), of k] obtain m where m: "answered_with mp d w hist k m r'"
      by blast
    have "m \<in> set (made_objs ?calls (notes_of k es))"
      using answered_with_request [OF m] served(4) by (metis mset_subset_eqD set_mset_mset)
    moreover have "id_of p \<in> set (call_id mp m)"
      using answered_with_id [OF m] response_obj_same(1) [OF r'(2)] that(2) by simp
    ultimately have "m = nth_call ?calls p" by (rule made_call_id [OF laws(2) few p])
    with m response_obj_same(2) [OF r'(2)] show ?thesis by blast
  qed
  with answers_own_keys(3) [OF own(1) p] show ?thesis
    by (fastforce simp: call_state_def Let_def split: if_splits)
qed

text \<open>C1. Clients, network and server together. In any run of any number of clients against one
  server, whatever the interleaving of the clients' handlers and of the steps of the handlers on the server's
  worker threads, there is one
  sequence of requests in which the server has served what the clients asked for, each request at
  most once; and the future of every call that a client has made either is still pending, or holds
  what the bound function's answer to that very call, at its place in the sequence, comes to: the
  value it returned, or the exception that reports its error. No client ever gets the answer to a
  call of another client or to another call of its own.\<close>

theorem every_future_answered:
  assumes "codec_laws mp" and "view_laws mp" and "buffer_laws mp" and "requests_ok mp d P es" and "P w"
    and "run_events (sys_machine mp recon) (Inr (sys_init mp d suppress w r)) es = Inr y"
  shows "\<exists>hist as. serve_all mp d hist w = (as, Some (sv_world (p_srv (y_server y)))) \<and>
     (\<forall>k. mset (requests_of k hist) \<subseteq># mset (made_objs (calls_of k es) (notes_of k es)) \<and>
        length (c_futures (y_clients y k)) = length (calls_of k es) \<and>
        (\<forall>p < length (calls_of k es). c_futures (y_clients y k) ! p = Pending \<or>
           (\<exists>r. answered_with mp d w hist k (nth_call (calls_of k es) p) r \<and>
              c_futures (y_clients y k) ! p = outcome (fst (calls_of k es ! p)) (received r))))"
proof -
  note inv = sys_run_inv [OF assms(1-3,5,4,6)]
  from explained_now [OF assms(1-5) inv] obtain hist as ps where
      h: "serve_all mp d hist w = (as, Some (sv_world (p_srv (y_server y))))" "sendable mp (map snd as)"
        "mset ps \<subseteq># mset as"
        "\<And>k. mset (requests_of k hist) \<subseteq># mset (sent_objs mp (y_clients y k))"
        "\<And>k. prefix (sent_down y k) (stream mp (map response_obj (answers_for k ps)))"
    by blast
  have made: "mset (requests_of k hist) \<subseteq># mset (made_objs (calls_of k es) (notes_of k es))" for k
    using h(4) sent_now(2) [OF assms(1,4) inv] by (rule subset_mset.order_trans)
  have len: "length (c_futures (y_clients y k)) = length (calls_of k es)" for k
    using inv by (auto simp: sys_inv_def client_stands_def answers_own_def)
  note answered = future_answered [OF assms(1-4) inv h(1-3) made h(5)]
  show ?thesis
    by (intro exI [of _ hist] exI [of _ as] conjI allI impI h(1) made len answered)
qed

end
