(* ===== verification/SystemRuns.thy ===== *)
theory SystemRuns
  imports System
begin

section \<open>Runs of the whole system\<close>

text \<open>
  That the machine of \<open>System\<close> never gets stuck as long as no connection is given up or broken,
  and a run of two clients against one server, for the witnesses.
\<close>

subsection \<open>Nothing crashes\<close>

text \<open>
  No client is left without a connection: a failed attempt to connect is tried again, no write
  finds a broken pipe, and the server is not told to let exceptions through.
\<close>

definition kept_up :: "('r \<Rightarrow> bool \<times> 'r) \<Rightarrow> sys_event \<Rightarrow> bool" where
  "kept_up recon e = (case e of
       AtClient k (ConnectDone (ConnError code what_text)) \<Rightarrow> \<forall>r. fst (recon r)
     | AtClient k (ClientWrote BrokenPipe) \<Rightarrow> False
     | AtServer (Whole (SuppressCalled b)) \<Rightarrow> b
     | _ \<Rightarrow> True)"

lemma client_step_keeps_inv:
  assumes "codec_laws mp" and "buffer_laws mp" and "client_inv c" and "client_step mp recon c e = Inr c'"
  shows "client_inv c'"
proof -
  have "client_good mp (Inr c)" using assms(3) by (simp add: client_good_def)
  from client_safe.step_keeps [OF this, of recon e] assms show ?thesis by (simp add: client_good_def)
qed

lemma sys_run_clients:
  assumes "codec_laws mp" and "buffer_laws mp"
  shows "run_events (sys_machine mp recon) (Inr (sys_init mp d suppress w r)) es = Inr y \<Longrightarrow> client_inv (y_clients y k)"
proof (induction es arbitrary: y rule: rev_induct)
  case Nil
  then show ?case using client_new_inv [OF assms(2)] by (auto simp: sys_init_def)
next
  case (snoc e es)
  from snoc.prems obtain y0 where y0: "run_events (sys_machine mp recon) (Inr (sys_init mp d suppress w r)) es = Inr y0"
      "sys_step mp recon y0 e = Inr y"
    by (cases "run_events (sys_machine mp recon) (Inr (sys_init mp d suppress w r)) es") auto
  from snoc.IH [OF y0(1)] y0(2) client_step_keeps_inv [OF assms] show ?case
    by (auto simp: sys_step_def split: if_splits sys_event.splits sum.splits)
qed

lemma client_quiet_total:
  assumes inv: "client_inv c" and "kept_up recon (AtClient k e)"
    and "\<forall>bs. e = ClientRead (ReadOk bs) \<longrightarrow> \<not> c_reading c"
  shows "\<exists>c'. client_step mp recon c e = Inr c'"
proof (cases e)
  case (ConnectDone cr)
  show ?thesis
  proof (cases cr)
    case ConnOk
    have "c_connecting c \<Longrightarrow> max_read_bytes \<le> u_cap (c_unpac c)" using inv by (simp add: client_inv_def)
    with ConnOk ConnectDone show ?thesis
      by (auto simp: client_step_def client_on_connect_def client_do_read_def start_read_def client_post_def
          Let_def)
  next
    case (ConnError code what_text)
    with ConnectDone assms(2) have "fst (recon (c_reconn c))" by (simp add: kept_up_def)
    then obtain r where "recon (c_reconn c) = (True, r)" by (cases "recon (c_reconn c)") auto
    with ConnError ConnectDone show ?thesis by (simp add: client_step_def client_on_connect_def)
  qed
next
  case (ClientRead rr)
  with assms(3) show ?thesis by (cases rr) (auto simp: client_step_def client_on_read_def)
next
  case ClientStrand
  with run_strand_client_inv [OF inv] show ?thesis by (auto simp: client_step_def)
next
  case (ClientWrote ec)
  have "writer_inv (c_writer c)" using inv by (simp add: client_inv_def)
  then have "\<exists>w. complete mp ec (c_writer c) = Inr w" if "ec \<noteq> BrokenPipe"
    using that by (cases ec) (auto simp: complete_def on_write_def pop_and_continue_def do_write_def
        writer_inv_def Let_def split: option.splits list.splits)
  with ClientWrote assms(2) show ?thesis
    by (cases ec) (auto simp: client_step_def client_on_write_def kept_up_def)
qed (simp_all add: client_step_def)

lemma made_well_formed:
  assumes "view_laws mp" and "requests_packable calls" and "requests_packable notes"
  shows "well_formed_requests mp (made_objs calls notes)"
proof -
  have "mp_as_call mp m \<noteq> None \<or> mp_array_size mp m \<noteq> 4" "mp_as_notification mp m \<noteq> None \<or> mp_array_size mp m \<noteq> 3"
    if "m \<in> set (made_objs calls notes)" for m
    using that assms(1) by (auto simp: made_objs_def nth_call_def)
  with made_packable [OF assms(2,3)] show ?thesis unfolding well_formed_requests_def by blast
qed

text \<open>The next event of the server, and the next event of a client.\<close>

lemma server_next:
  assumes laws: "codec_laws mp" "view_laws mp" "buffer_laws mp" and ok: "requests_ok mp d P es" and "P w"
    and inv: "sys_inv mp d True w es y" and kept: "\<forall>e \<in> set es \<union> {AtServer se}. kept_up recon e"
    and allowed: "network_allows y (AtServer se)"
  shows "\<exists>v. par_step mp (y_server y) se = Inr v"
proof -
  let ?start = "Inr (all_idle (serving_with d True w))" and ?obs = "\<lambda>k. sent_objs mp (y_clients y k)"
  obtain ses where ses: "run_events (par_machine mp) ?start ses = Inr (y_server y)"
      "\<forall>k. collected (par_step mp) (par_reads k) ?start ses = y_up y k" "AtServer ` set ses \<subseteq> set es" "\<forall>k. prefix (y_up y k) (sent_up y k)"
    using inv by (auto simp: sys_inv_def server_ran_def)
  have well: "\<forall>k. well_formed_requests mp (?obs k)"
  proof
    fix k
    have "well_formed_requests mp (made_objs (calls_of k es) (notes_of k es))"
      using ok by (intro made_well_formed [OF laws(2)]) (simp_all add: requests_ok_def)
    with sent_now(3) [OF laws(1) ok inv, of k] show "well_formed_requests mp (?obs k)"
      by (auto simp: well_formed_requests_def)
  qed
  have "answers_fit mp d P (\<lambda>k. made_objs (calls_of k es) (notes_of k es))" using ok by (simp add: requests_ok_def)
  then have fit: "answers_fit mp d P ?obs"
    by (rule answers_fit_mono) (rule sent_now(3) [OF laws(1) ok inv])
  have given: "\<forall>k. prefix (collected (par_step mp) (par_reads k) ?start (ses @ [se])) (stream mp (?obs k))"
  proof
    fix k
    have "prefix (y_up y k @ par_reads k (y_server y) se) (sent_up y k)"
    proof (cases "\<exists>t bs. se = ReadChunk t k bs")
      case True
      with allowed show ?thesis by (auto simp: network_allows_def)
    next
      case False
      then have "par_reads k (y_server y) se = []" by (auto simp: par_reads_def split: par_event.splits)
      with ses(4) show ?thesis by simp
    qed
    then show "prefix (collected (par_step mp) (par_reads k) ?start (ses @ [se])) (stream mp (?obs k))"
      using ses(1,2) sent_now(1) [OF laws(1) ok inv, of k] by (simp add: collected_append)
  qed
  have "AtServer (Whole (SuppressCalled False)) \<notin> set es \<union> {AtServer se}" using kept by (auto simp: kept_up_def)
  then have "Whole (SuppressCalled False) \<notin> set (ses @ [se])" using ses(3) by auto
  from workers_total [OF laws well fit assms(5) given this] obtain v where
      "run_events (par_machine mp) ?start (ses @ [se]) = Inr v" by blast
  then show ?thesis by (simp add: ses(1))
qed

lemma client_next:
  assumes laws: "codec_laws mp" "view_laws mp" "buffer_laws mp" and ok: "requests_ok mp d P es" and "P w"
    and inv: "sys_inv mp d suppress w es y" and "kept_up recon (AtClient k ce)" and "client_inv (y_clients y k)"
    and allowed: "network_allows y (AtClient k ce)"
  shows "\<exists>c. client_step mp recon (y_clients y k) ce = Inr c"
proof (cases "\<exists>bs. ce = ClientRead (ReadOk bs) \<and> c_reading (y_clients y k)")
  case True
  then obtain bs where bs: "ce = ClientRead (ReadOk bs)" "c_reading (y_clients y k)" by blast
  then have "prefix (y_down y k @ bs) (sent_down y k)"
    using allowed by (simp add: network_allows_def bytes_got_def)
  from client_reads_answers [OF laws ok assms(5) inv this] bs show ?thesis by (auto simp: client_step_def)
next
  case False
  then show ?thesis using client_quiet_total [OF assms(8,7)] by blast
qed


subsection \<open>Two clients\<close>

text \<open>For the witnesses: two clients call the bound addition under the same id; both are served at the
  same time, and the second one is dispatched first.\<close>

definition sample_call_bytes :: "int \<Rightarrow> int \<Rightarrow> bytes" where
  "sample_call_bytes a b = mp_pack ref_msgpack (call_obj 1 ''add'' [MInt a, MInt b])"

definition sample_answer_bytes :: "int \<Rightarrow> bytes" where
  "sample_answer_bytes n = response_data ref_msgpack (make_result_handle 1 (MInt n))"

definition sample_asking :: "sys_event list" where
  "sample_asking = map (AtServer \<circ> Whole) [AsyncRun 2, Enter 1, Enter 2] @
     [AtClient 0 (AppCall ''add'' [MInt 2, MInt 3]), AtClient 1 (AppCall ''add'' [MInt 4, MInt 5]),
      AtClient 0 (ConnectDone ConnOk), AtClient 1 (ConnectDone ConnOk),
      AtServer (Whole (AcceptDone 1 True)), AtServer (Whole (AcceptDone 2 True)),
      AtClient 1 ClientStrand, AtClient 0 ClientStrand, AtClient 0 (ClientWrote WriteOk), AtClient 1 (ClientWrote WriteOk)]"

definition sample_serving :: "sys_event list" where
  "sample_serving = map AtServer [ReadChunk 1 0 (sample_call_bytes 2 3), ReadChunk 2 1 (sample_call_bytes 4 5),
     Advance 1, Advance 2, Advance 2, Advance 1, Advance 1, Advance 2,
     TakeJob 1 0 0, TakeJob 2 1 0, Advance 2, Advance 1, Advance 1, Advance 1, Advance 2, Advance 2,
     Whole (SessionStep 1 1 Strand), Whole (SessionStep 2 1 (Wrote WriteOk)), Whole (SessionStep 2 0 Strand),
     Whole (SessionStep 1 0 (Wrote WriteOk))]"

definition sample_reading :: "sys_event list" where
  "sample_reading = [AtClient 0 (ClientRead (ReadOk (sample_answer_bytes 5))),
     AtClient 1 (ClientRead (ReadOk (sample_answer_bytes 9))), AtClient 0 ClientStrand, AtClient 0 ClientStrand,
     AtClient 1 ClientStrand, AtClient 1 ClientStrand]"

definition sample_system :: "sys_event list" where
  "sample_system = sample_asking @ sample_serving @ sample_reading"

lemma sample_add_other [simp]:
  "bound_args ref_msgpack sample_add (MArray [MInt 4, MInt 5]) = Some [MInt 4, MInt 5]"
  "fn_body sample_add [MInt 4, MInt 5] c = (Inr (MInt 9), c\<lparr>world := world c @ [[MInt 4, MInt 5]]\<rparr>)"
  by (simp_all add: bound_arity_def bound_args_def sample_add_def decay_def ref_msgpack_simps ref_as_args_def
      ref_conforms_def as_int_def)

lemmas sample_answer_simps =
  dispatch_call_obj bound_call_def answer_tasks_def captured_def reset_ctx_eq fresh_ctx_def stopping_def is_empty_def

lemma sample_system_served:
  "process_request ref_msgpack sample_disp p i (call_obj 1 ''add'' [MInt 2, MInt 3]) c =
     (Inr [WriteResponse (make_result_handle 1 (MInt 5))],
      (reset_ctx i c)\<lparr>world := world c @ [[MInt 2, MInt 3]]\<rparr>)"
  "process_request ref_msgpack sample_disp p i (call_obj 1 ''add'' [MInt 4, MInt 5]) c =
     (Inr [WriteResponse (make_result_handle 1 (MInt 9))],
      (reset_ctx i c)\<lparr>world := world c @ [[MInt 4, MInt 5]]\<rparr>)"
  by (simp_all add: process_request_def sample_answer_simps)

lemmas sample_system_simps =
  sys_init_def sys_step_def network_allows_def bytes_got_def par_reads_def client_step_def par_defs client_defs
  sent_up_def sent_down_def event_bytes_def

lemma sample_system_run:
  "\<exists>y. run_events (sys_machine ref_msgpack default_reconnectable) (Inr (sys_init ref_msgpack sample_disp True [] 0))
      sample_system = Inr y \<and>
     c_futures (y_clients y 0) = [HasValue (MInt 5)] \<and> c_futures (y_clients y 1) = [HasValue (MInt 9)] \<and>
     sv_world (p_srv (y_server y)) = [[MInt 4, MInt 5], [MInt 2, MInt 3]] \<and> connection_rests y 1"
proof -
  have sizes: "\<exists>m. length (mp_pack ref_msgpack ob) = Suc m" if "packable ob" for ob
    using pack_nonempty [OF ref_codec_laws that] by (cases "mp_pack ref_msgpack ob") auto
  define r where "r n = \<lparr>r_id = 1, r_error = None, r_result = Some (MInt n), r_empty = False\<rparr>" for n
  have objs: "packable (call_obj 1 ''add'' [MInt 2, MInt 3])" "packable (call_obj 1 ''add'' [MInt 4, MInt 5])"
    "packable (response_obj (r 5))" "packable (response_obj (r 9))"
    by (simp_all add: packable_call_def packable_response_obj r_def)
  obtain m n k l where lens: "length (mp_pack ref_msgpack (call_obj 1 ''add'' [MInt 2, MInt 3])) = Suc m"
      "length (mp_pack ref_msgpack (call_obj 1 ''add'' [MInt 4, MInt 5])) = Suc n"
      "length (mp_pack ref_msgpack (response_obj (r 5))) = Suc k"
      "length (mp_pack ref_msgpack (response_obj (r 9))) = Suc l"
    using sizes [OF objs(1)] sizes [OF objs(2)] sizes [OF objs(3)] sizes [OF objs(4)] by auto
  note nonempty = objs [THEN pack_nonempty [OF ref_codec_laws]]
  show ?thesis
    by (simp add: sample_system_def sample_asking_def sample_serving_def sample_reading_def sample_call_bytes_def
        sample_answer_bytes_def sample_system_simps sample_server_simps unpacker_next_def Client_new_def
        lens [unfolded r_def] nonempty [unfolded r_def] ref_runs packable_call_def packable_response_obj
        Response_of_obj [OF ref_view_laws] handle_response_def current_call_def settle_call_def settle_def
        session_on_read_def client_on_read_def client_fuel_def sample_answer_simps
        post_tasks_def response_data_def connection_rests_def all_free_def
        less_Suc_eq)
qed

lemma sample_system_ok:
  "requests_ok ref_msgpack sample_disp (\<lambda>w. True) sample_system"
proof -
  let ?es = sample_system
  have calls: "calls_of k ?es = (if k = 0 then [(''add'', [MInt 2, MInt 3])]
      else if k = 1 then [(''add'', [MInt 4, MInt 5])] else [])" "notes_of k ?es = []" for k
    by (simp_all add: sample_system_def sample_asking_def sample_serving_def sample_reading_def calls_in_def notes_in_def)
  have "made_objs (calls_of k ?es) (notes_of k ?es) = (if k = 0 then [call_obj 1 ''add'' [MInt 2, MInt 3]]
      else if k = 1 then [call_obj 1 ''add'' [MInt 4, MInt 5]] else [])" for k
    by (simp add: calls made_objs_def nth_call_def id_of_def)
  then have "answers_fit ref_msgpack sample_disp (\<lambda>w. True) (\<lambda>k. made_objs (calls_of k ?es) (notes_of k ?es))"
    by (auto simp: answers_fit_def sample_system_served sendable_def packable_response_obj split: if_splits)
  then show ?thesis
    by (simp add: requests_ok_def calls requests_packable_def packable_call_def)
qed

theorem every_future_answered_witness:
  "\<exists>hist as r. serve_all ref_msgpack sample_disp hist [] = (as, Some [[MInt 4, MInt 5], [MInt 2, MInt 3]]) \<and>
     answered_with ref_msgpack sample_disp [] hist 1 (call_obj 1 ''add'' [MInt 4, MInt 5]) r \<and>
     outcome ''add'' (received r) = HasValue (MInt 9)"
proof -
  obtain y where y: "run_events (sys_machine ref_msgpack default_reconnectable)
      (Inr (sys_init ref_msgpack sample_disp True [] 0)) sample_system = Inr y"
      "c_futures (y_clients y 1) = [HasValue (MInt 9)]"
      "sv_world (p_srv (y_server y)) = [[MInt 4, MInt 5], [MInt 2, MInt 3]]"
    using sample_system_run by blast
  have calls: "calls_of 1 sample_system = [(''add'', [MInt 4, MInt 5])]"
    by (simp add: sample_system_def sample_asking_def sample_serving_def sample_reading_def calls_in_def)
  from every_future_answered [OF ref_codec_laws ref_view_laws ref_buffer_laws sample_system_ok TrueI y(1)]
  obtain hist as where h: "serve_all ref_msgpack sample_disp hist [] = (as, Some (sv_world (p_srv (y_server y))))"
      "\<forall>k. \<forall>p < length (calls_of k sample_system). c_futures (y_clients y k) ! p = Pending \<or>
         (\<exists>r. answered_with ref_msgpack sample_disp [] hist k (nth_call (calls_of k sample_system) p) r \<and>
            c_futures (y_clients y k) ! p = outcome (fst (calls_of k sample_system ! p)) (received r))"
    by blast
  have "nth_call [(''add'', [MInt 4, MInt 5])] 0 = call_obj 1 ''add'' [MInt 4, MInt 5]"
    by (simp add: nth_call_def id_of_def)
  with h(2) [rule_format, of 0 1] y(2) calls obtain r where
      "answered_with ref_msgpack sample_disp [] hist 1 (call_obj 1 ''add'' [MInt 4, MInt 5]) r"
      "HasValue (MInt 9) = outcome ''add'' (received r)"
    by auto
  with h(1) y(3) show ?thesis by metis
qed


end
