(* ===== verification/AtRest.thy ===== *)
theory AtRest
  imports SystemRuns
begin

section \<open>Nothing gets lost\<close>

text \<open>
  A connection at rest: no bytes are under way, nothing waits in a queue of either side, no worker is
  in the middle of a handler. Then the server has served exactly the requests that the client has
  made, and every call that the server answers is answered.
\<close>

subsection \<open>What a client has on its way\<close>

lemma way_unchanged:
  "c_writer c' = c_writer c \<Longrightarrow> c_pending c' = c_pending c \<Longrightarrow>
     task_buffers (c_strand c') = task_buffers (c_strand c) \<Longrightarrow> on_the_way c' = on_the_way c"
  by (simp add: on_the_way_def)

lemma handle_response_way:
  assumes "handle_response resp c = Inr c'"
  shows "on_the_way c' = on_the_way c"
proof -
  obtain f p c1 where c1: "current_call (r_id resp) c = ((f, p), c1)"
    by (cases "current_call (r_id resp) c") auto
  have "c_pending c1 = c_pending c" using c1 by (auto simp: current_call_def Let_def split: option.splits)
  moreover obtain c2 where c2: "settle_call f p resp c1 = Inr c2" "c' = client_post (EraseTask (r_id resp)) c2"
    using assms c1 by (auto simp: handle_response_def split: sum.splits)
  obtain st where "c2 = c1\<lparr>c_futures := (c_futures c1)[p := st]\<rparr>" using settle_call_fields [OF c2(1)] by blast
  ultimately show ?thesis
    using current_call_fields [OF c1] by (intro way_unchanged) (simp_all add: c2(2) client_post_def)
qed

lemma client_decode_way: "client_decode mp n c = Inr c' \<Longrightarrow> on_the_way c' = on_the_way c"
proof (induction n arbitrary: c)
  case (Suc n)
  have same: "on_the_way (c\<lparr>c_unpac := u\<rparr>) = on_the_way c" for u by (rule way_unchanged) simp_all
  show ?case
  proof (cases "unpacker_next mp (c_unpac c)")
    case (NextObject ob u)
    with Suc.prems obtain resp c1 where "handle_response resp (c\<lparr>c_unpac := u\<rparr>) = Inr c1" "client_decode mp n c1 = Inr c'"
      by (auto split: sum.splits)
    with Suc.IH [of c1] handle_response_way [of resp "c\<lparr>c_unpac := u\<rparr>" c1] same show ?thesis by simp
  qed (use Suc.prems in auto)
qed simp

lemma client_decode_drains: "client_decode mp n c = Inr c' \<Longrightarrow> mp_parse mp (u_buf (c_unpac c')) = Insufficient"
proof (induction n arbitrary: c)
  case (Suc n)
  then show ?case by (auto simp: unpacker_next_def split: next_result.splits parsed.splits sum.splits)
qed simp

lemma client_on_read_rest:
  assumes "client_on_read mp rr c = Inr c'"
  shows "on_the_way c' = on_the_way c \<and>
    (mp_parse mp (u_buf (c_unpac c)) = Insufficient \<longrightarrow> mp_parse mp (u_buf (c_unpac c')) = Insufficient)"
proof (cases rr)
  case (ReadOk bs)
  then obtain c1 where c1: "client_decode mp (client_fuel (c\<lparr>c_reading := False,
        c_unpac := buffer_consumed bs (c_unpac c)\<rparr>)) (c\<lparr>c_reading := False, c_unpac := buffer_consumed bs (c_unpac c)\<rparr>) = Inr c1"
      "client_do_read (c1\<lparr>c_unpac := reserve_if_low mp (c_unpac c1)\<rparr>) = Inr c'"
    using assms by (auto simp: client_on_read_def Let_def split: sum.splits)
  have "on_the_way c1 = on_the_way c" using client_decode_way [OF c1(1)] by (simp add: on_the_way_def)
  moreover have "on_the_way c' = on_the_way c1" "u_buf (c_unpac c') = u_buf (c_unpac c1)"
    using c1(2) by (auto simp: client_do_read_def start_read_def on_the_way_def split: if_splits)
  ultimately show ?thesis using client_decode_drains [OF c1(1)] by simp
qed (use assms in \<open>auto simp: client_on_read_def on_the_way_def\<close>)

text \<open>Everything a client has been asked to send is on its way or sent, as long as no write finds a
  broken pipe.\<close>

definition keeps_all :: "msgpack \<Rightarrow> request list \<Rightarrow> request list \<Rightarrow> 'r client \<Rightarrow> bool" where
  "keeps_all mp calls notes c \<longleftrightarrow>
     on_the_way c = image_mset (mp_pack mp) (mset (made_objs calls notes)) \<and>
     mp_parse mp (u_buf (c_unpac c)) = Insufficient"

lemma keeps_all_new: "codec_laws mp \<Longrightarrow> keeps_all mp [] [] (Client_new mp r)"
  by (simp add: keeps_all_def on_the_way_def in_writer_def AsyncWriter_new_def made_objs_def parse_empty)

lemma posted_way:
  "b \<noteq> [] \<Longrightarrow> task_buffers [t] = [b] \<Longrightarrow> on_the_way (client_post t c) = add_mset b (on_the_way c)"
  by (simp add: on_the_way_post)

lemma client_keeps_all:
  assumes laws: "codec_laws mp" "buffer_laws mp" and own: "answers_own mp calls notes rs c"
    and few: "length (calls @ calls_in e) < 2 ^ 32"
    and packed: "requests_packable (calls_in e)" "requests_packable (notes_in e)"
    and inv: "keeps_all mp calls notes c" and step: "client_step mp recon c e = Inr c'"
    and "e \<noteq> ClientWrote BrokenPipe"
  shows "keeps_all mp (calls @ calls_in e) (notes @ notes_in e) c'"
proof -
  have live: "writer_live (c_writer c)" using own by (simp add: answers_own_def)
  have same: ?thesis if "calls_in e = []" "notes_in e = []" "on_the_way c' = on_the_way c"
      "mp_parse mp (u_buf (c_unpac c)) = Insufficient \<Longrightarrow> mp_parse mp (u_buf (c_unpac c')) = Insufficient"
    using inv that by (simp add: keeps_all_def)
  show ?thesis
  proof (cases e)
    case (AppCall f args)
    let ?b = "mp_pack mp (call_obj (id_of (length calls)) f args)"
    have "c_call_idx c + 1 = id_of (length calls)" using own by (simp add: answers_own_def id_of_def)
    then have c': "c' = client_post (CallTask (id_of (length calls)) f (length (c_futures c)) ?b)
        (c\<lparr>c_call_idx := id_of (length calls), c_futures := c_futures c @ [Pending]\<rparr>)"
      using step AppCall by (simp add: client_step_def async_call_def next_call_idx_def Let_def)
    have "?b \<noteq> []" using packed(1) AppCall
      by (intro pack_nonempty [OF laws(1)]) (simp add: calls_in_def requests_packable_def packable_call_def)
    then have "on_the_way c' = add_mset ?b (on_the_way c)"
      unfolding c' by (subst posted_way) (simp_all add: on_the_way_def)
    with inv AppCall show ?thesis
      by (simp add: keeps_all_def calls_in_def notes_in_def made_objs_append) (simp add: c' client_post_def)
  next
    case (AppNotify f args)
    let ?b = "mp_pack mp (notify_obj f args)"
    have c': "c' = client_post (NotifyTask ?b) c" using step AppNotify by (simp add: client_step_def notify_def)
    have "?b \<noteq> []" using packed(2) AppNotify
      by (intro pack_nonempty [OF laws(1)]) (simp add: notes_in_def requests_packable_def packable_call_def)
    then have "on_the_way c' = add_mset ?b (on_the_way c)"
      unfolding c' by (subst posted_way) simp_all
    with inv AppNotify show ?thesis
      by (simp add: keeps_all_def calls_in_def notes_in_def made_objs_def) (simp add: c' client_post_def)
  next
    case ClientStrand
    have run: "client_run_strand mp c = Inr c'" using step ClientStrand by (simp add: client_step_def)
    have "c_unpac c' = c_unpac c"
    proof (cases "c_strand c")
      case (Cons t ts)
      from run_strand_effect [OF laws(2) live Cons run] show ?thesis by (cases t) auto
    qed (use run in \<open>simp add: client_run_strand_def\<close>)
    moreover have "on_the_way c' = on_the_way c" using own_strand [OF laws(2) own _ run] few by simp
    ultimately show ?thesis using ClientStrand by (intro same) (simp_all add: calls_in_def notes_in_def)
  next
    case (ConnectDone cr)
    show ?thesis
    proof (cases "c_connecting c")
      case True
      with step ConnectDone obtain u where "client_on_connect recon cr c = (Inr u, c')"
        by (auto simp: client_step_def split: prod.splits sum.splits)
      from on_connect_fields [OF this] ConnectDone show ?thesis
        by (intro same) (auto simp: calls_in_def notes_in_def on_the_way_def)
    qed (use same step ConnectDone in \<open>simp add: client_step_def calls_in_def notes_in_def\<close>)
  next
    case (ClientRead rr)
    with step client_on_read_rest [of mp rr c c'] show ?thesis
      by (intro same) (auto simp: client_step_def calls_in_def notes_in_def split: if_splits)
  next
    case (ClientWrote ec)
    obtain w where w: "complete mp ec (c_writer c) = Inr w" "c' = c\<lparr>c_writer := w\<rparr>"
      using step ClientWrote by (auto simp: client_step_def client_on_write_def map_sum_def split: sum.splits)
    from complete_holds [OF live w(1)] w(2) ClientWrote assms(9) show ?thesis
      by (intro same) (auto simp: calls_in_def notes_in_def on_the_way_def)
  qed
qed

subsection \<open>What a session has in its buffer\<close>

text \<open>A session that waits for its next read has no whole object left in its buffer.\<close>

definition bufs_kept :: "'w srv \<Rightarrow> 'w srv \<Rightarrow> bool" where
  "bufs_kept v v' \<longleftrightarrow> (\<forall>k < length (sv_objs v'). ss_reading (sv_objs v' ! k) \<longrightarrow>
     u_buf (ss_unpac (sv_objs v' ! k)) = [] \<or>
     k < length (sv_objs v) \<and> ss_reading (sv_objs v ! k) \<and> ss_unpac (sv_objs v' ! k) = ss_unpac (sv_objs v ! k))"

lemma bufs_kept_objs: "sv_objs v' = sv_objs v \<Longrightarrow> bufs_kept v v'"
  by (simp add: bufs_kept_def)

lemma bufs_kept_update:
  "k < length (sv_objs v) \<Longrightarrow> (ss_reading s \<longrightarrow> ss_reading (sv_objs v ! k) \<and> ss_unpac s = ss_unpac (sv_objs v ! k)) \<Longrightarrow>
     sv_objs v' = (sv_objs v)[k := s] \<Longrightarrow> bufs_kept v v'"
  by (auto simp: bufs_kept_def nth_list_update)

lemma bufs_kept_close_all:
  assumes "bufs_kept v v'"
  shows "bufs_kept v (close_sessions t v')"
proof -
  let ?A = "\<lambda>k s. ss_reading s \<longrightarrow> u_buf (ss_unpac s) = [] \<or>
    k < length (sv_objs v) \<and> ss_reading (sv_objs v ! k) \<and> ss_unpac s = ss_unpac (sv_objs v ! k)"
  have "?A k (close_all ks (sv_objs v') ! k)" if "k < length (sv_objs v')" for k ks
    using close_all_keeps [of "?A k" k "sv_objs v'" ks] that assms by (simp add: bufs_kept_def)
  then show ?thesis by (simp add: bufs_kept_def)
qed

lemma session_step_bufs:
  assumes "session_step mp t k se v = Inr v'" and "k < length (sv_objs v)"
    and "\<forall>i. se \<noteq> Job i" and "\<forall>bs. se \<noteq> Read (ReadOk bs)"
  shows "bufs_kept v v'"
  using assms(1)
proof (cases rule: session_step_cases)
  case (strand s pc)
  let ?v = "v\<lparr>sv_objs := (sv_objs v)[k := s]\<rparr>"
  have kept: "bufs_kept v ?v"
    using run_strand_frames [OF strand(2)] by (intro bufs_kept_update [OF assms(2)]) simp_all
  have "v' = ?v \<or> v' = close_session k ?v \<or> v' = close_sessions t ?v"
    using strand(3) by (auto simp: parent_calls_def split: if_splits)
  then show ?thesis
    using kept bufs_kept_close_all [OF kept, of t] by (auto simp: close_session_def bufs_kept_def)
next
  case (own s c)
  have "ss_reading s \<longrightarrow> ss_reading (sv_objs v ! k) \<and> ss_unpac s = ss_unpac (sv_objs v ! k)"
  proof (cases se)
    case (Read rr)
    with own(3) assms(4) show ?thesis
      by (cases rr) (auto simp: sess_step_def session_on_read_def Let_def split: if_splits)
  qed (use own(3) assms(3) in \<open>auto simp: sess_step_def session_on_write_def with_writer_def map_sum_def
      split: sum.splits prod.splits dest!: run_strand_frames\<close>)
  from bufs_kept_update [OF assms(2) this] show ?thesis by (simp add: own(4))
qed (simp add: bufs_kept_objs)

lemma srv_step_bufs:
  assumes "srv_step mp v e = Inr v'" and "runs_whole p e"
  shows "bufs_kept v v'"
proof (cases e)
  case (AcceptDone t ok)
  with assms(1) show ?thesis
    by (auto simp: srv_step_def on_accept_def start_accept_def Let_def bufs_kept_def nth_append ServerSession_new_def
        session_start_def session_do_read_def start_read_def split: if_splits sum.splits)
next
  case (SessionStep t k se)
  with assms session_step_bufs [of mp t k se v v'] show ?thesis
    by (auto simp: srv_step_def runs_whole_def bufs_kept_objs split: if_splits sess_event.splits read_result.splits)
next
  case CloseAllCalled
  with assms(1) bufs_kept_close_all [of v v 0] show ?thesis
    by (auto simp: srv_step_def bufs_kept_objs split: if_splits)
qed (use assms(1) thread_event_fields [OF assms(1)] in \<open>auto intro: bufs_kept_objs\<close>)

definition drained :: "msgpack \<Rightarrow> 'w par \<Rightarrow> bool" where
  "drained mp p \<longleftrightarrow> (\<forall>k < length (sv_objs (p_srv p)). ss_reading (sv_objs (p_srv p) ! k) \<longrightarrow>
     mp_parse mp (u_buf (ss_unpac (sv_objs (p_srv p) ! k))) = Insufficient \<or> (\<exists>t. p_work p t = Some (k, Decoding)))"

lemma drained_work:
  assumes inv: "drained mp p" and len: "length (sv_objs v) = length (sv_objs (p_srv p))"
    and old: "\<And>j wk. p_work p t = Some (j, wk) \<Longrightarrow> j = k"
    and others: "\<And>j. j \<noteq> k \<Longrightarrow> sv_objs v ! j = sv_objs (p_srv p) ! j"
    and mine: "k < length (sv_objs v) \<Longrightarrow> ss_reading (sv_objs v ! k) \<Longrightarrow>
      mp_parse mp (u_buf (ss_unpac (sv_objs v ! k))) = Insufficient \<or> x = Some (k, Decoding) \<or>
      ss_reading (sv_objs (p_srv p) ! k) \<and> u_buf (ss_unpac (sv_objs v ! k)) = u_buf (ss_unpac (sv_objs (p_srv p) ! k)) \<and>
        p_work p t \<noteq> Some (k, Decoding)"
  shows "drained mp (p\<lparr>p_srv := v, p_work := (p_work p)(t := x)\<rparr>)"
  unfolding drained_def
proof (intro allI impI)
  let ?p = "p\<lparr>p_srv := v, p_work := (p_work p)(t := x)\<rparr>"
  fix j
  assume "j < length (sv_objs (p_srv ?p))" "ss_reading (sv_objs (p_srv ?p) ! j)"
  then have j: "j < length (sv_objs (p_srv p))" "ss_reading (sv_objs v ! j)" using len by simp_all
  let ?goal = "mp_parse mp (u_buf (ss_unpac (sv_objs (p_srv ?p) ! j))) = Insufficient \<or> (\<exists>t. p_work ?p t = Some (j, Decoding))"
  have keep: ?goal if read: "ss_reading (sv_objs (p_srv p) ! j)" and idle: "p_work p t \<noteq> Some (j, Decoding)"
      and buf: "u_buf (ss_unpac (sv_objs v ! j)) = u_buf (ss_unpac (sv_objs (p_srv p) ! j))"
  proof -
    consider "mp_parse mp (u_buf (ss_unpac (sv_objs (p_srv p) ! j))) = Insufficient"
      | u where "p_work p u = Some (j, Decoding)"
      using inv j(1) read unfolding drained_def by blast
    then show ?thesis
    proof cases
      case 2
      then have "u \<noteq> t" using idle by auto
      with 2 have "p_work ?p u = Some (j, Decoding)" by simp
      then show ?thesis by blast
    qed (use buf in simp)
  qed
  show ?goal
  proof (cases "j = k")
    case True
    have "p_work ?p t = x" by simp
    with mine j len keep show ?thesis unfolding True by fastforce
  next
    case False
    then have "p_work p t \<noteq> Some (j, Decoding)" using old by blast
    with False others [of j] j(2) show ?thesis by (intro keep) simp_all
  qed
qed

lemma advance_drained:
  assumes inv: "drained mp p" and busy: "busy_ok p" and work: "p_work p t = Some (k, wk)" and step: "advance mp t k wk (p_srv p) = Inr (x, v)"
  shows "drained mp (p\<lparr>p_srv := v, p_work := (p_work p)(t := map_option (Pair k) x)\<rparr>)"
proof -
  let ?s = "sv_objs (p_srv p) ! k"
  have old: "p_work p t = Some (j, wk') \<Longrightarrow> j = k" for j wk' using work by simp
  show ?thesis
  proof (cases wk)
    case Decoding
    obtain s where s: "decode_next mp ?s = Inr (x, s)" "v = put_session k s (p_srv p)"
      using step Decoding by (auto simp: advance_def map_sum_def split: sum.splits)
    have "ss_reading s \<longrightarrow> mp_parse mp (u_buf (ss_unpac s)) = Insufficient \<or> x = Some Decoding"
      using s(1) by (auto simp: decode_next_def unpacker_next_def split: next_result.splits parsed.splits if_splits)
    then show ?thesis by (intro drained_work [OF inv _ old]) (auto simp: s(2))
  next
    case Rearming
    obtain s where s: "read_again mp ?s = Inr (x, s)" "v = put_session k s (p_srv p)"
      using step Rearming by (auto simp: advance_def map_sum_def split: sum.splits)
    have "ss_reading s \<longrightarrow> u_buf (ss_unpac s) = u_buf (ss_unpac ?s)"
      using s(1) by (auto simp: read_again_def map_sum_def session_do_read_def start_read_def split: sum.splits if_splits)
    moreover have "ss_reading ?s"
      using busy_ok_facts(2) [OF busy, of t k] work Rearming by (simp add: reads_for_def)
    ultimately show ?thesis using work Rearming by (intro drained_work [OF inv _ old]) (auto simp: s(2))
  next
    case (Taken m)
    then have "\<exists>c. v = leave_ctx t c (p_srv p)" "x \<noteq> Some Decoding"
      using step by (auto simp: advance_def dispatch_job_def split: if_splits prod.splits sum.splits)
    then show ?thesis using work Taken by (intro drained_work [OF inv _ old]) auto
  next
    case (Posting ts)
    then have v: "v = (case ts of [] \<Rightarrow> p_srv p | u # us \<Rightarrow> put_session k (post_tasks [u] ?s) (p_srv p))"
      using step by (auto simp: advance_def post_next_def split: list.splits)
    show ?thesis
      using work Posting by (intro drained_work [OF inv _ old]) (auto simp: v post_tasks_def split: list.splits)
  qed
qed

lemma par_step_drained:
  assumes "codec_laws mp" and inv: "drained mp p" and busy: "busy_ok p" and step: "par_step mp p e = Inr p'"
  shows "drained mp p'"
proof (cases e)
  case (Whole se)
  show ?thesis
  proof (cases "runs_whole p se")
    case True
    then obtain v where v: "srv_step mp (p_srv p) se = Inr v" "p' = p\<lparr>p_srv := v\<rparr>"
      using step Whole by (auto simp: par_step_def map_sum_def split: sum.splits)
    note bufs = srv_step_bufs [OF v(1) True, unfolded bufs_kept_def]
    show ?thesis
      unfolding drained_def
    proof (intro allI impI)
      fix k
      assume "k < length (sv_objs (p_srv p'))" "ss_reading (sv_objs (p_srv p') ! k)"
      then have "k < length (sv_objs v)" "ss_reading (sv_objs v ! k)" by (simp_all add: v(2))
      from bufs [rule_format, OF this] inv
      show "mp_parse mp (u_buf (ss_unpac (sv_objs (p_srv p') ! k))) = Insufficient \<or> (\<exists>t. p_work p' t = Some (k, Decoding))"
        using parse_empty [OF assms(1)] by (auto simp: drained_def v(2))
    qed
  qed (use inv step Whole in \<open>simp add: par_step_def\<close>)
next
  case (ReadChunk t k bs)
  show ?thesis
  proof (cases "chunk_ready p t k")
    case True
    obtain x s where s: "chunk_arrives bs (sv_objs (p_srv p) ! k) = (x, s)" by fastforce
    have "p' = p\<lparr>p_srv := put_session k s (p_srv p), p_work := (p_work p)(t := map_option (Pair k) x)\<rparr>"
      using step ReadChunk True s by (simp add: par_step_def)
    moreover have "ss_reading s \<longrightarrow> x = Some Decoding" using s by (auto simp: chunk_arrives_def split: if_splits)
    ultimately show ?thesis
      using True by (auto simp: chunk_ready_def can_start_def intro!: drained_work [where k = k] inv)
  qed (use inv step ReadChunk in \<open>simp add: par_step_def\<close>)
next
  case (TakeJob t k i)
  show ?thesis
  proof (cases "can_start p t k \<and> i < length (ss_jobs (sv_objs (p_srv p) ! k))")
    case True
    let ?v = "snd (take_job t k i (p_srv p))"
    have "p' = p\<lparr>p_srv := ?v, p_work := (p_work p)(t := Some (k, fst (take_job t k i (p_srv p))))\<rparr>"
      using step TakeJob True by (simp add: par_step_def split: prod.splits)
    then show ?thesis
      using True by (auto simp: can_start_def take_job_def Let_def intro!: drained_work [where k = k] inv)
  qed (use inv step TakeJob in \<open>auto simp: par_step_def\<close>)
next
  case (Advance t)
  show ?thesis
  proof (cases "p_work p t")
    case (Some kw)
    then obtain k wk where kw: "p_work p t = Some (k, wk)" by (cases kw) simp
    obtain x v where "advance mp t k wk (p_srv p) = Inr (x, v)"
        "p' = p\<lparr>p_srv := v, p_work := (p_work p)(t := map_option (Pair k) x)\<rparr>"
      using step Advance kw by (auto simp: par_step_def split: sum.splits)
    with advance_drained [OF inv busy kw] show ?thesis by simp
  qed (use inv step Advance in \<open>simp add: par_step_def\<close>)
qed

lemma drained_run:
  assumes laws: "codec_laws mp" "view_laws mp" "buffer_laws mp" "\<forall>k. well_packed (obs k)" and fit: "answers_fit mp d P obs"
  shows "linear mp d P obs w0 (\<lambda>k. collected (par_step mp) (par_reads k) (Inr p) es @ unread k) hist p \<Longrightarrow>
     drained mp p \<Longrightarrow> run_events (par_machine mp) (Inr p) es = Inr p' \<Longrightarrow> drained mp p'"
proof (induction es arbitrary: p hist)
  case (Cons e es)
  show ?case
  proof (cases "par_step mp p e")
    case (Inr p1)
    have lin: "linear mp d P obs w0 (\<lambda>k. par_reads k p e @ (collected (par_step mp) (par_reads k) (Inr p1) es @ unread k)) hist p"
      using Cons.prems(1) Inr by simp
    have "busy_ok p" using lin by (simp add: linear_def)
    from Cons.IH [OF par_step_linear [OF laws fit lin Inr] par_step_drained [OF laws(1) Cons.prems(2) this Inr]]
      Cons.prems(3) Inr show ?thesis by simp
  qed (use Cons.prems(3) in simp)
qed simp

subsection \<open>A connection at rest\<close>

text \<open>The server has served all that the client has sent, and put all answers on the wire.\<close>

lemma server_at_rest:
  assumes laws: "codec_laws mp" "view_laws mp" "buffer_laws mp" and ok: "requests_ok mp d P es" and "P w"
    and inv: "sys_inv mp d suppress w es y" and rests: "connection_rests y k"
  shows "\<exists>hist as ps. serve_all mp d hist w = (as, Some (sv_world (p_srv (y_server y)))) \<and>
     sendable mp (map snd as) \<and> mset ps = mset as \<and>
     mset (requests_of k hist) = mset (sent_objs mp (y_clients y k)) \<and>
     sent_down y k = stream mp (map response_obj (answers_for k ps))"
proof -
  let ?obs = "\<lambda>k. sent_objs mp (y_clients y k)" and ?start = "all_idle (serving_with d suppress w)" and ?p = "y_server y"
  define s where "s = sv_objs (p_srv ?p) ! k"
  have free: "all_free ?p" "k < length (sv_objs (p_srv ?p))"
    and quiet: "ss_reading s" "ss_jobs s = []" "w_strand (ss_writer s) = []" "w_queue (ss_writer s) = []"
      "\<not> w_exit (ss_writer s)" "y_up y k = sent_up y k"
    using rests by (simp_all add: connection_rests_def s_def Let_def)
  note wire = sent_now(1) [OF laws(1) ok inv] and made = sent_now(3) [OF laws(1) ok inv]
    and packed = sent_now(4) [OF laws(1) ok inv]
  have fit: "answers_fit mp d P ?obs"
    using ok made by (auto simp: requests_ok_def intro: answers_fit_mono)
  obtain ses where ses: "run_events (par_machine mp) (Inr ?start) ses = Inr ?p"
      "\<forall>k. collected (par_step mp) (par_reads k) (Inr ?start) ses = y_up y k" "\<forall>k. prefix (y_up y k) (sent_up y k)"
    using inv by (auto simp: sys_inv_def server_ran_def)
  have given: "\<forall>k. well_packed (?obs k)" "\<forall>k. prefix (collected (par_step mp) (par_reads k) (Inr ?start) ses) (stream mp (?obs k))"
    using packed ses(2,3) wire by simp_all
  define hist where "hist = collected (par_step mp) dispatched (Inr ?start) ses"
  have lin: "linear mp d P ?obs w (left_unread mp ?start ses ?obs) hist ?p"
    using workers_linear [OF laws given(1) fit assms(5) given(2) ses(1)] by (simp add: hist_def)
  have all_read: "left_unread mp ?start ses ?obs k = []"
    using ses(2) quiet(6) wire by (simp add: left_unread_def)
  have "drained mp ?start" by (simp add: drained_def serving_with_def suppress_exceptions_def Server_new_def impl_new_def
        start_accept_def)
  from drained_run [OF laws given(1) fit start_linear [of P w, OF assms(5) given(2)] this ses(1)]
  have drained: "drained mp ?p" .
  obtain taken ps where h: "accounts mp d w hist ?p taken ps"
      "accounted mp (?obs k) [] taken ps k s"
    using lin free(2) all_read unfolding linear_def tracked_def s_def by metis
  have "held_by ?p t = []" "owed_by ?p t = []" if "t < length (sv_threads (p_srv ?p))" for t
    using free(1) that by (simp_all add: all_free_def held_by_def owed_by_def)
  then have none: "in_hand ?p = []" "unposted ?p = []" by (simp_all add: in_hand_def unposted_def)
  obtain as where as: "serve_all mp d hist w = (as, Some (sv_world (p_srv ?p)))" "sendable mp (map snd as)"
      "mset as = mset ps" "mset taken = mset hist"
    using h(1) by (auto simp: accounts_def none)
  obtain later where later: "mset (?obs k) = mset (requests_of k taken) + mset later"
      "u_buf (ss_unpac s) = stream mp later" "well_packed (?obs k) \<Longrightarrow> well_packed later"
    using accounted_rest [OF h(2) quiet(1)] quiet(2) by auto
  have "busy_ok ?p" using lin by (simp add: linear_def)
  then have "\<nexists>t. p_work ?p t = Some (k, Decoding)"
    using free(1) busy_ok_facts(1) by (fastforce simp: all_free_def)
  then have empty: "mp_parse mp (stream mp later) = Insufficient"
    using drained free(2) quiet(1) later(2) by (auto simp: drained_def s_def)
  have "later = []"
  proof (cases later)
    case (Cons ob obs)
    then have "packable ob" using later(3) given(1) by (auto simp: well_packed_def)
    from parse_pack [OF laws(1) this] empty Cons show ?thesis by simp
  qed
  then have served: "mset (requests_of k hist) = mset (?obs k)"
    using later(1) as(4) by (simp add: requests_of_def)
  have "carries mp (answers_for k ps) (ss_writer s)" using h(2) by (simp add: accounted_def)
  then have "map (response_data mp) (answers_for k ps) = w_wire (ss_writer s)"
    using quiet(3-5) by (simp add: carries_def derived_tasks_def)
  moreover have "map (response_data mp) (answers_for k ps) = map (mp_pack mp) (map response_obj (answers_for k ps))"
    by (simp add: response_data_def)
  ultimately have "sent_down y k = stream mp (map response_obj (answers_for k ps))"
    using free(2) by (simp only: sent_down_def stream_def s_def if_True)
  with as served show ?thesis by metis
qed

text \<open>What was made and is neither kept nor queued has been sent; what was sent and leaves no part of an
  object in the buffer has been read.\<close>

lemma all_sent:
  assumes "codec_laws mp" and "requests_packable calls" and "requests_packable notes"
    and way: "on_the_way c = image_mset (mp_pack mp) (mset (made_objs calls notes))"
    and quiet: "c_strand c = []" "\<forall>b \<in> set (c_pending c). b = []" "w_queue (c_writer c) = []"
  shows "mset (sent_objs mp c) = mset (made_objs calls notes)"
proof -
  have "nonempty (c_pending c) = {#}" using quiet(2) by (auto simp: nonempty_def multiset_eq_iff count_eq_zero_iff)
  then have "nonempty (w_wire (c_writer c)) = image_mset (mp_pack mp) (mset (made_objs calls notes))"
    using way quiet(1,3) by (simp add: on_the_way_def in_writer_def)
  then have "image_mset (unpacked mp) (nonempty (w_wire (c_writer c))) =
      image_mset (unpacked mp) (image_mset (mp_pack mp) (mset (made_objs calls notes)))" by simp
  also have "\<dots> = image_mset (\<lambda>ob. ob) (mset (made_objs calls notes))"
    unfolding multiset.map_comp comp_def
    using unpacked_pack [OF assms(1)] made_packable [OF assms(2,3)] by (intro image_mset_cong) auto
  finally show ?thesis by (simp add: sent_objs_def nonempty_def)
qed

lemma stream_all_read:
  assumes "codec_laws mp" and "stream mp xs @ bs = stream mp ys" and "\<forall>ob \<in> set xs \<union> set ys. packable ob"
    and "mp_parse mp bs = Insufficient"
  shows "xs = ys"
proof -
  obtain zs where zs: "ys = xs @ zs" "bs = stream mp zs"
    using stream_prefix_unique [OF assms(1,3,2)] by blast
  have "zs = []"
  proof (cases zs)
    case (Cons z zs')
    then have "packable z" using assms(3) zs(1) by simp
    from parse_pack [OF assms(1) this] assms(4) Cons zs(2) show ?thesis by simp
  qed
  with zs(1) show ?thesis by simp
qed

text \<open>The client still knows all it was asked to send.\<close>

lemma sys_run_keeps_all:
  assumes laws: "codec_laws mp" "view_laws mp" "buffer_laws mp" and "P w"
  shows "requests_ok mp d P es \<Longrightarrow> \<forall>e \<in> set es. e \<noteq> AtClient k (ClientWrote BrokenPipe) \<Longrightarrow>
     run_events (sys_machine mp recon) (Inr (sys_init mp d suppress w r)) es = Inr y \<Longrightarrow>
     keeps_all mp (calls_of k es) (notes_of k es) (y_clients y k)"
proof (induction es arbitrary: y rule: rev_induct)
  case Nil
  then show ?case using keeps_all_new [OF laws(1)] by (auto simp: sys_init_def)
next
  case (snoc e es)
  from snoc.prems(3) obtain y0 where y0: "run_events (sys_machine mp recon) (Inr (sys_init mp d suppress w r)) es = Inr y0"
      "sys_step mp recon y0 e = Inr y"
    by (cases "run_events (sys_machine mp recon) (Inr (sys_init mp d suppress w r)) es") auto
  note ok = requests_ok_prefix [OF snoc.prems(1)]
  have keeps: "keeps_all mp (calls_of k es) (notes_of k es) (y_clients y0 k)"
    using snoc.IH [OF ok _ y0(1)] snoc.prems(2) by simp
  note inv = sys_run_inv [OF laws assms(4) ok y0(1)]
  show ?case
  proof (cases "\<exists>ce. e = AtClient k ce \<and> network_allows y0 e")
    case True
    then obtain ce where ce: "e = AtClient k ce" "network_allows y0 e" by blast
    then obtain c where c: "client_step mp recon (y_clients y0 k) ce = Inr c" "y_clients y k = c"
      using y0(2) by (auto simp: sys_step_def split: sum.splits)
    obtain rs where own: "answers_own mp (calls_of k es) (notes_of k es) rs (y_clients y0 k)"
      using inv by (auto simp: sys_inv_def client_stands_def)
    have reqs: "length (calls_of k (es @ [e])) < 2 ^ 32" "requests_packable (calls_of k (es @ [e]))"
        "requests_packable (notes_of k (es @ [e]))"
      using snoc.prems(1) unfolding requests_ok_def by blast+
    from client_keeps_all [OF laws(1,3) own _ _ _ keeps c(1)] reqs snoc.prems(2) ce(1) c(2) show ?thesis
      by (simp add: requests_packable_def)
  next
    case False
    have "y_clients y k = y_clients y0 k"
      using y0(2) False by (auto simp: sys_step_def split: if_splits sys_event.splits sum.splits)
    moreover have "calls_of k [e] = [] \<and> notes_of k [e] = []"
    proof (cases "network_allows y0 e")
      case True
      with False show ?thesis by (cases e) auto
    qed (rule refused_requests [OF inv])
    then have "calls_of k (es @ [e]) = calls_of k es" "notes_of k (es @ [e]) = notes_of k es"
      by (simp_all only: requests_simps append_Nil2)
    ultimately show ?thesis using keeps by simp
  qed
qed

text \<open>A request that was served and not answered: a notification, or a call whose handler has disabled
  the response.\<close>

definition unanswered :: "msgpack \<Rightarrow> 'w dispatcher \<Rightarrow> 'w \<Rightarrow> served list \<Rightarrow> nat \<Rightarrow> mobj \<Rightarrow> bool" where
  "unanswered mp d w hist k m \<longleftrightarrow> (\<exists>before p after as w1 ts c. hist = before @ (k, p, m) # after \<and>
     serve_all mp d before w = (as, Some w1) \<and>
     process_request mp d p (of_nat k) m (fresh_ctx w1) = (Inr ts, c) \<and> responses_in ts = [])"

lemma served_place:
  "serve_all mp d (before @ (k, p, m) # after) w = (as, Some w') \<Longrightarrow>
     \<exists>as1 w1 ts c. serve_all mp d before w = (as1, Some w1) \<and>
       process_request mp d p (of_nat k) m (fresh_ctx w1) = (Inr ts, c) \<and>
       set (responses_in ts) \<subseteq> set (answers_for k as)"
proof (induction before arbitrary: w as)
  case Nil
  then obtain ts c bs where "process_request mp d p (of_nat k) m (fresh_ctx w) = (Inr ts, c)"
      "as = map (Pair k) (responses_in ts) @ bs"
    by (auto split: prod.splits sum.splits)
  then show ?case by simp
next
  case (Cons h before)
  obtain j q n where h: "h = (j, q, n)" by (cases h)
  obtain ts c bs where step: "process_request mp d q (of_nat j) n (fresh_ctx w) = (Inr ts, c)"
      "serve_all mp d (before @ (k, p, m) # after) (world c) = (bs, Some w')" "as = map (Pair j) (responses_in ts) @ bs"
    using Cons.prems by (auto simp: h split: prod.splits sum.splits)
  from Cons.IH [OF step(2)] obtain as1 w1 ts' c' where "serve_all mp d before (world c) = (as1, Some w1)"
      "process_request mp d p (of_nat k) m (fresh_ctx w1) = (Inr ts', c')" "set (responses_in ts') \<subseteq> set (answers_for k bs)"
    by blast
  with step(1,3) show ?case by (auto simp: h)
qed

text \<open>C2. Nothing gets lost. When a connection is at rest, with no bytes under way, empty queues on both
  sides and no worker in the middle of a handler, the requests of its session that the server has
  served are exactly those that its client has made, calls and notifications alike, and the future
  of each of the client's calls holds the outcome of the answer to that call; it is pending only if
  serving the call produced no answer, because the bound function disabled it.\<close>

theorem connection_at_rest_answers_all:
  assumes "codec_laws mp" and "view_laws mp" and "buffer_laws mp" and "requests_ok mp d P es" and "P w"
    and "\<forall>e \<in> set es. e \<noteq> AtClient k (ClientWrote BrokenPipe)"
    and "run_events (sys_machine mp recon) (Inr (sys_init mp d suppress w r)) es = Inr y"
    and "connection_rests y k"
  shows "\<exists>hist as. serve_all mp d hist w = (as, Some (sv_world (p_srv (y_server y)))) \<and>
     mset (requests_of k hist) = mset (made_objs (calls_of k es) (notes_of k es)) \<and>
     (\<forall>p < length (calls_of k es). let m = nth_call (calls_of k es) p; st = c_futures (y_clients y k) ! p in
        (\<exists>r. answered_with mp d w hist k m r \<and> st = outcome (fst (calls_of k es ! p)) (received r)) \<or>
        st = Pending \<and> unanswered mp d w hist k m)"
proof -
  let ?c = "y_clients y k" and ?calls = "calls_of k es" and ?notes = "notes_of k es"
  note inv = sys_run_inv [OF assms(1-3,5,4,7)]
  obtain rs where own: "answers_own mp ?calls ?notes rs ?c" "\<forall>r \<in> set rs. packable (response_obj r)"
      "y_down y k = stream mp (map response_obj rs) @ u_buf (c_unpac ?c)"
    using inv by (auto simp: sys_inv_def client_stands_def)
  have quiet: "y_down y k = sent_down y k" "c_strand ?c = []" "\<forall>b \<in> set (c_pending ?c). b = []" "w_queue (c_writer ?c) = []"
    using assms(8) by (simp_all add: connection_rests_def Let_def)
  have keeps: "on_the_way ?c = image_mset (mp_pack mp) (mset (made_objs ?calls ?notes))"
      "mp_parse mp (u_buf (c_unpac ?c)) = Insufficient"
    using sys_run_keeps_all [OF assms(1-3,5,4,6,7)] by (simp_all add: keeps_all_def)
  have packs: "requests_packable ?calls" "requests_packable ?notes" "length ?calls < 2 ^ 32"
    using assms(4) by (simp_all add: requests_ok_def)
  obtain hist as ps where h: "serve_all mp d hist w = (as, Some (sv_world (p_srv (y_server y))))"
      "sendable mp (map snd as)" "mset ps = mset as" "mset (requests_of k hist) = mset (sent_objs mp ?c)"
      "sent_down y k = stream mp (map response_obj (answers_for k ps))"
    using server_at_rest [OF assms(1-5) inv assms(8)] by blast
  have sent: "mset (sent_objs mp ?c) = mset (made_objs ?calls ?notes)"
    by (rule all_sent [OF assms(1) packs(1,2) keeps(1) quiet(2-4)])
  have served: "mset (requests_of k hist) = mset (made_objs ?calls ?notes)" using h(4) sent by simp
  have "set ps = set as" using h(3) by (metis set_mset_mset)
  then have some: "set (answers_for k ps) = set (answers_for k as)" by (auto simp: answers_for_def)
  have "map response_obj rs = map response_obj (answers_for k ps)"
  proof (rule stream_all_read [OF assms(1) _ _ keeps(2)])
    show "stream mp (map response_obj rs) @ u_buf (c_unpac ?c) = stream mp (map response_obj (answers_for k ps))"
      using own(3) quiet(1) h(5) by simp
    show "\<forall>ob \<in> set (map response_obj rs) \<union> set (map response_obj (answers_for k ps)). packable ob"
      using own(2) answers_for_sendable [OF h(2), of k] some by (auto simp: sendable_def)
  qed
  then have ids: "r_id ` set rs = r_id ` set (answers_for k as)" using responses_same some by (metis set_map)
  have "(\<exists>r. answered_with mp d w hist k (nth_call ?calls p) r \<and>
        c_futures ?c ! p = outcome (fst (?calls ! p)) (received r)) \<or>
      c_futures ?c ! p = Pending \<and> unanswered mp d w hist k (nth_call ?calls p)" if p: "p < length ?calls" for p
  proof -
    let ?m = "nth_call ?calls p"
    have "?m \<in> set (made_objs ?calls ?notes)" using p by (simp add: made_objs_def)
    then have "?m \<in> set (requests_of k hist)" using served by (metis set_mset_mset)
    then obtain q before after where place: "hist = before @ (k, q, ?m) # after"
      by (auto simp: requests_of_def dest!: split_list)
    obtain as1 w1 ts c where at: "serve_all mp d before w = (as1, Some w1)"
        "process_request mp d q (of_nat k) ?m (fresh_ctx w1) = (Inr ts, c)"
        "set (responses_in ts) \<subseteq> set (answers_for k as)"
      using served_place [OF h(1) [unfolded place]] by blast
    have answered: "c_futures ?c ! p = Pending \<or> (\<exists>r. answered_with mp d w hist k ?m r \<and>
        c_futures ?c ! p = outcome (fst (?calls ! p)) (received r))"
      using served h(3) by (intro future_answered [where ps = ps, OF assms(1-4) inv h(1,2) _ _ _ p]) (simp_all add: h(5))
    show ?thesis
    proof (cases "responses_in ts")
      case Nil
      with place at(1,2) have "unanswered mp d w hist k ?m" unfolding unanswered_def by blast
      with answered show ?thesis by blast
    next
      case (Cons r more)
      have "r_id r \<in># mset (call_id mp ?m)"
        using process_answers_call [OF at(2)] Cons by (auto dest: mset_subset_eqD)
      then have "r_id r = id_of p" by (simp add: nth_call_def call_id_made [OF assms(2)])
      then have "id_of p \<in> r_id ` set rs" using ids at(3) Cons by force
      then have "c_futures ?c ! p \<noteq> Pending"
        using answers_own_keys(3) [OF own(1) p] quiet(2)
        by (auto simp: call_state_def Let_def posted_promises_def)
      with answered show ?thesis by blast
    qed
  qed
  with h(1) served show ?thesis unfolding Let_def by blast
qed

theorem connection_at_rest_answers_all_witness:
  "\<exists>hist as r. serve_all ref_msgpack sample_disp hist [] = (as, Some [[MInt 4, MInt 5], [MInt 2, MInt 3]]) \<and>
     requests_of 1 hist = [call_obj 1 ''add'' [MInt 4, MInt 5]] \<and>
     answered_with ref_msgpack sample_disp [] hist 1 (call_obj 1 ''add'' [MInt 4, MInt 5]) r \<and>
     outcome ''add'' (received r) = HasValue (MInt 9)"
proof -
  obtain y where y: "run_events (sys_machine ref_msgpack default_reconnectable)
      (Inr (sys_init ref_msgpack sample_disp True [] 0)) sample_system = Inr y"
      "c_futures (y_clients y 1) = [HasValue (MInt 9)]"
      "sv_world (p_srv (y_server y)) = [[MInt 4, MInt 5], [MInt 2, MInt 3]]" "connection_rests y 1"
    using sample_system_run by blast
  have unbroken: "\<forall>e \<in> set sample_system. e \<noteq> AtClient 1 (ClientWrote BrokenPipe)"
    by (simp add: sample_system_def sample_asking_def sample_serving_def sample_reading_def)
  have made: "calls_of 1 sample_system = [(''add'', [MInt 4, MInt 5])]" "notes_of 1 sample_system = []"
    by (simp_all add: sample_system_def sample_asking_def sample_serving_def sample_reading_def calls_in_def notes_in_def)
  have here: "nth_call [(''add'', [MInt 4, MInt 5])] 0 = call_obj 1 ''add'' [MInt 4, MInt 5]"
    by (simp add: nth_call_def id_of_def)
  from connection_at_rest_answers_all [OF ref_codec_laws ref_view_laws ref_buffer_laws sample_system_ok TrueI unbroken y(1,4)]
  obtain hist as where h: "serve_all ref_msgpack sample_disp hist [] = (as, Some (sv_world (p_srv (y_server y))))"
      "mset (requests_of 1 hist) = mset (made_objs [(''add'', [MInt 4, MInt 5])] [])"
      "\<exists>r. answered_with ref_msgpack sample_disp [] hist 1 (call_obj 1 ''add'' [MInt 4, MInt 5]) r \<and>
         HasValue (MInt 9) = outcome ''add'' (received r)"
    unfolding made by (auto simp: Let_def here y(2) [unfolded One_nat_def])
  have "requests_of 1 hist = [call_obj 1 ''add'' [MInt 4, MInt 5]]" using h(2) by (simp add: made_objs_def here)
  with h(1,3) y(3) show ?thesis by metis
qed

end
