(* ===== verification/WorkerRuns.thy ===== *)
theory WorkerRuns
  imports WorkerServes
begin

section \<open>Runs of handlers in steps\<close>

text \<open>
  A handler that nothing interrupts does in its steps what it does as a whole, so that every run of
  the machine of \<open>Server\<close> is one of the machine of \<open>WorkerSteps\<close>. What holds of the runs of the
  second, here that they serve in sequence and do not crash, holds of those of the first.
\<close>

subsection \<open>One handler alone\<close>

definition halfway :: "nat \<Rightarrow> nat \<Rightarrow> work \<Rightarrow> 'w srv \<Rightarrow> 'w par" where
  "halfway t k wk v = \<lparr>p_srv = v, p_work = (\<lambda>u. if u = t then Some (k, wk) else None)\<rparr>"

lemma advance_halfway:
  "par_step mp (halfway t k wk v) (Advance t) = (case advance mp t k wk v of
     Inl f \<Rightarrow> Inl f
   | Inr (x, v') \<Rightarrow> Inr (case x of None \<Rightarrow> all_idle v' | Some wk' \<Rightarrow> halfway t k wk' v'))"
  by (auto simp: par_step_def halfway_def all_idle_def fun_eq_iff split: sum.splits option.splits)

lemma put_session_same [simp]: "put_session k (sv_objs v ! k) v = v"
  by (simp add: put_session_def)

lemma put_session_put [simp]: "put_session k s (put_session k s' v) = put_session k s v"
  by (simp add: put_session_def)

lemma leave_ctx_same: "t < length (sv_threads v) \<Longrightarrow> leave_ctx t (in_thread v t) v = v"
proof -
  have same: "\<lparr>handler = handler l, session = session l, server = server l, world = ()\<rparr> = l" for l :: "unit ctx"
    by (cases l) simp
  assume "t < length (sv_threads v)"
  then show ?thesis by (simp add: same leave_ctx_def in_thread_def thread_at_def Let_def)
qed

lemma leave_ctx_leave [simp]: "leave_ctx t c (leave_ctx t c' v) = leave_ctx t c v"
  by (cases "t < length (sv_threads v)") (simp_all add: leave_ctx_def thread_at_def list_update_beyond)

lemma put_leave: "put_session k s (leave_ctx t c v) = leave_ctx t c (put_session k s v)"
  by (simp add: put_session_def leave_ctx_def thread_at_def)

lemma in_thread_put [simp]: "in_thread (put_session k s v) t = in_thread v t"
  by (simp add: in_thread_def put_session_def thread_at_def)

text \<open>Posting the answers.\<close>

lemma post_tasks_Cons: "post_tasks (u # us) s = post_tasks us (post_tasks [u] s)"
  by (simp add: post_tasks_def)

lemma posting_steps:
  "k < length (sv_objs v) \<Longrightarrow>
     run_events (par_machine mp) (Inr (halfway t k (Posting ts) v)) (replicate (Suc (length ts)) (Advance t)) =
       Inr (all_idle (put_session k (post_tasks ts (sv_objs v ! k)) v))"
proof (induction ts arbitrary: v)
  case Nil
  then show ?case by (simp add: advance_halfway advance_def post_next_def post_tasks_def)
next
  case (Cons u us)
  then show ?case
    by (simp add: advance_halfway advance_def post_next_def post_tasks_Cons [of u us])
qed

text \<open>A job.\<close>

lemma job_steps:
  assumes "has_state v t Running" and "\<not> sv_stopped v" and "k < length (sv_objs v)"
    and "i < length (ss_jobs (sv_objs v ! k))"
  shows "\<exists>n. run_events (par_machine mp) (Inr (all_idle v)) (TakeJob t k i # replicate n (Advance t)) =
    map_sum id all_idle (session_step mp t k (Job i) v)"
proof -
  define s where "s = sv_objs v ! k"
  let ?s = "s\<lparr>ss_jobs := take i (ss_jobs s) @ drop (Suc i) (ss_jobs s)\<rparr>"
  let ?c = "reset_ctx (ss_id s) (in_thread v t)"
  define v1 where "v1 = leave_ctx t ?c (put_session k ?s v)"
  have t: "t < length (sv_threads v)" using assms(1) by (simp add: has_state_def)
  have take_it: "par_step mp (all_idle v) (TakeJob t k i) = Inr (halfway t k (Taken (ss_jobs s ! i)) v1)"
    using assms by (simp add: par_step_def can_start_def take_job_def Let_def v1_def s_def halfway_def all_idle_def
        fun_eq_iff flip: put_session_def)
  have obj: "sv_objs v1 ! k = ?s" "sv_disp v1 = sv_disp v" "sv_disp_null v1 = sv_disp_null v" "in_thread v1 t = ?c"
    using assms(3) t by (simp_all add: v1_def)
  show ?thesis
  proof (cases "k \<in> set (sv_disp_null v)")
    case True
    then have "run_events (par_machine mp) (Inr (all_idle v)) (TakeJob t k i # replicate 1 (Advance t)) = Inl NullDispatcher"
      using take_it by (simp add: advance_halfway advance_def dispatch_job_def obj)
    then show ?thesis
      using True assms(4) by (intro exI [of _ 1]) (simp add: session_step_def takes_job_def s_def Let_def)
  next
    case False
    obtain r c where run: "dispatch mp (sv_disp v) (ss_jobs s ! i) (ss_suppress s) ?c = (r, c)" by fastforce
    show ?thesis
    proof (cases r)
      case (Inl x)
      have "run_events (par_machine mp) (Inr (all_idle v)) (TakeJob t k i # replicate 1 (Advance t)) =
          Inl (InSession (Escaped x))"
        using take_it run False Inl by (simp add: advance_halfway advance_def dispatch_job_def obj)
      moreover have "session_step mp t k (Job i) v = Inl (InSession (Escaped x))"
        using run False Inl assms(4)
        by (simp add: session_step_def takes_job_def sess_step_def run_job_def process_request_def s_def Let_def)
      ultimately show ?thesis by (intro exI [of _ 1]) simp
    next
      case (Inr resp)
      let ?ts = "answer_tasks c resp"
      let ?v = "leave_ctx t c v1"
      have k: "k < length (sv_objs ?v)" using assms(3) by (simp add: v1_def)
      have "run_events (par_machine mp) (Inr (all_idle v))
            (TakeJob t k i # replicate (Suc (Suc (length ?ts))) (Advance t)) =
          Inr (all_idle (put_session k (post_tasks ?ts (sv_objs ?v ! k)) ?v))"
        using take_it run False Inr posting_steps [OF k, of mp t ?ts]
        by (simp add: advance_halfway advance_def dispatch_job_def obj)
      moreover have "put_session k (post_tasks ?ts (sv_objs ?v ! k)) ?v =
          leave_ctx t c (put_session k (post_tasks ?ts ?s) v)"
        by (simp add: obj put_leave) (simp add: v1_def put_leave)
      moreover have "session_step mp t k (Job i) v = Inr (leave_ctx t c (put_session k (post_tasks ?ts ?s) v))"
        using run False Inr assms(4)
        by (simp add: session_step_def takes_job_def sess_step_def run_job_def process_request_def s_def Let_def
            put_session_def)
      ultimately show ?thesis by (intro exI [of _ "Suc (Suc (length ?ts))"]) simp
    qed
  qed
qed

text \<open>The loop of a read handler and its end.\<close>

lemma decoding_steps:
  assumes "codec_laws mp"
  shows "k < length (sv_objs v) \<Longrightarrow> \<not> is_closed (ss_writer s) \<Longrightarrow> ss_reading s \<Longrightarrow>
     length (u_buf (ss_unpac s)) < n \<Longrightarrow>
     \<exists>m. run_events (par_machine mp) (Inr (halfway t k Decoding (put_session k s v))) (replicate m (Advance t)) =
       (case session_decode mp n (s\<lparr>ss_reading := False\<rparr>) of
          Inl f \<Rightarrow> Inl (InSession f)
        | Inr s' \<Rightarrow> map_sum InSession (\<lambda>s'. all_idle (put_session k s' v))
            (session_do_read (s'\<lparr>ss_unpac := reserve_if_low mp (ss_unpac s')\<rparr>))) \<and>
       (\<forall>s'. session_decode mp n (s\<lparr>ss_reading := False\<rparr>) = Inr s' \<longrightarrow> \<not> is_closed (ss_writer s'))"
proof (induction n arbitrary: s)
  case (Suc n)
  show ?case
  proof (cases "unpacker_next mp (ss_unpac s)")
    case NoObject
    with Suc.prems have "run_events (par_machine mp) (Inr (halfway t k Decoding (put_session k s v))) (replicate 2 (Advance t)) =
        map_sum InSession (\<lambda>s'. all_idle (put_session k s' v))
          (session_do_read (s\<lparr>ss_reading := False, ss_unpac := reserve_if_low mp (ss_unpac s)\<rparr>))"
      by (simp add: numeral_2_eq_2 advance_halfway advance_def decode_next_def read_again_def map_sum_def
          split: sum.splits)
    with NoObject Suc.prems show ?thesis by (intro exI [of _ 2]) simp
  next
    case (NextThrows x)
    with Suc.prems have "run_events (par_machine mp) (Inr (halfway t k Decoding (put_session k s v))) (replicate 1 (Advance t)) =
        Inl (InSession (Escaped x))"
      by (simp add: advance_halfway advance_def decode_next_def)
    with NextThrows show ?thesis by (intro exI [of _ 1]) simp
  next
    case (NextObject ob u)
    let ?s = "s\<lparr>ss_unpac := u, ss_jobs := ss_jobs s @ [ob]\<rparr>"
    have "mp_parse mp (u_buf (ss_unpac s)) = Parsed ob (u_buf u)"
      using NextObject by (auto simp: unpacker_next_def split: parsed.splits)
    then have "length (u_buf (ss_unpac ?s)) < n"
      using parse_consumes [OF assms] Suc.prems(4) by fastforce
    from Suc.IH [OF Suc.prems(1) _ _ this] Suc.prems obtain m where
        "run_events (par_machine mp) (Inr (halfway t k Decoding (put_session k ?s v))) (replicate m (Advance t)) =
           (case session_decode mp n (?s\<lparr>ss_reading := False\<rparr>) of
              Inl f \<Rightarrow> Inl (InSession f)
            | Inr s' \<Rightarrow> map_sum InSession (\<lambda>s'. all_idle (put_session k s' v))
                (session_do_read (s'\<lparr>ss_unpac := reserve_if_low mp (ss_unpac s')\<rparr>)))"
        "\<forall>s'. session_decode mp n (?s\<lparr>ss_reading := False\<rparr>) = Inr s' \<longrightarrow> \<not> is_closed (ss_writer s')"
      by auto
    moreover have "session_decode mp (Suc n) (s\<lparr>ss_reading := False\<rparr>) = session_decode mp n (?s\<lparr>ss_reading := False\<rparr>)"
    proof -
      have order: "s\<lparr>ss_reading := False, ss_unpac := u, ss_jobs := js\<rparr> = s\<lparr>ss_unpac := u, ss_jobs := js, ss_reading := False\<rparr>"
        for js by simp
      show ?thesis using NextObject Suc.prems(2) by (simp add: order)
    qed
    moreover have "par_step mp (halfway t k Decoding (put_session k s v)) (Advance t) =
        Inr (halfway t k Decoding (put_session k ?s v))"
      using NextObject Suc.prems(1,2) by (simp add: advance_halfway advance_def decode_next_def)
    ultimately show ?thesis by (intro exI [of _ "Suc m"]) simp
  qed
qed simp

lemma read_steps:
  assumes "codec_laws mp" and "has_state v t Running" and "\<not> sv_stopped v" and k: "k < length (sv_objs v)"
    and reading: "ss_reading (sv_objs v ! k)"
  shows "\<exists>n. run_events (par_machine mp) (Inr (all_idle v)) (ReadChunk t k bs # replicate n (Advance t)) =
    map_sum id all_idle (session_step mp t k (Read (ReadOk bs)) v)"
proof -
  define s where "s = sv_objs v ! k"
  have t: "t < length (sv_threads v)" using assms(2) by (simp add: has_state_def)
  have ready: "chunk_ready (all_idle v) t k"
    using assms by (simp add: chunk_ready_def can_start_def reader_busy_def)
  have whole: "session_step mp t k (Read (ReadOk bs)) v =
      map_sum InSession (\<lambda>s'. put_session k s' v) (session_on_read mp (ReadOk bs) s)"
  proof -
    have "leave_ctx t (in_thread v t) (put_session k s' v) = put_session k s' v" for s'
      using leave_ctx_same [of t "put_session k s' v"] t by simp
    then show ?thesis
      using reading by (cases "session_on_read mp (ReadOk bs) s")
        (simp_all add: session_step_def takes_job_def sess_step_def s_def put_session_def)
  qed
  show ?thesis
  proof (cases "is_closed (ss_writer s)")
    case True
    then have "run_events (par_machine mp) (Inr (all_idle v)) (ReadChunk t k bs # replicate 0 (Advance t)) =
        Inr (all_idle (put_session k (s\<lparr>ss_reading := False\<rparr>) v))"
      using ready by (simp add: par_step_def chunk_arrives_def s_def all_idle_def fun_eq_iff)
    with True show ?thesis
      by (intro exI [of _ 0]) (simp add: whole session_on_read_def)
  next
    case False
    let ?s = "s\<lparr>ss_unpac := buffer_consumed bs (ss_unpac s)\<rparr>"
    have start: "par_step mp (all_idle v) (ReadChunk t k bs) = Inr (halfway t k Decoding (put_session k ?s v))"
      using ready False by (simp add: par_step_def chunk_arrives_def s_def all_idle_def halfway_def fun_eq_iff)
    let ?r = "session_decode mp (decode_fuel (?s\<lparr>ss_reading := False\<rparr>)) (?s\<lparr>ss_reading := False\<rparr>)"
    have fuel: "length (u_buf (ss_unpac ?s)) < decode_fuel (?s\<lparr>ss_reading := False\<rparr>)"
      by (simp add: decode_fuel_def)
    have "ss_reading ?s" "\<not> is_closed (ss_writer ?s)" using reading False by (simp_all add: s_def)
    from decoding_steps [OF assms(1) k this(2,1) fuel, of t] obtain m where
        m: "run_events (par_machine mp) (Inr (halfway t k Decoding (put_session k ?s v))) (replicate m (Advance t)) =
          (case ?r of Inl f \<Rightarrow> Inl (InSession f)
           | Inr s' \<Rightarrow> map_sum InSession (\<lambda>s'. all_idle (put_session k s' v))
               (session_do_read (s'\<lparr>ss_unpac := reserve_if_low mp (ss_unpac s')\<rparr>)))"
        "\<forall>s'. ?r = Inr s' \<longrightarrow> \<not> is_closed (ss_writer s')"
      by blast
    have order: "s\<lparr>ss_reading := False, ss_unpac := u\<rparr> = s\<lparr>ss_unpac := u, ss_reading := False\<rparr>" for u
      by simp
    have "session_on_read mp (ReadOk bs) s = (case ?r of Inl f \<Rightarrow> Inl f
        | Inr s' \<Rightarrow> session_do_read (s'\<lparr>ss_unpac := reserve_if_low mp (ss_unpac s')\<rparr>))"
      using False m(2) by (auto simp: session_on_read_def Let_def order split: sum.splits)
    with m(1) start show ?thesis
      by (intro exI [of _ m]) (auto simp: whole map_sum_def split: sum.splits)
  qed
qed

lemma idle_session_step:
  assumes "t < length (sv_threads v)"
    and "(\<exists>i. se = Job i \<and> length (ss_jobs (sv_objs v ! k)) \<le> i) \<or> (\<exists>rr. se = Read rr \<and> \<not> ss_reading (sv_objs v ! k))"
  shows "session_step mp t k se v = Inr v"
proof -
  have "sess_step mp (sv_disp v) (sv_objs v ! k, in_thread v t) se = Inr (sv_objs v ! k, in_thread v t)"
    "\<not> takes_job se (sv_objs v ! k)"
    using assms(2) by (auto simp: sess_step_def run_job_def takes_job_def)
  then show ?thesis using assms(2) leave_ctx_same [OF assms(1)] by (auto simp: session_step_def Let_def)
qed

lemma event_in_steps:
  assumes "codec_laws mp"
  shows "\<exists>es. run_events (par_machine mp) (Inr (all_idle v)) es = map_sum id all_idle (srv_step mp v e)"
proof (cases "runs_whole (all_idle v) e")
  case True
  then have "run_events (par_machine mp) (Inr (all_idle v)) [Whole e] = map_sum id all_idle (srv_step mp v e)"
    by (cases "srv_step mp v e") (simp_all add: par_step_def all_idle_def)
  then show ?thesis by blast
next
  case False
  then obtain t k se where e: "e = SessionStep t k se" and se: "(\<exists>i. se = Job i) \<or> (\<exists>bs. se = Read (ReadOk bs))"
    by (auto simp: runs_whole_def all_free_def reader_busy_def split: srv_event.splits sess_event.splits read_result.splits)
  have stay: ?thesis if "srv_step mp v e = Inr v"
    using that by (intro exI [of _ "[]"]) simp
  show ?thesis
  proof (cases "has_state v t Running \<and> \<not> sv_stopped v \<and> k < length (sv_objs v)")
    case True
    then have step: "srv_step mp v e = session_step mp t k se v" by (simp add: srv_step_def e)
    have t: "t < length (sv_threads v)" using True by (simp add: has_state_def)
    show ?thesis
    proof (cases "(\<exists>i. se = Job i \<and> length (ss_jobs (sv_objs v ! k)) \<le> i) \<or> (\<exists>rr. se = Read rr \<and> \<not> ss_reading (sv_objs v ! k))")
      case True
      from stay idle_session_step [OF t this] show ?thesis by (simp add: step)
    next
      case False
      with se consider i where "se = Job i" "i < length (ss_jobs (sv_objs v ! k))"
        | bs where "se = Read (ReadOk bs)" "ss_reading (sv_objs v ! k)"
        by (auto simp: not_le)
      then show ?thesis
        using True job_steps [of v t k _ mp] read_steps [OF assms, of v t k] unfolding step by cases blast+
    qed
  next
    case False
    then show ?thesis by (intro stay) (auto simp: srv_step_def e)
  qed
qed


subsection \<open>They serve in sequence, and do not crash\<close>

text \<open>C5. Linearisation. A server whose handlers run at the same time on any number of worker threads,
  interrupted by each other between any two of their steps, serves requests one after the other: the
  requests in the order in which they were dispatched lead, one at a time and each in a fresh
  context, to the application state; each session's part of them and its waiting jobs are requests
  of that session's own stream, each taken once; of their answers each is posted at most once, and
  all are when no handler is under way; each wire carries a prefix of the answers posted for its
  own session; and no call is answered twice or on another session's wire.\<close>

theorem workers_serve_in_sequence:
  assumes "codec_laws mp" and "view_laws mp" and "buffer_laws mp" and "\<forall>k. well_packed (obs k)"
    and "answers_fit mp d P obs" and "P w"
    and "\<forall>k. prefix (collected (par_step mp) (par_reads k) (Inr (all_idle (serving_with d suppress w))) es)
      (stream mp (obs k))"
    and "run_events (par_machine mp) (Inr (all_idle (serving_with d suppress w))) es = Inr p"
    and "hist = collected (par_step mp) dispatched (Inr (all_idle (serving_with d suppress w))) es"
  shows "\<exists>as posted. serve_all mp d hist w = (as, Some (sv_world (p_srv p))) \<and> P (sv_world (p_srv p)) \<and>
     mset posted \<subseteq># mset as \<and> (all_free p \<longrightarrow> mset posted = mset as) \<and>
     (\<forall>k < length (sv_objs (p_srv p)). let s = sv_objs (p_srv p) ! k in
        mset (requests_of k hist) + mset (ss_jobs s) \<subseteq># mset (obs k) \<and>
        prefix (w_wire (ss_writer s)) (map (response_data mp) (answers_for k posted)) \<and>
        mset (map r_id (answers_for k posted)) \<subseteq># mset (call_ids mp (obs k)))"
  using workers_in_sequence [OF assms] by (elim exE conjE) (intro exI conjI)


subsection \<open>Two handlers at once\<close>

text \<open>For the witnesses: the two sessions of \<open>sample_two\<close>, whose reads and jobs overlap; the request
  that is taken first is dispatched last, and its answer is posted first.\<close>

definition sample_overlap :: "par_event list" where
  "sample_overlap = map Whole [AsyncRun 2, Enter 1, Enter 2, AcceptDone 1 True, AcceptDone 2 True] @
     [ReadChunk 1 0 (stream ref_msgpack (sample_streams 0)), ReadChunk 2 1 (stream ref_msgpack (sample_streams 1)),
      Advance 1, Advance 2, Advance 2, Advance 1, Advance 1, Advance 2,
      TakeJob 1 0 0, TakeJob 2 1 0, Advance 2, Advance 1, Advance 1, Advance 1, Advance 2, Advance 2] @
     map Whole [SessionStep 1 1 Strand, SessionStep 2 1 (Wrote WriteOk), SessionStep 2 0 Strand,
       SessionStep 1 0 (Wrote WriteOk)]"

lemmas sample_overlap_simps =
  sample_overlap_def par_defs sample_streams_def sample_server_simps unpacker_next_def ref_runs
  packable_call_def dispatch_call_obj bound_call_def answer_tasks_def captured_def stopping_def
  is_empty_def not_found_response_def post_tasks_def reset_ctx_eq

lemma sample_overlap_run:
  "\<exists>p. run_events (par_machine ref_msgpack) (Inr (all_idle (serving_with sample_disp True []))) sample_overlap = Inr p \<and>
     sv_world (p_srv p) = [[MInt 2, MInt 3]] \<and> length (sv_objs (p_srv p)) = 2 \<and> all_free p \<and>
     w_wire (ss_writer (sv_objs (p_srv p) ! 0)) = [response_data ref_msgpack (make_result_handle 7 (MInt 5))]"
  by (simp add: sample_overlap_simps all_free_def)

lemma sample_overlap_reads:
  "\<forall>k. prefix (collected (par_step ref_msgpack) (par_reads k) st sample_overlap) (stream ref_msgpack (sample_streams k))"
proof
  fix k
  show "prefix (collected (par_step ref_msgpack) (par_reads k) st sample_overlap) (stream ref_msgpack (sample_streams k))"
  proof (cases "k = 0 \<or> k = 1")
    case True
    have "sample_overlap = take 5 sample_overlap @
        ReadChunk 1 0 (stream ref_msgpack (sample_streams 0)) # drop 6 sample_overlap"
      "sample_overlap = take 6 sample_overlap @
        ReadChunk 2 1 (stream ref_msgpack (sample_streams 1)) # drop 7 sample_overlap"
      by (simp_all add: sample_overlap_def)
    moreover have "par_reads 0 p e = []" if "e \<in> set (take 5 sample_overlap) \<union> set (drop 6 sample_overlap)"
      for e and p :: "'a par"
      using that by (auto simp: sample_overlap_def par_reads_def)
    moreover have "par_reads 1 p e = []" if "e \<in> set (take 6 sample_overlap) \<union> set (drop 7 sample_overlap)"
      for e and p :: "'a par"
      using that by (auto simp: sample_overlap_def par_reads_def)
    ultimately show ?thesis using True by (metis collected_chunk)
  next
    case False
    then have "collected (par_step ref_msgpack) (par_reads k) st sample_overlap = []"
      by (intro collected_silent) (auto simp: sample_overlap_def par_reads_def)
    then show ?thesis by simp
  qed
qed


theorem workers_serve_in_sequence_witness:
  "\<exists>p hist as posted. run_events (par_machine ref_msgpack) (Inr (all_idle (serving_with sample_disp True [])))
       sample_overlap = Inr p \<and>
     serve_all ref_msgpack sample_disp hist [] = (as, Some [[MInt 2, MInt 3]]) \<and> mset posted = mset as \<and>
     prefix [response_data ref_msgpack (make_result_handle 7 (MInt 5))]
       (map (response_data ref_msgpack) (answers_for 0 posted))"
proof -
  obtain p where p: "run_events (par_machine ref_msgpack) (Inr (all_idle (serving_with sample_disp True []))) sample_overlap = Inr p"
      "sv_world (p_srv p) = [[MInt 2, MInt 3]]" "length (sv_objs (p_srv p)) = 2" "all_free p"
      "w_wire (ss_writer (sv_objs (p_srv p) ! 0)) = [response_data ref_msgpack (make_result_handle 7 (MInt 5))]"
    using sample_overlap_run by blast
  have "\<forall>k. well_packed (sample_streams k)" using sample_streams_fit(3) by blast
  from workers_serve_in_sequence [OF ref_codec_laws ref_view_laws ref_buffer_laws this
      sample_streams_fit(1) TrueI sample_overlap_reads p(1) refl] p(2-5)
  show ?thesis using p(1) by (fastforce simp: Let_def)
qed


end
