(* ===== verification/WorkerFinish.thy ===== *)
theory WorkerFinish
  imports AtRest WorkerRuns
begin

section \<open>Every handler comes to its end\<close>

text \<open>
  How many steps a thread still has to take until its handler has returned: a measure of what it is in
  the middle of, which each of its own steps makes smaller and no step of another thread makes larger.
\<close>

definition steps_left :: "sess \<Rightarrow> work \<Rightarrow> nat" where
  "steps_left s wk = (case wk of
       Decoding \<Rightarrow> length (u_buf (ss_unpac s)) + 2
     | Rearming \<Rightarrow> 1
     | Taken m \<Rightarrow> 5
     | Posting ts \<Rightarrow> length ts + 1)"

definition work_left :: "'w par \<Rightarrow> nat \<Rightarrow> nat" where
  "work_left p t = (case p_work p t of None \<Rightarrow> 0 | Some (k, wk) \<Rightarrow> steps_left (sv_objs (p_srv p) ! k) wk)"

lemma work_left_none: "work_left p t = 0 \<longleftrightarrow> p_work p t = None"
  by (auto simp: work_left_def steps_left_def split: option.splits work.splits)

lemma answer_tasks_few: "length (answer_tasks c resp) \<le> 3"
  by (simp add: answer_tasks_def Let_def)

text \<open>A step of its own.\<close>

lemma advance_left:
  assumes "codec_laws mp" and "k < length (sv_objs v)" and "advance mp t k wk v = Inr (Some wk', v')"
  shows "steps_left (sv_objs v' ! k) wk' < steps_left (sv_objs v ! k) wk"
proof (cases wk)
  case Decoding
  then obtain s where s: "decode_next mp (sv_objs v ! k) = Inr (Some wk', s)" "v' = put_session k s v"
    using assms(3) by (auto simp: advance_def map_sum_def split: sum.splits)
  then show ?thesis
    using Decoding assms(2) parse_consumes [OF assms(1)]
    by (auto simp: decode_next_def unpacker_next_def steps_left_def split: parsed.splits if_splits)
next
  case Rearming
  then show ?thesis
    using assms(3) by (auto simp: advance_def read_again_def map_sum_def split: sum.splits if_splits)
next
  case (Taken m)
  then have "\<exists>ts. wk' = Posting ts \<and> length ts \<le> 3"
    using assms(3) answer_tasks_few by (auto simp: advance_def dispatch_job_def split: if_splits prod.splits sum.splits)
  then show ?thesis using Taken by (auto simp: steps_left_def)
next
  case (Posting ts)
  then show ?thesis
    using assms(3) by (auto simp: advance_def post_next_def steps_left_def split: list.splits)
qed

lemma own_step_left:
  assumes "codec_laws mp" and busy: "busy_ok p" and "p_work p t \<noteq> None" and step: "par_step mp p (Advance t) = Inr p'"
  shows "work_left p' t < work_left p t"
proof -
  obtain k wk where work: "p_work p t = Some (k, wk)" using assms(3) by auto
  then obtain x v where v: "advance mp t k wk (p_srv p) = Inr (x, v)"
      "p' = p\<lparr>p_srv := v, p_work := (p_work p)(t := map_option (Pair k) x)\<rparr>"
    using step by (auto simp: par_step_def split: sum.splits)
  show ?thesis
  proof (cases x)
    case None
    then have "work_left p' t = 0" by (simp add: v(2) work_left_none)
    moreover have "work_left p t \<noteq> 0" using assms(3) by (simp add: work_left_none)
    ultimately show ?thesis by simp
  next
    case (Some wk')
    with advance_left [OF assms(1) _ v(1) [unfolded Some]] busy_ok_facts(1) [OF busy work] work show ?thesis
      by (simp add: v(2) work_left_def)
  qed
qed

text \<open>A step of another thread.\<close>

lemma same_buffer_left:
  "(wk = Decoding \<Longrightarrow> length (u_buf (ss_unpac s')) \<le> length (u_buf (ss_unpac s))) \<Longrightarrow> steps_left s' wk \<le> steps_left s wk"
  by (cases wk) (simp_all add: steps_left_def)

lemma advance_other:
  assumes "advance mp u j wk v = Inr (x, v')" and "wk \<in> {Decoding, Rearming} \<Longrightarrow> k \<noteq> j"
  shows "ss_unpac (sv_objs v' ! k) = ss_unpac (sv_objs v ! k)"
proof (cases wk)
  case (Posting ts)
  then show ?thesis
    using assms(1) by (cases "j = k"; cases "k < length (sv_objs v)")
      (auto simp: advance_def post_next_def post_tasks_def list_update_beyond split: list.splits)
next
  case (Taken m)
  then show ?thesis
    using assms(1) by (auto simp: advance_def dispatch_job_def split: if_splits prod.splits sum.splits)
qed (use assms in \<open>auto simp: advance_def map_sum_def split: sum.splits\<close>)

lemma other_step_left:
  assumes busy: "busy_ok p" "busy_ok p'" and work: "p_work p t = Some (k, wk)"
    and step: "par_step mp p e = Inr p'" and "e \<noteq> Advance t"
  shows "p_work p' t = Some (k, wk) \<and> work_left p' t \<le> work_left p t"
proof -
  let ?buf = "\<lambda>p. u_buf (ss_unpac (sv_objs (p_srv p) ! k))"
  have kept: ?thesis if same: "p_work p' t = Some (k, wk)" and bufs: "wk = Decoding \<Longrightarrow> length (?buf p') \<le> length (?buf p)"
    using same_buffer_left [of wk, OF bufs] work by (simp add: work_left_def same)
  show ?thesis
  proof (cases e)
    case (Whole se)
    show ?thesis
    proof (cases "runs_whole p se")
      case True
      then obtain v where v: "srv_step mp (p_srv p) se = Inr v" "p' = p\<lparr>p_srv := v\<rparr>"
        using step Whole by (auto simp: par_step_def map_sum_def split: sum.splits)
      have same: "p_work p' t = Some (k, wk)" using work by (simp add: v(2))
      show ?thesis
      proof (rule kept [OF same])
        assume "wk = Decoding"
        then have reads: "k < length (sv_objs v)" "ss_reading (sv_objs v ! k)"
          using busy_ok_facts(1,2) [OF busy(2), of t k] same by (auto simp: reads_for_def v(2))
        with srv_step_bufs [OF v(1) True] show "length (?buf p') \<le> length (?buf p)"
          by (auto simp: bufs_kept_def v(2))
      qed
    qed (use kept step Whole work in \<open>simp add: par_step_def\<close>)
  next
    case (ReadChunk u j bs)
    show ?thesis
    proof (cases "chunk_ready p u j")
      case True
      then have "u \<noteq> t" using work by (auto simp: chunk_ready_def can_start_def)
      have "k \<noteq> j" if "wk = Decoding"
        using True that work busy_ok_facts(1) [OF busy(1) work] by (auto simp: chunk_ready_def reader_busy_def)
      with \<open>u \<noteq> t\<close> step ReadChunk True work show ?thesis
        by (intro kept) (auto simp: par_step_def split: prod.splits)
    qed (use kept step ReadChunk work in \<open>simp add: par_step_def\<close>)
  next
    case (TakeJob u j i)
    show ?thesis
    proof (cases "can_start p u j \<and> i < length (ss_jobs (sv_objs (p_srv p) ! j))")
      case True
      then have "u \<noteq> t" using work by (auto simp: can_start_def)
      then show ?thesis
        using step TakeJob True work by (intro kept) (auto simp: par_step_def take_job_def Let_def can_start_def nth_list_update)
    next
      case False
      with step TakeJob have "p' = p" by (auto simp: par_step_def)
      with kept work show ?thesis by simp
    qed
  next
    case (Advance u)
    then have "u \<noteq> t" using assms(5) by simp
    show ?thesis
    proof (cases "p_work p u")
      case (Some jw)
      then obtain j wk' where u: "p_work p u = Some (j, wk')" by (cases jw) simp
      then obtain x v where v: "advance mp u j wk' (p_srv p) = Inr (x, v)"
          "p' = p\<lparr>p_srv := v, p_work := (p_work p)(u := map_option (Pair j) x)\<rparr>"
        using step Advance by (auto simp: par_step_def split: sum.splits)
      have "k \<noteq> j" if "wk = Decoding" "wk' \<in> {Decoding, Rearming}"
        using that work u \<open>u \<noteq> t\<close> busy_ok_facts(3) [OF busy(1), of t j u] by (auto simp: reads_for_def)
      with advance_other [OF v(1), of k] \<open>u \<noteq> t\<close> work show ?thesis
        by (intro kept) (auto simp: v(2))
    qed (use kept step Advance work in \<open>simp add: par_step_def\<close>)
  qed
qed

text \<open>Enough steps of the thread, among any others.\<close>

lemma finishes:
  assumes laws: "codec_laws mp" "view_laws mp" "buffer_laws mp" "\<forall>k. well_packed (obs k)" and fit: "answers_fit mp d P obs"
  shows "linear mp d P obs w0 (\<lambda>k. collected (par_step mp) (par_reads k) (Inr p) es @ unread k) hist p \<Longrightarrow>
     run_events (par_machine mp) (Inr p) es = Inr p' \<Longrightarrow> work_left p t \<le> length (filter ((=) (Advance t)) es) \<Longrightarrow>
     \<exists>pre q. prefix pre es \<and> run_events (par_machine mp) (Inr p) pre = Inr q \<and> p_work q t = None"
proof (induction es arbitrary: p hist)
  case Nil
  then have "p_work p t = None" by (simp add: work_left_none)
  then show ?case by auto
next
  case (Cons e es)
  show ?case
  proof (cases "p_work p t")
    case None
    then have "prefix [] (e # es) \<and> run_events (par_machine mp) (Inr p) [] = Inr p \<and> p_work p t = None" by simp
    then show ?thesis by blast
  next
    case (Some kw)
    obtain p1 where p1: "par_step mp p e = Inr p1" "run_events (par_machine mp) (Inr p1) es = Inr p'"
      using Cons.prems(2) by (cases "par_step mp p e") simp_all
    have lin: "linear mp d P obs w0 (\<lambda>k. par_reads k p e @ (collected (par_step mp) (par_reads k) (Inr p1) es @ unread k)) hist p"
      using Cons.prems(1) p1(1) by simp
    note next_linear = par_step_linear [OF laws fit lin p1(1)]
    have busy: "busy_ok p" "busy_ok p1" using lin next_linear by (simp_all add: linear_def)
    have "work_left p1 t \<le> length (filter ((=) (Advance t)) es)"
    proof (cases "e = Advance t")
      case True
      then show ?thesis
        using own_step_left [OF laws(1) busy(1) _ p1(1) [unfolded True]] Some Cons.prems(3) by simp
    next
      case False
      obtain k wk where "p_work p t = Some (k, wk)" using Some by (cases kw) simp
      from other_step_left [OF busy this p1(1) False] False Cons.prems(3) show ?thesis by simp
    qed
    from Cons.IH [OF next_linear p1(2) this] obtain pre q where
        "prefix pre es" "run_events (par_machine mp) (Inr p1) pre = Inr q" "p_work q t = None" by blast
    then have "prefix (e # pre) (e # es) \<and> run_events (par_machine mp) (Inr p) (e # pre) = Inr q \<and> p_work q t = None"
      using p1(1) by simp
    then show ?thesis by blast
  qed
qed


text \<open>After the first 17 events of \<open>sample_overlap\<close> both threads are in the middle of a job, which they have
  dispatched; the first one still has to post the answer.\<close>

lemma sample_overlap_middle:
  "\<exists>p. run_events (par_machine ref_msgpack) (Inr (all_idle (serving_with sample_disp True []))) (take 17 sample_overlap) = Inr p \<and>
     p_work p 1 = Some (0, Posting [WriteResponse (make_result_handle 7 (MInt 5))])"
  by (simp add: sample_overlap_simps)


end
