(* ===== verification/TestProgram.thy ===== *)
theory TestProgram
  imports Response
begin

section \<open>The test program (test/test.cpp)\<close>

text \<open>
  It makes a response with a vector of two strings and packs it; what it has packed can be read
  back as that response.
\<close>

definition test_program :: "msgpack \<Rightarrow> bytes" where
  "test_program mp = response_data mp (make_result_handle 1 (MArray [MStr ''13'', MStr ''22'']))"

lemma test_program_reads:
  assumes "codec_laws mp" and "view_laws mp"
  shows "\<exists>ob. mp_parse mp (test_program mp) = Parsed ob [] \<and>
     Response_of mp ob = Inr (make_result_handle 1 (MArray [MStr ''13'', MStr ''22'']))"
proof -
  let ?r = "make_result_handle 1 (MArray [MStr ''13'', MStr ''22''])"
  have "packable (response_obj ?r)" by (simp add: packable_response_obj)
  from parse_pack_whole [OF assms(1) this] Response_of_obj [OF assms(2), of ?r] show ?thesis
    by (simp add: test_program_def response_data_def received_def)
qed

end
