(* ===== verification/SubscribeServer.thy ===== *)
theory SubscribeServer
  imports SessionSpec "HOL-Library.List_Lexorder" "HOL-Library.Char_ord" "HOL-Library.Signed_Division"
begin

section \<open>The example server (example/subscribe\_control\_server.cpp)\<close>

text \<open>
  The class Master, the two functions bound to it, and the loop of main that stops the server
  when nobody has called for ten seconds. The system clock counts nanoseconds from its epoch;
  its value when a function reads it is part of the application state. A \<open>std::set<std::string>\<close>
  is the sorted list of its elements.
\<close>

record master =
  m_clients :: "string list"
  m_last_time :: int

record app =
  app_master :: master
  app_now :: int

definition Master_new :: "int \<Rightarrow> master" where
  "Master_new now = \<lparr>m_clients = [], m_last_time = now\<rparr>"

definition update_time :: "int \<Rightarrow> master \<Rightarrow> master" where
  "update_time now m = m\<lparr>m_last_time := now\<rparr>"

definition set_insert :: "string \<Rightarrow> string list \<Rightarrow> string list" where
  "set_insert x xs = (if x \<in> set xs then xs else insort x xs)"

definition subscribe :: "int \<Rightarrow> string \<Rightarrow> master \<Rightarrow> master" where
  "subscribe now cid m = (update_time now m)\<lparr>m_clients := set_insert cid (m_clients m)\<rparr>"

definition list_clients :: "int \<Rightarrow> master \<Rightarrow> string list \<times> master" where
  "list_clients now m = (m_clients m, update_time now m)"

text \<open>
  \<open>duration_cast<milliseconds>\<close> divides towards zero, and the count is converted to \<open>uint32_t\<close>.
  The clock is read before the lock is taken and \<open>last_time_\<close> after.
\<close>

definition idle_time :: "int \<Rightarrow> master \<Rightarrow> uint32" where
  "idle_time now m = word_of_int ((now - m_last_time m) sdiv 1000000)"

definition max_idle_time :: uint32 where
  "max_idle_time = 10000"

subsection \<open>The functions it serves\<close>

definition subscribe_func :: "app bound_func" where
  "subscribe_func =
     \<lparr>fn_callable = Functor (MemFn ''lambda'' TVoid [TString] True),
      fn_body = (\<lambda>as c. (Inr MNil, (case as of
          [MStr cid] \<Rightarrow> c\<lparr>world := (world c)\<lparr>app_master :=
            subscribe (app_now (world c)) cid (app_master (world c))\<rparr>\<rparr>
        | _ \<Rightarrow> c)))\<rparr>"

definition list_func :: "app bound_func" where
  "list_func =
     \<lparr>fn_callable = Functor (MemFn ''lambda'' (TVector TString) [] True),
      fn_body = (\<lambda>as c. (case list_clients (app_now (world c)) (app_master (world c)) of
          (ids, m) \<Rightarrow> (Inr (MArray (map MStr ids)), c\<lparr>world := (world c)\<lparr>app_master := m\<rparr>\<rparr>)))\<rparr>"

text \<open>The two calls of bind in main.\<close>

definition example_dispatcher :: "msgpack \<Rightarrow> thrown + app dispatcher" where
  "example_dispatcher mp =
     (case bind mp ''subscribe'' subscribe_func Dispatcher_new of
        Inl x \<Rightarrow> Inl x
      | Inr d \<Rightarrow> bind mp ''list'' list_func d)"

subsection \<open>The loop of main\<close>

text \<open>
  In round \<open>i\<close> the loop sleeps, then looks at the master: \<open>looks i\<close> is the value of the clock and
  the master it sees. It ends with the round in which it stops the server.
\<close>

partial_function (option) watch :: "(nat \<Rightarrow> int \<times> master) \<Rightarrow> nat \<Rightarrow> nat option" where
  "watch looks i =
     (if idle_time (fst (looks i)) (snd (looks i)) > max_idle_time then Some i
      else watch looks (Suc i))"

subsection \<open>The set of clients\<close>

definition clients_inv :: "master \<Rightarrow> bool" where
  "clients_inv m \<longleftrightarrow> sorted (m_clients m) \<and> distinct (m_clients m)"

lemma set_insert_spec:
  "set (set_insert x xs) = insert x (set xs)"
  "sorted xs \<Longrightarrow> sorted (set_insert x xs)" "distinct xs \<Longrightarrow> distinct (set_insert x xs)"
  by (auto simp: set_insert_def set_insort_key sorted_insort distinct_insort)

lemma subscribe_inv: "clients_inv m \<Longrightarrow> clients_inv (subscribe now cid m)"
  by (simp add: clients_inv_def subscribe_def update_time_def set_insert_spec)

lemma clients_sorted_set: "clients_inv m \<Longrightarrow> m_clients m = sorted_list_of_set (set (m_clients m))"
  by (simp add: clients_inv_def sorted_list_of_set.idem_if_sorted_distinct)

text \<open>The abstract server: a set of names, which subscriptions add to and list reads.\<close>

datatype example_req = Subscribe string | ListCall int32

fun req_obj :: "example_req \<Rightarrow> mobj" where
  "req_obj (Subscribe cid) = notify_obj ''subscribe'' [MStr cid]"
| "req_obj (ListCall i) = call_obj i ''list'' []"

fun listings :: "string set \<Rightarrow> example_req list \<Rightarrow> response list" where
  "listings S [] = []"
| "listings S (Subscribe cid # reqs) = listings (insert cid S) reqs"
| "listings S (ListCall i # reqs) =
     make_result_handle i (MArray (map MStr (sorted_list_of_set S))) # listings S reqs"

fun subscribed :: "example_req list \<Rightarrow> string set" where
  "subscribed [] = {}"
| "subscribed (Subscribe cid # reqs) = insert cid (subscribed reqs)"
| "subscribed (ListCall i # reqs) = subscribed reqs"

text \<open>What the server relies on: a string argument is converted from a string object.\<close>

definition string_args :: "msgpack \<Rightarrow> bool" where
  "string_args mp \<longleftrightarrow> (\<forall>s. mp_as_args mp [TString] (MArray [MStr s]) = Some [MStr s])"

lemma subscribed_set: "subscribed reqs = {cid. Subscribe cid \<in> set reqs}"
  by (induction reqs rule: subscribed.induct) auto

lemma ref_string_args: "string_args ref_msgpack"
  by (simp add: string_args_def ref_msgpack_simps ref_as_args_def ref_conforms_def as_str_def)

definition example_funcs :: "msgpack \<Rightarrow> app dispatcher" where
  "example_funcs mp = store ''list'' (bound_call mp ''list'' list_func)
     (store ''subscribe'' (bound_call mp ''subscribe'' subscribe_func) Dispatcher_new)"

lemma example_dispatcher_funcs: "example_dispatcher mp = Inr (example_funcs mp)"
  by (simp add: example_dispatcher_def example_funcs_def bind_overloads_spec names_def
      Dispatcher_new_def store_def)

lemma example_lookup [simp]:
  "map_of (funcs (example_funcs mp)) ''subscribe'' = Some (bound_call mp ''subscribe'' subscribe_func)"
  "map_of (funcs (example_funcs mp)) ''list'' = Some (bound_call mp ''list'' list_func)"
  by (simp_all add: example_funcs_def store_def Dispatcher_new_def)

lemma subscribe_call:
  assumes "view_laws mp" and "string_args mp"
  shows "bound_call mp ''subscribe'' subscribe_func (MArray [MStr cid]) c = (Inr MNil,
     c\<lparr>world := (world c)\<lparr>app_master := subscribe (app_now (world c)) cid (app_master (world c))\<rparr>\<rparr>)"
proof -
  have "bound_arity subscribe_func = 1" "bound_args mp subscribe_func (MArray [MStr cid]) = Some [MStr cid]"
    "bound_result subscribe_func v = MNil" for v
    using assms(2) by (simp_all add: bound_arity_def bound_args_def subscribe_func_def decay_def
        string_args_def bound_result_def is_void_result_def)
  with assms(1) show ?thesis by (simp add: bound_call_def) (simp add: subscribe_func_def)
qed

lemma list_call:
  assumes "view_laws mp"
  shows "bound_call mp ''list'' list_func (MArray []) c =
     (Inr (MArray (map MStr (m_clients (app_master (world c))))),
      c\<lparr>world := (world c)\<lparr>app_master := update_time (app_now (world c)) (app_master (world c))\<rparr>\<rparr>)"
proof -
  have "bound_arity list_func = 0" "bound_args mp list_func (MArray []) = Some []"
    "bound_result list_func v = v" for v
    by (simp_all add: bound_arity_def bound_args_def list_func_def bound_result_def is_void_result_def)
  with assms show ?thesis by (simp add: bound_call_def) (simp add: list_func_def list_clients_def)
qed

lemma example_step:
  assumes "view_laws mp" and "string_args mp"
  shows "\<exists>c'. process_request mp (example_funcs mp) p i (req_obj q) c =
       (Inr (map WriteResponse (case q of Subscribe cid \<Rightarrow> []
          | ListCall j \<Rightarrow> [make_result_handle j (MArray (map MStr (m_clients (app_master (world c)))))])), c') \<and>
     world c' = (world c)\<lparr>app_master := (case q of
         Subscribe cid \<Rightarrow> subscribe (app_now (world c)) cid (app_master (world c))
       | ListCall j \<Rightarrow> update_time (app_now (world c)) (app_master (world c)))\<rparr>"
  using assms
  by (cases q) (simp_all add: process_request_def dispatch_notify_obj dispatch_call_obj
      subscribe_call list_call answer_tasks_def captured_def reset_ctx_eq fresh_ctx_def
      stopping_def is_empty_def)

lemma example_serve:
  assumes "view_laws mp" and "string_args mp"
  shows "clients_inv (app_master (world c)) \<Longrightarrow>
    \<exists>c'. serve mp (example_funcs mp) p i (map req_obj reqs) c =
        (listings (set (m_clients (app_master (world c)))) reqs, Some c') \<and>
      clients_inv (app_master (world c')) \<and>
      set (m_clients (app_master (world c'))) = set (m_clients (app_master (world c))) \<union> subscribed reqs"
proof (induction reqs arbitrary: c)
  case (Cons q reqs)
  obtain c1 where c1: "process_request mp (example_funcs mp) p i (req_obj q) c =
       (Inr (map WriteResponse (case q of Subscribe cid \<Rightarrow> []
          | ListCall j \<Rightarrow> [make_result_handle j (MArray (map MStr (m_clients (app_master (world c)))))])), c1)"
      "world c1 = (world c)\<lparr>app_master := (case q of
         Subscribe cid \<Rightarrow> subscribe (app_now (world c)) cid (app_master (world c))
       | ListCall j \<Rightarrow> update_time (app_now (world c)) (app_master (world c)))\<rparr>"
    using example_step [OF assms] by blast
  have inv: "clients_inv (app_master (world c1))"
    using Cons.prems c1(2) by (cases q) (simp_all add: subscribe_inv, simp add: clients_inv_def update_time_def)
  from Cons.IH [OF this] obtain c' where c': "serve mp (example_funcs mp) p i (map req_obj reqs) c1 =
        (listings (set (m_clients (app_master (world c1)))) reqs, Some c')"
      "clients_inv (app_master (world c'))"
      "set (m_clients (app_master (world c'))) = set (m_clients (app_master (world c1))) \<union> subscribed reqs"
    by blast
  show ?case
  proof (cases q)
    case (Subscribe cid)
    have "set (m_clients (app_master (world c1))) = insert cid (set (m_clients (app_master (world c))))"
      using c1(2) Subscribe by (simp add: subscribe_def update_time_def set_insert_spec)
    with c1(1) c' Subscribe show ?thesis by auto
  next
    case (ListCall j)
    have "m_clients (app_master (world c1)) = m_clients (app_master (world c))"
      using c1(2) ListCall by (simp add: update_time_def)
    with c1(1) c' ListCall clients_sorted_set [OF Cons.prems] show ?thesis by auto
  qed
qed (simp add: clients_inv_def)

lemma example_quiet:
  assumes "view_laws mp" and "string_args mp"
  shows "quiet mp (example_funcs mp) p i (map req_obj reqs) c"
proof (induction reqs arbitrary: c)
  case (Cons q reqs)
  obtain rs c' where "process_request mp (example_funcs mp) p i (req_obj q) c = (Inr (map WriteResponse rs), c')"
    using example_step [OF assms] by blast
  with Cons.IH show ?case by (simp add: only_responses_def)
qed simp

lemma example_session_run:
  assumes "codec_laws mp" and "view_laws mp" and "buffer_laws mp" and "string_args mp"
    and "\<forall>cid \<in> subscribed reqs. length cid < 2 ^ 32"
    and "concat chunks = stream mp (map req_obj reqs)"
    and "clients_inv (app_master w)" and "S = set (m_clients (app_master w))"
  shows "\<exists>d s c. example_dispatcher mp = Inr d \<and>
     run_events (sess_machine mp d) (sess_started mp suppress sid (fresh_ctx w))
       (full_schedule chunks (length reqs) (length (listings S reqs))) = Inr (s, c) \<and>
     w_wire (ss_writer s) = map (response_data mp) (listings S reqs) \<and>
     m_clients (app_master (world c)) = sorted_list_of_set (S \<union> subscribed reqs)"
proof -
  let ?d = "example_funcs mp"
  let ?c = "fresh_ctx w :: app ctx"
  let ?obs = "map req_obj reqs"
  have w: "world ?c = w" by (simp add: fresh_ctx_def)
  obtain c' where c': "serve mp ?d suppress sid ?obs ?c = (listings S reqs, Some c')"
      "clients_inv (app_master (world c'))" "set (m_clients (app_master (world c'))) = S \<union> subscribed reqs"
    using example_serve [OF assms(2,4), of ?c suppress sid reqs] assms(7,8) by (auto simp: w)
  have "packable (req_obj q)" if "q \<in> set reqs" for q
  proof (cases q)
    case (Subscribe cid)
    then have "cid \<in> subscribed reqs" using that by (simp add: subscribed_set)
    with Subscribe assms(5) show ?thesis by (simp add: packable_call_def)
  qed (simp add: packable_call_def)
  then have "well_packed ?obs" by (simp add: well_packed_def)
  moreover have "listings S reqs = answers mp ?d suppress sid ?obs ?c" using c'(1) by simp
  ultimately
  obtain s c where "run_events (sess_machine mp ?d) (sess_started mp suppress sid ?c)
       (full_schedule chunks (length reqs) (length (listings S reqs))) = Inr (s, c)"
      "w_wire (ss_writer s) = map (response_data mp) (listings S reqs)"
      "serve mp ?d suppress sid ?obs ?c = (listings S reqs, Some c)"
    using full_schedule_run [OF assms(1,3) _ example_quiet [OF assms(2,4)] assms(6)] by fastforce
  with c' clients_sorted_set [OF c'(2)] show ?thesis
    by (simp add: example_dispatcher_funcs)
qed

text \<open>The example server keeps the set of its subscribers: whatever subscribe notifications and
  list calls a client sends, in whatever pieces the network delivers them, the wire carries
  for each list call, in order, the sorted list without repetitions of exactly the names that
  the master held at first or that were subscribed before the call, and at the end the master
  holds all of them, again sorted and without repetitions.\<close>

lemma example_lists_subscribers:
  assumes "codec_laws mp" and "view_laws mp" and "buffer_laws mp" and "string_args mp"
    and "\<forall>cid \<in> subscribed reqs. length cid < 2 ^ 32"
    and "concat chunks = stream mp (map req_obj reqs)"
    and "clients_inv (app_master w)" and "S = set (m_clients (app_master w))"
  shows "\<exists>d s c. example_dispatcher mp = Inr d \<and>
     run_events (sess_machine mp d) (sess_started mp suppress sid (fresh_ctx w))
       (full_schedule chunks (length reqs) (length (listings S reqs))) = Inr (s, c) \<and>
     w_wire (ss_writer s) = map (response_data mp) (listings S reqs) \<and>
     m_clients (app_master (world c)) = sorted_list_of_set (S \<union> subscribed reqs)"
  using assms by (rule example_session_run)

text \<open>For the witness: two clients subscribe, one of them twice, and the list is asked for in
  between and at the end.\<close>

definition sample_subscriptions :: "example_req list" where
  "sample_subscriptions = [Subscribe ''b'', ListCall 1, Subscribe ''a'', Subscribe ''b'', ListCall 2]"

lemma example_lists_subscribers_example:
  "\<exists>d s c. example_dispatcher ref_msgpack = Inr d \<and>
     run_events (sess_machine ref_msgpack d)
       (sess_started ref_msgpack False 1 (fresh_ctx \<lparr>app_master = Master_new 0, app_now = 7\<rparr>))
       (full_schedule [stream ref_msgpack (map req_obj sample_subscriptions)] 5 2) = Inr (s, c) \<and>
     w_wire (ss_writer s) = map (response_data ref_msgpack)
       [make_result_handle 1 (MArray [MStr ''b'']), make_result_handle 2 (MArray [MStr ''a'', MStr ''b''])] \<and>
     m_clients (app_master (world c)) = [''a'', ''b'']"
proof -
  have ab: "sorted_list_of_set {''a'', ''b''} = [''a'', ''b'']" by code_simp
  have "listings {} sample_subscriptions =
      [make_result_handle 1 (MArray [MStr ''b'']), make_result_handle 2 (MArray [MStr ''a'', MStr ''b''])]"
    using ab by (simp add: sample_subscriptions_def insert_commute)
  moreover have "subscribed sample_subscriptions = {''a'', ''b''}"
    by (auto simp: sample_subscriptions_def)
  moreover have "length sample_subscriptions = 5" by (simp add: sample_subscriptions_def)
  ultimately show ?thesis
    using example_lists_subscribers [OF ref_codec_laws ref_view_laws ref_buffer_laws ref_string_args,
        of sample_subscriptions "[stream ref_msgpack (map req_obj sample_subscriptions)]"
        "\<lparr>app_master = Master_new 0, app_now = 7\<rparr>" "{}" False 1] ab
    by (simp add: numeral_2_eq_2 [symmetric] Master_new_def clients_inv_def)
qed

subsection \<open>When the example server stops\<close>

lemma stops_iff:
  "idle_time now m > max_idle_time \<longleftrightarrow> 10000 < ((now - m_last_time m) sdiv 1000000) mod 2 ^ 32"
  by (simp add: idle_time_def max_idle_time_def word_less_alt uint_word_of_int)

lemma sdiv_positive: "0 \<le> x \<Longrightarrow> x sdiv 1000000 = x div (1000000 :: int)"
  by (cases "x = 0") (simp_all add: signed_divide_int_def sgn_if)

lemma idle_positive:
  "0 \<le> now - m_last_time m \<Longrightarrow> now - m_last_time m < 2 ^ 32 * 1000000 \<Longrightarrow>
     idle_time now m > max_idle_time \<longleftrightarrow> 10001 * 1000000 \<le> now - m_last_time m"
proof -
  assume x: "0 \<le> now - m_last_time m" "now - m_last_time m < 2 ^ 32 * 1000000"
  then have "0 \<le> (now - m_last_time m) div 1000000" "(now - m_last_time m) div 1000000 < 2 ^ 32"
    by (simp_all add: pos_imp_zdiv_nonneg_iff)
  then have "((now - m_last_time m) sdiv 1000000) mod 2 ^ 32 = (now - m_last_time m) div 1000000"
    using x(1) by (simp add: sdiv_positive)
  then show ?thesis unfolding stops_iff by linarith
qed

lemma watch_first:
  "stop (looks j) \<Longrightarrow> i \<le> j \<Longrightarrow> (\<And>k. i \<le> k \<Longrightarrow> k < j \<Longrightarrow> \<not> stop (looks k)) \<Longrightarrow>
     stop = (\<lambda>(now, m). idle_time now m > max_idle_time) \<Longrightarrow> watch looks i = Some j"
proof (induction "j - i" arbitrary: i)
  case 0
  then show ?case by (subst watch.simps) (simp add: split_def)
next
  case (Suc n)
  have "\<not> stop (looks i)" using Suc.hyps(2) Suc.prems(3) [of i] by simp
  moreover have "watch looks (Suc i) = Some j"
    using Suc.hyps Suc.prems by (intro Suc.hyps(1)) auto
  ultimately show ?case using Suc.prems(4) by (subst watch.simps) (simp add: split_def)
qed


text \<open>The idle time wraps: when a request is served between the moment the loop reads the clock
  and the moment it takes the lock, a millisecond or more apart, the difference is negative, its
  conversion to 32 unsigned bits is enormous, and the loop stops the server that has just
  served a request.\<close>

lemma example_stops_when_busy:
  assumes "now + 1000000 \<le> served" and "served \<le> now + 3600000 * 1000000"
    and "looks i = (now, snd (list_clients served m))"
  shows "watch looks i = Some i"
proof -
  have "(now - served) sdiv 1000000 = - ((served - now) div 1000000)"
    using assms(1) by (simp add: signed_divide_int_def sgn_if)
  moreover have "1 \<le> (served - now) div 1000000" "(served - now) div 1000000 \<le> 3600000"
    using assms(1,2) by linarith+
  ultimately have "10000 < ((now - served) sdiv 1000000) mod 2 ^ 32"
    by (simp add: zmod_zminus1_eq_if)
  then have "idle_time now (snd (list_clients served m)) > max_idle_time"
    by (simp add: stops_iff list_clients_def update_time_def)
  with assms(3) show ?thesis by (subst watch.simps) simp
qed

lemma example_stops_when_busy_witness:
  "watch (\<lambda>k. (5000000000, snd (list_clients 5001000000 (Master_new 0)))) 3 = Some 3"
  by (rule example_stops_when_busy) simp_all


end
