(* ===== verification/ClientErrors.thy ===== *)
theory ClientErrors
  imports ClientSpec
begin

section \<open>Failures a client meets\<close>

subsection \<open>Reconnecting\<close>

definition failing_connects :: "(int \<times> string) list \<Rightarrow> client_event list" where
  "failing_connects errs = map (\<lambda>(code, w). ConnectDone (ConnError code w)) errs"

lemma sum_waits: "sum_list (map (\<lambda>k. reconnect_wait (int (Suc k))) [0..<n]) = 2 ^ Suc n - 2"
  by (induction n) (simp_all add: reconnect_wait_def push_bit_eq_mult)

lemma failing_connects_run:
  "c_connecting c \<Longrightarrow> 0 \<le> c_reconn c \<Longrightarrow> c_reconn c + int (length errs) \<le> 4 \<Longrightarrow>
     run_events (client_machine mp default_reconnectable) (Inr c) (failing_connects errs) =
       Inr (c\<lparr>c_reconn := c_reconn c + int (length errs)\<rparr>)"
proof (induction errs arbitrary: c)
  case Nil
  then show ?case by (simp add: failing_connects_def)
next
  case (Cons err errs)
  obtain code w where err: "err = (code, w)" by (cases err)
  have "client_step mp default_reconnectable c (ConnectDone (ConnError code w)) =
      Inr (c\<lparr>c_reconn := c_reconn c + 1\<rparr>)"
    using Cons.prems by (cases c) (simp add: client_step_def client_on_connect_def
        default_reconnectable_def max_attempt_times_def Let_def)
  with Cons.IH [of "c\<lparr>c_reconn := c_reconn c + 1\<rparr>"] Cons.prems err show ?case
    by (simp add: failing_connects_def add.assoc)
qed

text \<open>C29. With the default reconnect function a client survives four failed attempts, each time
  still connecting and in the initial state, having slept 2, 4, 8 and 16 seconds, 30 in all;
  the fifth failure leaves the connection state disconnected and throws the system error of
  that attempt out of the handler. The number of attempts is bounded.\<close>

theorem reconnect_gives_up:
  assumes "length errs \<le> 4"
  shows "\<exists>c. run_events (client_machine mp default_reconnectable) (Inr (Client_new mp 0))
       (failing_connects errs) = Inr c \<and>
     c_connecting c \<and> connection_state c = initial \<and> c_reconn c = int (length errs) \<and>
     sum_list (map (\<lambda>k. reconnect_wait (int (Suc k))) [0..<length errs]) = 2 ^ Suc (length errs) - 2 \<and>
     (length errs = 4 \<longrightarrow> (\<exists>c'. client_on_connect default_reconnectable (ConnError code w) c =
          (Inl (Escaped (SystemErr \<lparr>se_code = code, se_text = w\<rparr>)), c') \<and>
        connection_state c' = disconnected \<and> \<not> c_connecting c'))"
  using failing_connects_run [of "Client_new mp 0" errs mp] assms unfolding sum_waits
  by (simp add: connection_state_def client_on_connect_def default_reconnectable_def
      max_attempt_times_def Let_def)

theorem reconnect_gives_up_witness:
  "\<exists>c c'. run_events (client_machine ref_msgpack default_reconnectable) (Inr (Client_new ref_msgpack 0))
       (failing_connects [(1, ''a''), (2, ''b''), (3, ''c''), (4, ''d'')]) = Inr c \<and>
     sum_list (map (\<lambda>k. reconnect_wait (int (Suc k))) [0..<4]) = 30 \<and>
     client_on_connect default_reconnectable (ConnError 5 ''e'') c =
       (Inl (Escaped (SystemErr \<lparr>se_code = 5, se_text = ''e''\<rparr>)), c') \<and>
     connection_state c' = disconnected"
  using reconnect_gives_up [of "[(1, ''a''), (2, ''b''), (3, ''c''), (4, ''d'')]" ref_msgpack 5 "''e''"]
  by (auto simp: eval_nat_numeral)

subsection \<open>Timeouts\<close>

lemma settle_awaited: "awaits c i f p \<Longrightarrow> c_futures (c\<lparr>c_futures := (c_futures c)[p := st]\<rparr>) ! p = st"
  by (simp add: awaits_def)

text \<open>A synchronous call that is still unanswered when its timeout expires throws a Timeout
  that names the milliseconds and the function; the call stays registered, so the response that
  comes later is still accepted without an error, settles the abandoned future and disturbs no
  other call.\<close>

lemma timeout_then_late_response:
  assumes "awaits c (r_id resp) f p" and "client_timeout c = Some v" and "r_result resp = Some x"
  shows "(\<exists>te. call_result f p (client_timeout c) c = Some (Inl (TimeoutErr te)) \<and>
       Timeout_what te = ''rpc::timeout: Timeout of '' @ fmt_int (sint v) @
         ''ms while calling rpc function '' @ [CHR 0x27] @ f @ [CHR 0x27]) \<and>
     (\<exists>c'. handle_response resp c = Inr c' \<and>
       call_result f p (client_timeout c) c' = future_get (outcome f resp) \<and>
       (\<forall>q. q \<noteq> p \<longrightarrow> c_futures c' ! q = c_futures c ! q))"
proof -
  have "outcome f resp \<noteq> Pending" by (simp add: outcome_def split: option.splits)
  then show ?thesis
    using assms(1,2) unfolding handle_awaited [OF assms(1,3)]
    by (simp add: call_result_def throw_timeout_def Timeout_def Timeout_what_def awaits_def)
qed

lemma timeout_then_late_response_witness:
  "(\<exists>te. call_result ''f'' 0 (Some 250) (client_set_timeout 250 sample_client) =
       Some (Inl (TimeoutErr te)) \<and>
     Timeout_what te = ''rpc::timeout: Timeout of 250ms while calling rpc function '' @
       [CHR 0x27] @ ''f'' @ [CHR 0x27]) \<and>
   (\<exists>c'. handle_response (make_result 1 (MInt 5)) (client_set_timeout 250 sample_client) = Inr c' \<and>
     call_result ''f'' 0 (Some 250) c' = Some (Inr (MInt 5)))"
proof -
  have "awaits (client_set_timeout 250 sample_client) (r_id (make_result 1 (MInt 5))) ''f'' 0"
    by (simp add: awaits_def sample_client_def client_set_timeout_def)
  moreover have "client_timeout (client_set_timeout 250 sample_client) = Some 250"
    by (simp add: client_timeout_def client_set_timeout_def)
  moreover have "fmt_int (sint (250 :: 64 word)) = ''250''" by code_simp
  ultimately show ?thesis
    using timeout_then_late_response [of "client_set_timeout 250 sample_client"
        "make_result 1 (MInt 5)" "''f''" 0 250 "MInt 5"]
    by (auto simp: outcome_def)
qed

subsection \<open>A server that answers twice\<close>

text \<open>Two responses with the id of the same call in one chunk end the client's io thread: the
  first settles the promise, the entry is erased only later, and the second finds the promise
  satisfied, so that the error thrown while storing the exception leaves the read handler.\<close>

lemma duplicate_response_escapes:
  assumes "codec_laws mp" and "view_laws mp" and "packable (response_obj r1)"
    and "packable (response_obj r2)" and "r_id r2 = r_id r1" and "awaits c (r_id r1) f p"
    and "u_buf (c_unpac c) = []"
  shows "client_on_read mp (ReadOk (response_data mp r1 @ response_data mp r2)) c =
     Inl (Escaped already_satisfied)"
proof -
  let ?bs = "response_data mp r1 @ response_data mp r2"
  let ?c = "c\<lparr>c_reading := False, c_unpac := buffer_consumed ?bs (c_unpac c)\<rparr>"
  let ?u = "c_unpac ?c"
  let ?c1 = "c\<lparr>c_reading := False, c_unpac := ?u\<lparr>u_buf := response_data mp r2\<rparr>,
    c_futures := (c_futures c)[p := outcome f (received r1)],
    c_strand := c_strand c @ [EraseTask (r_id r1)]\<rparr>"
  have buf: "u_buf ?u = ?bs" using assms(7) by (simp add: buffer_consumed_def)
  have "length ?bs \<noteq> 0"
    using pack_nonempty [OF assms(1,3)] by (simp add: response_data_def)
  with buf obtain m where n: "client_fuel ?c = Suc (Suc m)"
    by (cases "length ?bs") (simp_all add: client_fuel_def)
  have "awaits (c\<lparr>c_reading := False, c_unpac := ?u\<lparr>u_buf := response_data mp r2\<rparr>\<rparr>) (r_id (received r1)) f p"
    using assms(6) by (simp add: awaits_def)
  note handle_awaited [OF this received_fields(3)]
  then have first: "handle_response (received r1)
      (c\<lparr>c_reading := False, c_unpac := ?u\<lparr>u_buf := response_data mp r2\<rparr>\<rparr>) = Inr ?c1"
    by simp
  have "outcome f (received r1) \<noteq> Pending" by (simp add: outcome_def split: option.splits)
  then have "handle_response (received r2) (?c1\<lparr>c_unpac := v\<rparr>) = Inl already_satisfied" for v
    using assms(5,6) by (cases "r_error (received r2)")
      (simp_all add: handle_response_def current_call_def settle_call_def settle_def awaits_def)
  then have "client_decode mp (client_fuel ?c) ?c = Inl (Escaped already_satisfied)"
    using buf first parse_pack [OF assms(1,3)] parse_pack_whole [OF assms(1,4)]
    unfolding n by (simp add: unpacker_next_def response_data_def Response_of_obj [OF assms(2)])
  then show ?thesis by (simp add: client_on_read_def Let_def)
qed

lemma duplicate_response_escapes_witness:
  "client_on_read ref_msgpack (ReadOk (response_data ref_msgpack (make_result 1 MNil) @
     response_data ref_msgpack (make_result 1 MNil))) sample_client = Inl (Escaped already_satisfied)"
  by (rule duplicate_response_escapes [OF ref_codec_laws ref_view_laws, where f = "''f''" and p = 0])
    (simp_all add: packable_response_obj awaits_def sample_client_def)

end
