(* ===== verification/Rpc.thy ===== *)
theory Rpc
  imports SessionSpec ClientCalls ClientErrors
begin

section \<open>A remote call from end to end\<close>

text \<open>
  A new client that calls before it is connected, the session that serves it, and the reads of
  the responses: the three machines are joined by the bytes on their wires, cut into reads in
  any way.
\<close>

definition request_objs :: "request list \<Rightarrow> mobj list" where
  "request_objs reqs = map (\<lambda>(k, f, args). call_obj (of_nat (Suc k)) f args) (enumerate 0 reqs)"

lemma request_bytes_objs: "request_bytes mp reqs = map (mp_pack mp) (request_objs reqs)"
  by (simp add: request_bytes_def request_objs_def split_def comp_def)

lemma length_request_objs [simp]: "length (request_objs reqs) = length reqs"
  by (simp add: request_objs_def)

lemma request_objs_nth:
  "k < length reqs \<Longrightarrow> request_objs reqs ! k = call_obj (of_nat (Suc k)) (fst (reqs ! k)) (snd (reqs ! k))"
  by (simp add: request_objs_def nth_enumerate_eq split_def)

lemma request_objs_packed:
  "\<forall>(f, args) \<in> set reqs. packable_call f args \<Longrightarrow> well_packed (request_objs reqs)"
  unfolding well_packed_def
  by (auto simp: in_set_conv_nth [of _ "request_objs reqs"] request_objs_nth split_def)

subsection \<open>Every call is answered by hand or by its result\<close>

text \<open>No handler of these requests disables its response or asks to close.\<close>

fun all_answered ::
  "msgpack \<Rightarrow> 'w dispatcher \<Rightarrow> bool \<Rightarrow> 64 word \<Rightarrow> mobj list \<Rightarrow> 'w ctx \<Rightarrow> bool" where
  "all_answered mp d suppress sid [] c = True"
| "all_answered mp d suppress sid (m # ms) c = (case process_request mp d suppress sid m c of
       (Inr [WriteResponse r], c') \<Rightarrow> all_answered mp d suppress sid ms c'
     | _ \<Rightarrow> False)"

lemma all_answered_cases:
  assumes "all_answered mp d p i (m # ms) c"
  obtains r c' where "process_request mp d p i m c = (Inr [WriteResponse r], c')"
    "all_answered mp d p i ms c'"
  using assms by (auto split: prod.splits sum.splits list.splits session_task.splits)

lemma all_answered_quiet: "all_answered mp d p i ms c \<Longrightarrow> quiet mp d p i ms c"
proof (induction ms arbitrary: c)
  case (Cons m ms)
  from Cons.prems obtain r c' where "process_request mp d p i m c = (Inr [WriteResponse r], c')"
    "all_answered mp d p i ms c'" by (rule all_answered_cases)
  with Cons.IH show ?case by (simp add: only_responses_def)
qed simp

lemma answers_match:
  "all_answered mp d p i ms c \<Longrightarrow>
     list_all2 (\<lambda>m r. \<exists>code name args. mp_as_call mp m = Some (code, r_id r, name, args))
       ms (answers mp d p i ms c)"
proof (induction ms arbitrary: c)
  case (Cons m ms)
  from Cons.prems obtain r c' where step: "process_request mp d p i m c = (Inr [WriteResponse r], c')"
    "all_answered mp d p i ms c'" by (rule all_answered_cases)
  from answer_shape [OF step(1)] obtain rs closes where shape:
      "[WriteResponse r] = map WriteResponse rs @ closes" "set closes \<subseteq> {CloseTask, CloseSessionsTask}"
      "\<forall>r \<in> set rs. \<exists>code name args. mp_as_call mp m = Some (code, r_id r, name, args)"
    by blast
  then have "rs = [r]" by (cases rs) auto
  with shape(3) step Cons.IH [OF step(2)] show ?case by (simp add: prod.case_eq_if)
qed simp

lemma answer_ids:
  assumes "view_laws mp" and "all_answered mp d p i (request_objs reqs) c" and "k < length reqs"
  shows "r_id (answers mp d p i (request_objs reqs) c ! k) = of_nat (Suc k)"
  using list_all2_nthD [OF answers_match [OF assms(2)], of k] assms(1,3)
  by (simp add: request_objs_nth)

subsection \<open>The client expects the answers\<close>

lemma register_frame:
  "(\<forall>k < length reqs. j \<noteq> idx + of_nat (Suc k)) \<Longrightarrow> register idx p reqs m j = m j"
proof (induction reqs arbitrary: idx p m)
  case (Cons req reqs)
  obtain f args where req: "req = (f, args)" by (cases req)
  have "j \<noteq> idx + 1" using Cons.prems by (auto dest: spec [of _ 0])
  moreover have "\<forall>k < length reqs. j \<noteq> idx + 1 + of_nat (Suc k)"
  proof (intro allI impI)
    fix k assume "k < length reqs"
    then have "j \<noteq> idx + of_nat (Suc (Suc k))" using Cons.prems by auto
    then show "j \<noteq> idx + 1 + of_nat (Suc k)" by (simp add: add_ac)
  qed
  ultimately show ?case using Cons.IH [of "idx + 1" "Suc p"] req by simp
qed simp

lemma register_nth:
  "length reqs \<le> 2 ^ 32 \<Longrightarrow> k < length reqs \<Longrightarrow>
     register idx p reqs m (idx + of_nat (Suc k)) = Some (fst (reqs ! k), p + k)"
proof (induction reqs arbitrary: idx p m k)
  case (Cons req reqs)
  obtain f args where req: "req = (f, args)" by (cases req)
  show ?case
  proof (cases k)
    case 0
    have "idx + 1 \<noteq> idx + 1 + of_nat (Suc j)" if "j < length reqs" for j
      using of_nat_word_inject [of "Suc j" 0] that Cons.prems(1) by simp
    then show ?thesis using 0 register_frame [of reqs "idx + 1" "idx + 1"] by (simp add: req)
  next
    case (Suc j)
    with Cons.IH [of j "idx + 1" "Suc p" "m(idx + 1 \<mapsto> (f, p))"] Cons.prems show ?thesis
      by (simp add: req add_ac fun_upd_def)
  qed
qed simp

lemma early_client_expects:
  assumes "length reqs \<le> 2 ^ 32" and "length rs = length reqs"
    and "\<And>k. k < length reqs \<Longrightarrow> r_id (rs ! k) = of_nat (Suc k)"
    and "c_ongoing c = register 0 0 reqs Map.empty" and "c_futures c = replicate (length reqs) Pending"
  shows "expecting c rs"
    and "settled c rs = map2 (\<lambda>(f, args) r. outcome f (received r)) reqs rs"
proof -
  have at: "promise_for c (rs ! k) = k" "name_for c (rs ! k) = fst (reqs ! k)"
    "awaits c (r_id (rs ! k)) (name_for c (rs ! k)) (promise_for c (rs ! k))" if "k < length reqs" for k
  proof -
    have reg: "c_ongoing c (r_id (rs ! k)) = Some (fst (reqs ! k), k)"
      using register_nth [OF assms(1) that, of 0 0 Map.empty] assms(3) [OF that] assms(4) by simp
    then show "promise_for c (rs ! k) = k" "name_for c (rs ! k) = fst (reqs ! k)"
      "awaits c (r_id (rs ! k)) (name_for c (rs ! k)) (promise_for c (rs ! k))"
      using that assms(5) by (simp_all add: promise_for_def name_for_def awaits_def)
  qed
  have "map (promise_for c) rs = [0..<length reqs]"
    using at(1) assms(2) by (intro nth_equalityI) simp_all
  then show ex: "expecting c rs"
    using at(3) assms(2) by (auto simp: expecting_def in_set_conv_nth [of _ rs])
  show "settled c rs = map2 (\<lambda>(f, args) r. outcome f (received r)) reqs rs"
  proof (rule nth_equalityI)
    show "length (settled c rs) = length (map2 (\<lambda>(f, args) r. outcome f (received r)) reqs rs)"
      using settled_nth [OF ex] assms(2,5) by simp
    fix k assume "k < length (settled c rs)"
    then have k: "k < length reqs" using settled_nth [OF ex] assms(5) by simp
    then have "settled c rs ! promise_for c (rs ! k) =
        outcome (name_for c (rs ! k)) (received (rs ! k))"
      using settled_nth [OF ex] assms(2) by simp
    with at(1,2) [OF k] k assms(2)
    show "settled c rs ! k = map2 (\<lambda>(f, args) r. outcome f (received r)) reqs rs ! k"
      by (simp add: split_def)
  qed
qed

subsection \<open>The theorem\<close>

definition client_reads :: "bytes list \<Rightarrow> client_event list" where
  "client_reads chunks = map (\<lambda>bs. ClientRead (ReadOk bs)) chunks"

lemma client_writes:
  "writer_open (c_writer c) \<Longrightarrow>
     run_events (client_machine mp recon) (Inr c) (replicate n (ClientWrote WriteOk)) =
       Inr (c\<lparr>c_writer := (transfer mp ^^ n) (c_writer c)\<rparr>)"
proof (induction n arbitrary: c)
  case 0
  then show ?case by (cases c; simp)
next
  case (Suc n)
  let ?c = "c\<lparr>c_writer := transfer mp (c_writer c)\<rparr>"
  have "client_step mp recon c (ClientWrote WriteOk) = Inr ?c"
    using Suc.prems by (simp add: client_step_def client_on_write_def complete_open)
  moreover have "writer_open (c_writer ?c)" using Suc.prems chan.ready_deliver by simp
  ultimately show ?case using Suc.IH [of ?c] by (simp add: funpow_swap1)
qed

lemma sent_stream: "concat (map (mp_pack mp) obs) = stream mp obs"
  by (simp add: stream_def)

lemma early_calls_on_wire:
  assumes "buffer_laws mp" and "length reqs \<le> 2 ^ 32"
  shows "\<exists>c. run_events (client_machine mp recon) (Inr (Client_new mp r))
       (early_calls reqs @ replicate (length reqs) (ClientWrote WriteOk)) = Inr c \<and>
     w_wire (c_writer c) = map (mp_pack mp) (request_objs reqs) \<and> c_reading c \<and>
     u_buf (c_unpac c) = [] \<and> c_ongoing c = register 0 0 reqs Map.empty \<and>
     c_futures c = replicate (length reqs) Pending"
proof -
  let ?w = "fold put_message (request_bytes mp reqs) (AsyncWriter_new :: unit writer)"
  have "w_wire ((transfer mp ^^ length (request_bytes mp reqs)) ?w) = request_bytes mp reqs"
    using chan.drained [where q = "AsyncWriter_new :: unit writer" and mp = mp and
        bs = "request_bytes mp reqs"]
    by (simp add: writer_open_def AsyncWriter_new_def)
  then show ?thesis
    by (simp add: early_calls_run [OF assms] client_writes put_all_new request_bytes_objs)
qed

lemma rpc_run:
  assumes "codec_laws mp" and "view_laws mp" and "buffer_laws mp"
    and "length reqs \<le> 2 ^ 32" and "\<forall>(f, args) \<in> set reqs. packable_call f args"
    and "all_answered mp d suppress sid (request_objs reqs) c0"
    and "sendable mp (answers mp d suppress sid (request_objs reqs) c0)"
  shows "\<exists>cl. run_events (client_machine mp recon) (Inr (Client_new mp r))
       (early_calls reqs @ replicate (length reqs) (ClientWrote WriteOk)) = Inr cl \<and>
     (\<forall>chunks. concat chunks = concat (w_wire (c_writer cl)) \<longrightarrow>
       (\<exists>s c. run_events (sess_machine mp d) (sess_started mp suppress sid c0)
           (full_schedule chunks (length reqs) (length reqs)) = Inr (s, c) \<and>
         (\<forall>chunks'. concat chunks' = concat (w_wire (ss_writer s)) \<longrightarrow>
           (\<exists>cl'. run_events (client_machine mp recon) (Inr cl) (client_reads chunks') = Inr cl' \<and>
             c_futures cl' = map2 (\<lambda>(f, args) resp. outcome f (received resp)) reqs
               (answers mp d suppress sid (request_objs reqs) c0)))))"
proof -
  let ?rs = "answers mp d suppress sid (request_objs reqs) c0"
  obtain cl where cl: "run_events (client_machine mp recon) (Inr (Client_new mp r))
       (early_calls reqs @ replicate (length reqs) (ClientWrote WriteOk)) = Inr cl"
      "w_wire (c_writer cl) = map (mp_pack mp) (request_objs reqs)" "c_reading cl"
      "u_buf (c_unpac cl) = []" "c_ongoing cl = register 0 0 reqs Map.empty"
      "c_futures cl = replicate (length reqs) Pending"
    using early_calls_on_wire [OF assms(3,4), of recon r] by blast
  have len: "length ?rs = length reqs"
    using list_all2_lengthD [OF answers_match [OF assms(6)]] by simp
  note ex = early_client_expects [OF assms(4) len answer_ids [OF assms(2,6)] cl(5,6)]
  have client: "\<exists>cl'. run_events (client_machine mp recon) (Inr cl) (client_reads chunks') = Inr cl' \<and>
      c_futures cl' = map2 (\<lambda>(f, args) resp. outcome f (received resp)) reqs ?rs"
    if "concat chunks' = stream mp (map response_obj ?rs)" for chunks'
    using client_read_all [OF assms(1-3) _ ex(1) cl(3), of chunks' recon] cl(4) that assms(7)
      parse_empty [OF assms(1)]
    by (auto simp: client_reads_def sendable_def ex(2))
  have "\<exists>s c. run_events (sess_machine mp d) (sess_started mp suppress sid c0)
      (full_schedule chunks (length reqs) (length reqs)) = Inr (s, c) \<and>
      concat (w_wire (ss_writer s)) = stream mp (map response_obj ?rs)"
    if "concat chunks = stream mp (request_objs reqs)" for chunks
    using full_schedule_run [OF assms(1,3) request_objs_packed [OF assms(5)]
        all_answered_quiet [OF assms(6)] that refl] len
    by (auto simp: stream_def response_data_def [abs_def] comp_def)
  with client cl(1,2) show ?thesis by (fastforce simp: sent_stream)
qed


text \<open>The witness: a call of the bound addition and a call of an unbound name.\<close>

definition sample_reqs :: "request list" where
  "sample_reqs = [(''add'', [MInt 2, MInt 3]), (''sub'', [])]"

lemma sample_reqs_objs:
  "request_objs sample_reqs = [call_obj 1 ''add'' [MInt 2, MInt 3], call_obj 2 ''sub'' []]"
  by (simp add: request_objs_def sample_reqs_def)

lemma sample_reqs_served:
  "process_request ref_msgpack sample_disp p i (call_obj 1 ''add'' [MInt 2, MInt 3]) c =
     (Inr [WriteResponse (make_result_handle 1 (MInt 5))],
      (reset_ctx i c)\<lparr>world := world c @ [[MInt 2, MInt 3]]\<rparr>)"
  "process_request ref_msgpack sample_disp p i (call_obj 2 ''sub'' []) c =
     (Inr [WriteResponse (not_found_response ref_msgpack 2 ''sub'' (call_obj 2 ''sub'' []))],
      reset_ctx i c)"
  by (simp_all add: process_request_def dispatch_call_obj bound_call_def
      answer_tasks_def captured_def reset_ctx_eq fresh_ctx_def stopping_def is_empty_def
      not_found_response_def)

lemma sample_reqs_answers:
  "answers ref_msgpack sample_disp p i (request_objs sample_reqs) c =
     [make_result_handle 1 (MInt 5), not_found_response ref_msgpack 2 ''sub'' (call_obj 2 ''sub'' [])]"
  by (simp add: sample_reqs_objs sample_reqs_served)


end
