(* ===== verification/SubscribeClient.thy ===== *)
theory SubscribeClient
  imports SubscribeServer Rpc
begin

section \<open>The example client (example/subscribe\_client.cpp)\<close>

text \<open>
  What one thread of the example client does with its client: it sends the notification, calls
  list, and later waits for the future, which is number 0 of a new client.
\<close>

definition test_func :: "string \<Rightarrow> client_event list" where
  "test_func id_str = [AppNotify ''subscribe'' [MStr id_str], AppCall ''list'' []]"

definition list_result :: "'r client \<Rightarrow> (thrown + mobj) option" where
  "list_result c = future_get (c_futures c ! 0)"

text \<open>
  What the thread prints then: the time point, as \<open>day\<close> and \<open>clock\<close> print it, and the names. The
  conversion of the object to a vector of strings is a parameter. An exception leaves the
  function of the thread, which terminates the program before the catch clause of main can see
  it.
\<close>

datatype thread_end = Returns string | Terminates thrown

definition list_line :: "string \<Rightarrow> string \<Rightarrow> string list \<Rightarrow> string" where
  "list_line day clock ids = ''[client] '' @ day @ ''T'' @ clock @ ''Z - now subscribed clients: '' @
     concat (map (\<lambda>i. i @ '','') ids) @ [CHR 0x0A]"

definition test_func_ends ::
  "msgpack \<Rightarrow> (mobj \<Rightarrow> string list option) \<Rightarrow> string \<Rightarrow> string \<Rightarrow> 'r client \<Rightarrow> thread_end option" where
  "test_func_ends mp as_strings day clock c = (case list_result c of
       None \<Rightarrow> None
     | Some (Inl x) \<Rightarrow> Some (Terminates x)
     | Some (Inr v) \<Rightarrow> Some (case as_strings v of
           None \<Rightarrow> Terminates (StdException (mp_type_error mp))
         | Some ids \<Rightarrow> Returns (list_line day clock ids)))"

text \<open>The value of main, which joins the five threads; nothing when the program is terminated.\<close>

definition client_threads :: nat where
  "client_threads = 5"

definition client_main :: "(nat \<Rightarrow> thread_end) \<Rightarrow> int option" where
  "client_main ends = (if \<forall>i \<in> {..<client_threads}. \<exists>line. ends i = Returns line then Some 0 else None)"

text \<open>An error answer, such as that of a server without the function, ends the program.\<close>

lemma error_ends_example:
  assumes "c_futures c ! 0 = HasException x" and "i < client_threads"
    and "Some (ends i) = test_func_ends mp as_strings day clock c"
  shows "client_main ends = None"
proof -
  have "ends i = Terminates x" using assms(1,3) by (simp add: test_func_ends_def list_result_def)
  with assms(2) show ?thesis by (force simp: client_main_def)
qed

lemma example_client_run:
  assumes "buffer_laws mp"
  shows "\<exists>c. run_events (client_machine mp recon) (Inr (Client_new mp r))
      (ConnectDone ConnOk # ClientStrand # test_func cid @
       [ClientStrand, ClientStrand, ClientWrote WriteOk, ClientWrote WriteOk]) = Inr c \<and>
    w_wire (c_writer c) = map (mp_pack mp) (map req_obj [Subscribe cid, ListCall 1]) \<and>
    c_reading c \<and> u_buf (c_unpac c) = [] \<and> c_ongoing c = [1 \<mapsto> (''list'', 0)] \<and> c_futures c = [Pending]"
proof -
  have "\<not> u_cap (unpacker_new mp) < max_read_bytes" using unpacker_new_cap [OF assms] by simp
  then show ?thesis
    by (simp add: test_func_def client_step_def handler_defs AsyncWriter_new_def Let_def)
qed

lemma example_client_reads:
  assumes "codec_laws mp" and "view_laws mp" and "buffer_laws mp"
    and "c_ongoing c = [1 \<mapsto> (''list'', 0)]" and "c_futures c = [Pending]" and "c_reading c"
    and "u_buf (c_unpac c) = []" and "packable v"
    and "concat chunks = response_data mp (make_result_handle 1 v)"
  shows "\<exists>c'. run_events (client_machine mp recon) (Inr c) (client_reads chunks) = Inr c' \<and>
     list_result c' = Some (Inr v)"
proof -
  let ?r = "make_result_handle 1 v"
  have ex: "expecting c [?r]" and at: "promise_for c ?r = 0"
    using assms(4,5) by (simp_all add: expecting_def awaits_def promise_for_def name_for_def)
  have "concat chunks = stream mp (map response_obj [?r])"
    using assms(9) by (simp add: stream_def response_data_def)
  with client_read_all [OF assms(1-3) _ ex assms(6), of chunks recon] assms(7,8) parse_empty [OF assms(1)]
  obtain u where "run_events (client_machine mp recon) (Inr c) (client_reads chunks) =
      Inr ((after_responses [?r] c)\<lparr>c_reading := True, c_unpac := u\<rparr>)"
    by (auto simp: client_reads_def packable_response_obj)
  moreover have "settled c [?r] = [HasValue v]"
    using assms(5) at by (simp add: settled_def outcome_def)
  then have "list_result ((after_responses [?r] c)\<lparr>c_reading := True, c_unpac := u\<rparr>) = Some (Inr v)"
    by (simp add: list_result_def)
  ultimately show ?thesis by blast
qed

text \<open>What a session of the example server answers to that client.\<close>

lemma example_session_answers:
  assumes "codec_laws mp" and "view_laws mp" and "buffer_laws mp" and "string_args mp"
    and str: "concat chunks = stream mp (map req_obj [Subscribe cid, ListCall 1])"
    and "clients_inv (app_master w)" and "S = insert cid (set (m_clients (app_master w)))"
    and "\<forall>x \<in> S. length x < 2 ^ 32"
  shows "\<exists>s c. run_events (sess_machine mp (example_funcs mp))
       (sess_started mp suppress sid (fresh_ctx w)) (full_schedule chunks 2 1) = Inr (s, c) \<and>
     w_wire (ss_writer s) = [response_data mp (make_result_handle 1 (MArray (map MStr (sorted_list_of_set S))))]"
proof -
  let ?reqs = "[Subscribe cid, ListCall 1]"
  let ?ls = "listings (set (m_clients (app_master w))) ?reqs"
  have 1: "\<forall>x \<in> subscribed ?reqs. length x < 2 ^ 32" using assms(7,8) by simp
  have 2: "?ls = [make_result_handle 1 (MArray (map MStr (sorted_list_of_set S)))]" using assms(7) by simp
  obtain d s c where d: "example_dispatcher mp = Inr d"
      "run_events (sess_machine mp d) (sess_started mp suppress sid (fresh_ctx w))
         (full_schedule chunks (length ?reqs) (length ?ls)) = Inr (s, c)"
      "w_wire (ss_writer s) = map (response_data mp) ?ls"
    using example_session_run [OF assms(1-4) 1 str assms(6) refl, of suppress sid]
    by (elim exE conjE) (rule that)
  then show ?thesis
    unfolding 2 by (intro exI [of _ s] exI [of _ c]) (simp add: example_dispatcher_funcs numeral_2_eq_2)
qed

text \<open>C15. The two examples together: a client that is connected subscribes its name and asks for the
  list; a session of the example server, whose master already holds any set of clients, serves
  what the client has put on the wire; and the client that reads the answer, every wire cut
  into reads in any way, finds in its future the sorted list of the clients there were and its
  own name, and prints it.\<close>

theorem example_end_to_end:
  assumes "codec_laws mp" and "view_laws mp" and "buffer_laws mp" and "string_args mp"
    and "\<And>xs. as_strings (MArray (map MStr xs)) = Some xs"
    and "clients_inv (app_master w)" and "S = insert cid (set (m_clients (app_master w)))"
    and "\<forall>x \<in> S. length x < 2 ^ 32" and "card S < 2 ^ 32"
  shows "\<exists>cl d. example_dispatcher mp = Inr d \<and>
     run_events (client_machine mp recon) (Inr (Client_new mp r))
       (ConnectDone ConnOk # ClientStrand # test_func cid @
        [ClientStrand, ClientStrand, ClientWrote WriteOk, ClientWrote WriteOk]) = Inr cl \<and>
     (\<forall>chunks. concat chunks = concat (w_wire (c_writer cl)) \<longrightarrow>
       (\<exists>s c. run_events (sess_machine mp d) (sess_started mp suppress sid (fresh_ctx w))
           (full_schedule chunks 2 1) = Inr (s, c) \<and>
         (\<forall>chunks'. concat chunks' = concat (w_wire (ss_writer s)) \<longrightarrow>
           (\<exists>cl'. run_events (client_machine mp recon) (Inr cl) (client_reads chunks') = Inr cl' \<and>
             list_result cl' = Some (Inr (MArray (map MStr (sorted_list_of_set S)))) \<and>
             test_func_ends mp as_strings day clock cl' =
               Some (Returns (list_line day clock (sorted_list_of_set S)))))))"
proof -
  let ?reqs = "[Subscribe cid, ListCall 1]"
  let ?v = "MArray (map MStr (sorted_list_of_set S))"
  have "finite S" using assms(7) by simp
  then have "packable ?v" using assms(8,9) by simp
  obtain cl where cl: "run_events (client_machine mp recon) (Inr (Client_new mp r))
       (ConnectDone ConnOk # ClientStrand # test_func cid @
        [ClientStrand, ClientStrand, ClientWrote WriteOk, ClientWrote WriteOk]) = Inr cl"
      "w_wire (c_writer cl) = map (mp_pack mp) (map req_obj ?reqs)" "c_reading cl"
      "u_buf (c_unpac cl) = []" "c_ongoing cl = [1 \<mapsto> (''list'', 0)]" "c_futures cl = [Pending]"
    using example_client_run [OF assms(3), of recon r cid] by (elim exE conjE) (rule that)
  note reads = example_client_reads [OF assms(1-3) cl(5,6,3,4) \<open>packable ?v\<close>]
  have all: "\<exists>s c. run_events (sess_machine mp (example_funcs mp))
         (sess_started mp suppress sid (fresh_ctx w)) (full_schedule chunks 2 1) = Inr (s, c) \<and>
      (\<forall>chunks'. concat chunks' = concat (w_wire (ss_writer s)) \<longrightarrow>
         (\<exists>cl'. run_events (client_machine mp recon) (Inr cl) (client_reads chunks') = Inr cl' \<and>
             list_result cl' = Some (Inr ?v) \<and>
             test_func_ends mp as_strings day clock cl' =
               Some (Returns (list_line day clock (sorted_list_of_set S)))))"
    if "concat chunks = concat (w_wire (c_writer cl))" for chunks
  proof -
    have "concat chunks = stream mp (map req_obj ?reqs)" using that cl(2) by (simp add: stream_def)
    then obtain s c where "run_events (sess_machine mp (example_funcs mp))
         (sess_started mp suppress sid (fresh_ctx w)) (full_schedule chunks 2 1) = Inr (s, c)"
        "w_wire (ss_writer s) = [response_data mp (make_result_handle 1 ?v)]"
      using example_session_answers [OF assms(1-4) _ assms(6-8)] by blast
    moreover have "test_func_ends mp as_strings day clock c' = Some (Returns (list_line day clock (sorted_list_of_set S)))"
      if "list_result c' = Some (Inr ?v)" for c' :: "'b client"
      using that by (simp add: test_func_ends_def assms(5))
    ultimately show ?thesis using reads by (intro exI [of _ s] exI [of _ c]) (simp, blast)
  qed
  show ?thesis
    by (intro exI [of _ cl] exI [of _ "example_funcs mp"] conjI example_dispatcher_funcs cl(1) allI impI all)
qed

text \<open>For the witness: the client ''b'' meets a master that holds ''a'' and ''c''.\<close>

definition sample_app :: app where
  "sample_app = \<lparr>app_master = (Master_new 0)\<lparr>m_clients := [''a'', ''c'']\<rparr>, app_now = 7\<rparr>"

text \<open>For the witness: vectors of strings.\<close>

fun ref_string :: "mobj \<Rightarrow> string option" where
  "ref_string (MStr s) = Some s"
| "ref_string _ = None"

definition ref_strings :: "mobj \<Rightarrow> string list option" where
  "ref_strings m = (case m of MArray xs \<Rightarrow> those (map ref_string xs) | _ \<Rightarrow> None)"

lemma ref_strings_array [simp]: "ref_strings (MArray (map MStr xs)) = Some xs"
proof -
  have "those (map (ref_string \<circ> MStr) xs) = Some xs" by (induction xs) simp_all
  then show ?thesis by (simp add: ref_strings_def)
qed

theorem example_end_to_end_witness:
  "\<exists>cl d s c cl'. example_dispatcher ref_msgpack = Inr d \<and>
     run_events (client_machine ref_msgpack default_reconnectable) (Inr (Client_new ref_msgpack 0))
       (ConnectDone ConnOk # ClientStrand # test_func ''b'' @
        [ClientStrand, ClientStrand, ClientWrote WriteOk, ClientWrote WriteOk]) = Inr cl \<and>
     run_events (sess_machine ref_msgpack d) (sess_started ref_msgpack True 1 (fresh_ctx sample_app))
       (full_schedule (w_wire (c_writer cl)) 2 1) = Inr (s, c) \<and>
     run_events (client_machine ref_msgpack default_reconnectable) (Inr cl)
       (client_reads (w_wire (ss_writer s))) = Inr cl' \<and>
     list_result cl' = Some (Inr (MArray [MStr ''a'', MStr ''b'', MStr ''c''])) \<and>
     test_func_ends ref_msgpack ref_strings ''2025-01-31'' ''10:00:00'' cl' = Some (Returns
       (''[client] 2025-01-31T10:00:00Z - now subscribed clients: a,b,c,'' @ [CHR 0x0A]))"
proof -
  have abc: "sorted_list_of_set {''b'', ''a'', ''c''} = [''a'', ''b'', ''c'']" by code_simp
  have "sorted [''a'', ''c'']" by code_simp
  then have 1: "clients_inv (app_master sample_app)"
    by (simp add: clients_inv_def sample_app_def Master_new_def)
  have 2: "{''b'', ''a'', ''c''} = insert ''b'' (set (m_clients (app_master sample_app)))"
    by (simp add: sample_app_def Master_new_def)
  have 3: "\<forall>x \<in> {''b'', ''a'', ''c''}. length x < 2 ^ 32" "card {''b'', ''a'', ''c''} < 2 ^ 32" by simp_all
  from example_end_to_end [OF ref_codec_laws ref_view_laws ref_buffer_laws ref_string_args ref_strings_array 1 2 3,
      of default_reconnectable 0 True 1 "''2025-01-31''" "''10:00:00''"] show ?thesis
    unfolding abc by (auto simp del: run_events.simps simp: list_line_def)
qed

end
