(* ===== verification/SubscribeMany.thy ===== *)
theory SubscribeMany
  imports SubscribeServer WorkerServes
begin

section \<open>The example server with many clients\<close>

text \<open>
  The example server under any number of clients and worker threads. Its abstract specification
  is the set of names again, now with the session that asked: the server theorems give a
  sequence in which the requests were served, and on it the example functions refine the set.
\<close>

fun listings_all :: "string set \<Rightarrow> (nat \<times> example_req) list \<Rightarrow> (nat \<times> response) list" where
  "listings_all S [] = []"
| "listings_all S ((k, Subscribe cid) # qs) = listings_all (insert cid S) qs"
| "listings_all S ((k, ListCall i) # qs) =
     (k, make_result_handle i (MArray (map MStr (sorted_list_of_set S)))) # listings_all S qs"

text \<open>A served request of the example server and the message it stands for.\<close>

definition served_req :: "nat \<times> bool \<times> example_req \<Rightarrow> served" where
  "served_req h = (case h of (k, p, q) \<Rightarrow> (k, p, req_obj q))"

definition asked :: "nat \<times> bool \<times> example_req \<Rightarrow> nat \<times> example_req" where
  "asked h = (case h of (k, p, q) \<Rightarrow> (k, q))"

definition reqs_of :: "nat \<Rightarrow> (nat \<times> example_req) list \<Rightarrow> example_req list" where
  "reqs_of k qs = map snd (filter (\<lambda>q. fst q = k) qs)"

lemma served_simps [simp]: "served_req (k, p, q) = (k, p, req_obj q)" "asked (k, p, q) = (k, q)"
  by (simp_all add: served_req_def asked_def)

lemma inj_req_obj: "inj req_obj"
proof (rule injI)
  fix q q' assume "req_obj q = req_obj q'"
  moreover have "sint i = sint j \<Longrightarrow> i = j" for i j :: int32 by (metis word_of_sint32)
  ultimately show "q = q'"
    by (cases q; cases q') (auto simp: call_obj_def notify_obj_def)
qed

lemma requests_of_served: "requests_of k (map served_req hs) = map req_obj (reqs_of k (map asked hs))"
  by (induction hs) (auto simp: served_req_def asked_def reqs_of_def)

lemma world_fresh: "world (fresh_ctx w) = w"
  by (simp add: fresh_ctx_def)

lemmas example_step_fresh = example_step [where c = "fresh_ctx w" for w, unfolded world_fresh]

lemma example_serve_all:
  assumes "view_laws mp" and "string_args mp"
  shows "clients_inv (app_master w) \<Longrightarrow>
    \<exists>w'. serve_all mp (example_funcs mp) (map served_req hs) w =
        (listings_all (set (m_clients (app_master w))) (map asked hs), Some w') \<and>
      clients_inv (app_master w') \<and>
      set (m_clients (app_master w')) = set (m_clients (app_master w)) \<union> subscribed (map (snd \<circ> asked) hs)"
proof (induction hs arbitrary: w)
  case (Cons h hs)
  obtain k p q where h: "h = (k, p, q)" by (cases h)
  let ?m = "app_master w"
  obtain c where c: "process_request mp (example_funcs mp) p (of_nat k) (req_obj q) (fresh_ctx w) =
       (Inr (map WriteResponse (case q of Subscribe cid \<Rightarrow> []
          | ListCall j \<Rightarrow> [make_result_handle j (MArray (map MStr (m_clients ?m)))])), c)"
      "world c = w\<lparr>app_master := (case q of
         Subscribe cid \<Rightarrow> subscribe (app_now w) cid ?m | ListCall j \<Rightarrow> update_time (app_now w) ?m)\<rparr>"
    using example_step_fresh [OF assms, of p "of_nat k" q w] by blast
  have inv: "clients_inv (app_master (world c))"
    using Cons.prems c(2) by (cases q) (simp_all add: subscribe_inv, simp add: clients_inv_def update_time_def)
  from Cons.IH [OF this] obtain w' where w': "serve_all mp (example_funcs mp) (map served_req hs) (world c) =
        (listings_all (set (m_clients (app_master (world c)))) (map asked hs), Some w')"
      "clients_inv (app_master w')"
      "set (m_clients (app_master w')) = set (m_clients (app_master (world c))) \<union> subscribed (map (snd \<circ> asked) hs)"
    by blast
  show ?case
  proof (cases q)
    case (Subscribe cid)
    have "set (m_clients (app_master (world c))) = insert cid (set (m_clients ?m))"
      using c(2) Subscribe by (simp add: subscribe_def update_time_def set_insert_spec)
    with c(1) w' Subscribe show ?thesis by (intro exI [of _ w']) (simp add: h comp_def)
  next
    case (ListCall j)
    have "m_clients (app_master (world c)) = m_clients ?m"
      using c(2) ListCall by (simp add: update_time_def)
    with c(1) w' ListCall clients_sorted_set [OF Cons.prems, symmetric] show ?thesis
      by (intro exI [of _ w']) (simp add: h comp_def)
  qed
qed simp

text \<open>The state the example server stays in while its clients' names come from \<open>U\<close>.\<close>

definition clients_from :: "string set \<Rightarrow> app \<Rightarrow> bool" where
  "clients_from U w \<longleftrightarrow> clients_inv (app_master w) \<and> set (m_clients (app_master w)) \<subseteq> U"

lemma example_well_formed:
  assumes "view_laws mp" and "\<forall>x \<in> subscribed reqs. length x < 2 ^ 32"
  shows "well_formed_requests mp (map req_obj reqs)"
proof -
  have "packable (req_obj q) \<and> (mp_array_size mp (req_obj q) = 4 \<longrightarrow> mp_as_call mp (req_obj q) \<noteq> None) \<and>
      (mp_array_size mp (req_obj q) = 3 \<longrightarrow> mp_as_notification mp (req_obj q) \<noteq> None)" if "q \<in> set reqs" for q
  proof (cases q)
    case (Subscribe cid)
    with that assms show ?thesis by (auto simp: packable_call_def subscribed_set)
  qed (use assms(1) in \<open>simp add: packable_call_def\<close>)
  then show ?thesis by (simp add: well_formed_requests_def)
qed

lemma example_fit:
  assumes "view_laws mp" and "string_args mp" and "finite U" and "card U < 2 ^ 32"
    and "\<forall>x \<in> U. length x < 2 ^ 32" and "\<forall>k. subscribed (reqs k) \<subseteq> U"
  shows "answers_fit mp (example_funcs mp) (clients_from U) (\<lambda>k. map req_obj (reqs k))"
  unfolding answers_fit_def
proof (intro allI ballI impI)
  fix k m p sid w ts c
  assume m: "m \<in> set (map req_obj (reqs k))" and w: "clients_from U w"
    and step: "process_request mp (example_funcs mp) p sid m (fresh_ctx w) = (Inr ts, c)"
  obtain q where q: "m = req_obj q" "q \<in> set (reqs k)" using m by auto
  let ?m = "app_master w"
  have ts: "responses_in ts = (case q of Subscribe cid \<Rightarrow> []
        | ListCall j \<Rightarrow> [make_result_handle j (MArray (map MStr (m_clients ?m)))])"
      "world c = w\<lparr>app_master := (case q of
         Subscribe cid \<Rightarrow> subscribe (app_now w) cid ?m | ListCall j \<Rightarrow> update_time (app_now w) ?m)\<rparr>"
    using example_step_fresh [OF assms(1,2), of p sid q w] step q(1) by auto
  have inv: "clients_inv ?m" "set (m_clients ?m) \<subseteq> U" using w by (simp_all add: clients_from_def)
  have "length (m_clients ?m) = card (set (m_clients ?m))"
    using inv(1) by (simp add: clients_inv_def distinct_card)
  then have "length (m_clients ?m) < 2 ^ 32" using card_mono [OF assms(3) inv(2)] assms(4) by simp
  moreover have "\<forall>x \<in> set (m_clients ?m). length x < 2 ^ 32" using inv(2) assms(5) by blast
  ultimately have "sendable mp (responses_in ts)"
    by (cases q) (auto simp: ts(1) sendable_def packable_response_obj)
  moreover have "clients_from U (world c)"
  proof (cases q)
    case (Subscribe cid)
    then have "cid \<in> U" using q(2) assms(6) by (auto simp: subscribed_set)
    with Subscribe inv subscribe_inv [OF inv(1)] show ?thesis
      by (simp add: ts(2) clients_from_def) (simp add: subscribe_def update_time_def set_insert_spec)
  qed (use inv in \<open>simp add: ts(2) clients_from_def update_time_def clients_inv_def\<close>)
  ultimately show "sendable mp (responses_in ts) \<and> clients_from U (world c)" by blast
qed

text \<open>What is taken from the streams of the clients are their requests.\<close>

lemma served_example_reqs:
  assumes "\<forall>h \<in> set hist. fst h < n"
    and "\<forall>k < n. mset (requests_of k hist) \<subseteq># mset (map req_obj (reqs k))"
  shows "\<exists>hs. hist = map served_req hs \<and> (\<forall>k < n. mset (reqs_of k (map asked hs)) \<subseteq># mset (reqs k))"
proof -
  have "\<exists>h'. h = served_req h'" if "h \<in> set hist" for h
  proof -
    obtain k p m where h: "h = (k, p, m)" by (cases h)
    with that have "m \<in> set (requests_of k hist)" by (force simp: requests_of_def)
    moreover have "set (requests_of k hist) \<subseteq> set (map req_obj (reqs k))"
      using assms that h by (metis fst_conv set_mset_mono set_mset_mset)
    ultimately obtain q where "m = req_obj q" by auto
    then have "h = served_req (k, p, q)" by (simp add: h)
    then show ?thesis ..
  qed
  then have "\<forall>h \<in> set hist. h \<in> range served_req" by blast
  then obtain hs where hs: "hist = map served_req hs" by (metis ex_map_conv rangeE)
  have "mset (reqs_of k (map asked hs)) \<subseteq># mset (reqs k)" if "k < n" for k
  proof -
    have "mset (map req_obj (reqs_of k (map asked hs))) \<subseteq># mset (map req_obj (reqs k))"
      using assms(2) that by (simp add: hs requests_of_served)
    then have "image_mset (inv req_obj) (image_mset req_obj (mset (reqs_of k (map asked hs)))) \<subseteq>#
        image_mset (inv req_obj) (image_mset req_obj (mset (reqs k)))"
      unfolding mset_map by (rule image_mset_subseteq_mono)
    then show ?thesis by (simp only: multiset.map_comp inv_o_cancel [OF inj_req_obj] multiset.map_id)
  qed
  with hs show ?thesis by blast
qed

lemma example_many_run:
  assumes "codec_laws mp" and "view_laws mp" and "buffer_laws mp" and "string_args mp"
    and "clients_from U w" and "S = set (m_clients (app_master w))"
    and "finite U" and "card U < 2 ^ 32" and "\<forall>x \<in> U. length x < 2 ^ 32"
    and "\<forall>k. subscribed (reqs k) \<subseteq> U" and "Whole (SuppressCalled False) \<notin> set es"
    and "\<forall>k. prefix (collected (par_step mp) (par_reads k) (Inr (all_idle (serving_with (example_funcs mp) True w))) es)
      (stream mp (map req_obj (reqs k)))"
  shows "\<exists>p qs ps. run_events (par_machine mp) (Inr (all_idle (serving_with (example_funcs mp) True w))) es = Inr p \<and>
     m_clients (app_master (sv_world (p_srv p))) = sorted_list_of_set (S \<union> subscribed (map snd qs)) \<and>
     mset ps \<subseteq># mset (listings_all S qs) \<and> (all_free p \<longrightarrow> mset ps = mset (listings_all S qs)) \<and>
     (\<forall>k < length (sv_objs (p_srv p)). mset (reqs_of k qs) \<subseteq># mset (reqs k) \<and>
        prefix (w_wire (ss_writer (sv_objs (p_srv p) ! k))) (map (response_data mp) (answers_for k ps)))"
proof -
  let ?obs = "\<lambda>k. map req_obj (reqs k)"
  have names: "\<forall>x \<in> subscribed (reqs k). length x < 2 ^ 32" for k using assms(9,10) by blast
  have wf: "\<forall>k. well_formed_requests mp (?obs k)"
    using example_well_formed [OF assms(2) names] by blast
  then have packed: "\<forall>k. well_packed (?obs k)"
    by (auto simp: well_formed_requests_def well_packed_def)
  note fit = example_fit [OF assms(2,4,7,8,9,10)]
  obtain p where p: "run_events (par_machine mp) (Inr (all_idle (serving_with (example_funcs mp) True w))) es = Inr p"
    using workers_total [OF assms(1-3) wf fit assms(5,12,11)] by blast
  let ?v = "p_srv p"
  obtain hist as ps where h: "serve_all mp (example_funcs mp) hist w = (as, Some (sv_world ?v))"
      "\<forall>h \<in> set hist. fst h < length (sv_objs ?v)"
      "\<forall>k < length (sv_objs ?v). let s = sv_objs ?v ! k in
        mset (requests_of k hist) + mset (ss_jobs s) \<subseteq># mset (?obs k) \<and>
        prefix (w_wire (ss_writer s)) (map (response_data mp) (answers_for k ps)) \<and>
        mset (map r_id (answers_for k ps)) \<subseteq># mset (call_ids mp (?obs k))"
      and ps: "mset ps \<subseteq># mset as" "all_free p \<longrightarrow> mset ps = mset as"
    using workers_in_sequence [OF assms(1-3) packed fit assms(5,12) p refl] by blast
  have "\<forall>k < length (sv_objs ?v). mset (requests_of k hist) \<subseteq># mset (?obs k)"
    using h(3) by (metis (no_types, lifting) mset_subset_eq_add_left subset_mset.order_trans)
  from served_example_reqs [OF h(2) this] obtain hs where hs: "hist = map served_req hs"
      "\<forall>k < length (sv_objs ?v). mset (reqs_of k (map asked hs)) \<subseteq># mset (reqs k)"
    by blast
  have inv: "clients_inv (app_master w)" using assms(5) by (simp add: clients_from_def)
  from example_serve_all [OF assms(2,4) inv, of hs] h(1) have served: "as = listings_all S (map asked hs)"
      "clients_inv (app_master (sv_world ?v))"
      "set (m_clients (app_master (sv_world ?v))) = S \<union> subscribed (map snd (map asked hs))"
    by (auto simp: hs(1) assms(6))
  have "m_clients (app_master (sv_world ?v)) = sorted_list_of_set (S \<union> subscribed (map snd (map asked hs)))"
    using clients_sorted_set [OF served(2)] by (simp only: served(3))
  moreover have "\<forall>k < length (sv_objs ?v). prefix (w_wire (ss_writer (sv_objs ?v ! k)))
      (map (response_data mp) (answers_for k ps))"
    using h(3) by (simp add: Let_def)
  ultimately show ?thesis
    using p hs(2) ps by (intro exI [of _ p] exI [of _ "map asked hs"] exI [of _ ps]) (auto simp: served(1))
qed


text \<open>For the witness: two clients subscribe and ask for the list, on two workers.\<close>

definition sample_many_reqs :: "nat \<Rightarrow> example_req list" where
  "sample_many_reqs k = (if k = 0 then [Subscribe ''b'', ListCall 1]
     else if k = 1 then [Subscribe ''a'', ListCall 2] else [])"

definition sample_many :: "par_event list" where
  "sample_many = map Whole [AsyncRun 2, Enter 1, Enter 2, AcceptDone 1 True, AcceptDone 2 True] @
     [ReadChunk 1 0 (stream ref_msgpack (map req_obj (sample_many_reqs 0))),
      ReadChunk 2 1 (stream ref_msgpack (map req_obj (sample_many_reqs 1)))] @
     concat (replicate 4 [Advance 1, Advance 2]) @
     [TakeJob 1 0 0, TakeJob 2 1 0, Advance 2, Advance 1, Advance 1, Advance 2, TakeJob 2 0 0, Advance 2, Advance 2, Advance 2] @
     map Whole [SessionStep 1 0 Strand, SessionStep 2 0 (Wrote WriteOk)]"

definition sample_many_app :: app where
  "sample_many_app = \<lparr>app_master = Master_new 0, app_now = 7\<rparr>"

lemma sample_many_reads:
  "\<forall>k. prefix (collected (par_step ref_msgpack) (par_reads k) st sample_many)
     (stream ref_msgpack (map req_obj (sample_many_reqs k)))"
proof
  fix k :: nat
  have split: "sample_many = take 5 sample_many @
      ReadChunk 1 0 (stream ref_msgpack (map req_obj (sample_many_reqs 0))) # drop 6 sample_many"
    "sample_many = take 6 sample_many @
      ReadChunk 2 1 (stream ref_msgpack (map req_obj (sample_many_reqs 1))) # drop 7 sample_many"
    by (simp_all add: sample_many_def)
  have silent: "par_reads 0 p e = []" if "e \<in> set (take 5 sample_many) \<union> set (drop 6 sample_many)"
    for e and p :: "'a par"
    using that by (auto simp: sample_many_def par_reads_def eval_nat_numeral)
  have quiet: "par_reads 1 p e = []" if "e \<in> set (take 6 sample_many) \<union> set (drop 7 sample_many)"
    for e and p :: "'a par"
    using that by (auto simp: sample_many_def par_reads_def eval_nat_numeral)
  consider "k = 0" | "k = 1" | "k \<noteq> 0" "k \<noteq> 1" by blast
  then show "prefix (collected (par_step ref_msgpack) (par_reads k) st sample_many)
      (stream ref_msgpack (map req_obj (sample_many_reqs k)))"
  proof cases
    case 1
    show ?thesis unfolding 1 by (subst split(1)) (rule collected_chunk, rule silent)
  next
    case 2
    show ?thesis unfolding 2 by (subst split(2)) (rule collected_chunk, rule quiet)
  next
    case 3
    then have "collected (par_step ref_msgpack) (par_reads k) st sample_many = []"
      by (intro collected_silent) (auto simp: sample_many_def par_reads_def eval_nat_numeral)
    then show ?thesis by simp
  qed
qed


end
