(* ===== verification/SessionLifetimes.thy ===== *)
theory SessionLifetimes
  imports ServerSpec
begin

section \<open>How long a session lives\<close>

text \<open>
  A ServerSession is owned by shared pointers: the list of its server, and the handlers that
  capture \<open>self\<close>, which are the outstanding read and write, the posted jobs, and the handlers on
  the write strand (src/detail/server\_session.cpp, src/detail/async\_writer.cpp). Two handlers of
  the strand, posted after a request that asked to exit or to stop, capture \<open>this\<close> alone. Here
  the server's machine also keeps the sessions that have been destroyed because their last owner
  is gone, and stops when a handler runs on one of them.
\<close>

text \<open>Whether a handler on the write strand captures \<open>self\<close>.\<close>

fun captures_self :: "session_task strand_task \<Rightarrow> bool" where
  "captures_self ShutdownSocket = True"
| "captures_self (Derived (WriteResponse r)) = True"
| "captures_self (Derived CloseTask) = False"
| "captures_self (Derived CloseSessionsTask) = False"
| "captures_self (Derived Deregister) = True"

definition session_owned :: "'w srv \<Rightarrow> nat \<Rightarrow> bool" where
  "session_owned v k \<longleftrightarrow> k \<in> set (sv_sessions v) \<or> (let s = sv_objs v ! k; w = ss_writer s in
     ss_reading s \<or> ss_jobs s \<noteq> [] \<or> w_inflight w \<noteq> None \<or> list_ex captures_self (w_strand w))"

text \<open>The handler of a session that an event runs, if any.\<close>

datatype session_handler = ReadHandler | JobHandler | WriteHandler | StrandHandler "session_task strand_task"

definition handler_run :: "'w srv \<Rightarrow> srv_event \<Rightarrow> (nat \<times> session_handler) option" where
  "handler_run v e = (case e of
       SessionStep t k se \<Rightarrow>
         if has_state v t Running \<and> \<not> sv_stopped v \<and> k < length (sv_objs v)
         then (let s = sv_objs v ! k in case se of
             Read rr \<Rightarrow> if ss_reading s then Some (k, ReadHandler) else None
           | Job i \<Rightarrow> if i < length (ss_jobs s) then Some (k, JobHandler) else None
           | Wrote ec \<Rightarrow> if w_inflight (ss_writer s) \<noteq> None then Some (k, WriteHandler) else None
           | Strand \<Rightarrow> (case w_strand (ss_writer s) of [] \<Rightarrow> None | u # us \<Rightarrow> Some (k, StrandHandler u))
           | CloseRequested \<Rightarrow> None)
         else None
     | _ \<Rightarrow> None)"

datatype life_fault = ServerFault srv_fault | UseAfterFree nat session_handler

definition newly_dead :: "'w srv \<Rightarrow> nat list \<Rightarrow> nat list" where
  "newly_dead v dead = filter (\<lambda>k. \<not> session_owned v k \<and> k \<notin> set dead) [0..<length (sv_objs v)]"

definition life_step ::
  "msgpack \<Rightarrow> 'w srv \<times> nat list \<Rightarrow> srv_event \<Rightarrow> life_fault + 'w srv \<times> nat list" where
  "life_step mp vd e = (case vd of (v, dead) \<Rightarrow>
     (case handler_run v e of
        Some (k, h) \<Rightarrow> if k \<in> set dead then Inl (UseAfterFree k h)
          else (case srv_step mp v e of
              Inl f \<Rightarrow> Inl (ServerFault f)
            | Inr v' \<Rightarrow> Inr (v', dead @ newly_dead v' dead))
      | None \<Rightarrow> (case srv_step mp v e of
            Inl f \<Rightarrow> Inl (ServerFault f)
          | Inr v' \<Rightarrow> Inr (v', dead @ newly_dead v' dead))))"

definition life_machine ::
  "msgpack \<Rightarrow> life_fault + 'w srv \<times> nat list \<Rightarrow> srv_event \<Rightarrow> life_fault + 'w srv \<times> nat list" where
  "life_machine mp st e = (case st of Inl f \<Rightarrow> Inl f | Inr vd \<Rightarrow> life_step mp vd e)"

lemma life_machine_simps [simp]:
  "life_machine mp (Inl f) e = Inl f" "life_machine mp (Inr vd) e = life_step mp vd e"
  by (simp_all add: life_machine_def)

lemma life_step_cases:
  assumes "life_step mp (v, dead) e = Inr (v', dead')"
  shows "srv_step mp v e = Inr v'" "dead' = dead @ newly_dead v' dead"
    "\<And>k h. handler_run v e = Some (k, h) \<Longrightarrow> k \<notin> set dead"
  using assms by (auto simp: life_step_def split: option.splits sum.splits if_splits)

lemma life_step_use_after_free:
  "life_step mp (v, dead) e = Inl (UseAfterFree k h) \<Longrightarrow> k \<in> set dead \<and> handler_run v e = Some (k, h)"
  by (auto simp: life_step_def split: option.splits sum.splits if_splits)

subsection \<open>The dead stay dead\<close>

text \<open>A step that runs no handler of session \<open>k\<close>, which nobody owns, leaves it so.\<close>

definition dead_session :: "'w srv \<Rightarrow> nat \<Rightarrow> bool" where
  "dead_session v k \<longleftrightarrow> k < length (sv_objs v) \<and> \<not> session_owned v k"

lemma dead_session_cong:
  "dead_session v k \<Longrightarrow> k < length (sv_objs v') \<Longrightarrow> sv_objs v' ! k = sv_objs v ! k \<Longrightarrow>
     k \<notin> set (sv_sessions v') \<Longrightarrow> dead_session v' k"
  by (simp add: dead_session_def session_owned_def)

lemma close_all_other: "k \<notin> set copy \<Longrightarrow> close_all copy objs ! k = objs ! k"
  by (induction copy arbitrary: objs) auto

lemma dead_close_sessions: "dead_session v k \<Longrightarrow> dead_session (close_sessions t v) k"
proof -
  assume dead: "dead_session v k"
  then have "k \<notin> set (sv_sessions v)" by (simp add: dead_session_def session_owned_def)
  with dead show ?thesis
    by (intro dead_session_cong [OF dead]) (simp_all add: close_all_other dead_session_def)
qed

lemma parent_calls_dead:
  assumes "dead_session v k" and "parent_calls t j pc v = Inr v'"
  shows "dead_session v' k"
proof (cases pc)
  case CallCloseSession
  with assms have "v' = close_session j v" by (auto simp: parent_calls_def split: if_splits)
  with assms(1) show ?thesis
    by (auto simp: dead_session_def session_owned_def close_session_def Let_def dest: notin_set_remove1)
next
  case CallCloseSessions
  with assms have "v' = close_sessions t v" by (auto simp: parent_calls_def split: if_splits)
  with dead_close_sessions [OF assms(1)] show ?thesis by simp
qed (use assms in \<open>simp add: parent_calls_def\<close>)

lemma session_step_dead:
  assumes "dead_session v k" and "session_step mp t j se v = Inr v'"
    and "has_state v t Running" and "\<not> sv_stopped v" and "j < length (sv_objs v)"
    and "\<forall>h. handler_run v (SessionStep t j se) \<noteq> Some (k, h)"
  shows "dead_session v' k"
proof -
  have k: "k < length (sv_objs v)" "k \<notin> set (sv_sessions v)"
    using assms(1) by (simp_all add: dead_session_def session_owned_def)
  have update: "dead_session (v\<lparr>sv_objs := (sv_objs v)[j := s]\<rparr>) k" if "j = k \<Longrightarrow> s = sv_objs v ! k" for s
    using that k by (cases "j = k") (auto intro!: dead_session_cong [OF assms(1)])
  show ?thesis
    using assms(2)
  proof (cases rule: session_step_cases)
    case (strand s pc)
    have "s = sv_objs v ! k" if "j = k"
      using strand(1,2) assms(3-6) that
      by (auto simp: handler_run_def run_strand_def Let_def split: list.splits)
    from parent_calls_dead [OF update [OF this] strand(3)] show ?thesis by simp
  next
    case (own s c)
    have "s = sv_objs v ! k" if "j = k"
      using own(1-3) assms(3-6) that
      by (cases se) (auto simp: handler_run_def sess_step_def run_job_def session_on_write_def
          with_writer_def complete_def Let_def split: if_splits option.splits)
    from update [OF this] have "dead_session (v\<lparr>sv_objs := (sv_objs v)[j := s]\<rparr>) k" by simp
    then show ?thesis by (simp add: own(4) dead_session_def session_owned_def)
  qed (use assms(1) in simp)
qed

lemma srv_step_dead:
  assumes "dead_session v k" and "srv_step mp v e = Inr v'"
    and "\<forall>h. handler_run v e \<noteq> Some (k, h)"
  shows "dead_session v' k"
proof -
  have k: "k < length (sv_objs v)" "k \<notin> set (sv_sessions v)"
    using assms(1) by (simp_all add: dead_session_def session_owned_def)
  show ?thesis
  proof (cases e)
    case (AcceptDone t ok)
    with assms(1,2) k show ?thesis
      by (auto simp: srv_step_def on_accept_def start_accept_def Let_def nth_append
          intro!: dead_session_cong [OF assms(1)] split: if_splits sum.splits)
  next
    case (SessionStep t j se)
    with assms session_step_dead [OF assms(1), of mp t j se v'] show ?thesis
      by (auto simp: srv_step_def split: if_splits)
  next
    case CloseAllCalled
    with assms dead_close_sessions [OF assms(1), of 0] show ?thesis
      by (auto simp: srv_step_def split: if_splits)
  qed (use assms(2) k in \<open>auto intro!: dead_session_cong [OF assms(1)]
      simp: srv_step_def async_run_def enter_loop_def leave_loop_def suppress_exceptions_def
      split: if_splits\<close>)
qed

text \<open>In every reachable state the destroyed sessions are the ones without an owner.\<close>

definition life_inv :: "life_fault + 'w srv \<times> nat list \<Rightarrow> bool" where
  "life_inv st \<longleftrightarrow> (case st of
       Inl (UseAfterFree k h) \<Rightarrow> (\<exists>u. h = StrandHandler (Derived u) \<and> u \<in> {CloseTask, CloseSessionsTask})
     | Inl (ServerFault f) \<Rightarrow> True
     | Inr (v, dead) \<Rightarrow> \<forall>k \<in> set dead. dead_session v k)"

lemma dead_handler:
  assumes "dead_session v k" and "handler_run v e = Some (k, h)"
  shows "\<exists>u. h = StrandHandler (Derived u) \<and> u \<in> {CloseTask, CloseSessionsTask}"
  using assms
  by (auto simp: handler_run_def dead_session_def session_owned_def Let_def
      split: srv_event.splits sess_event.splits if_splits list.splits)
    (metis captures_self.elims(2) captures_self.simps insertCI session_task.exhaust strand_task.exhaust)

interpretation life: kept_by_steps "life_machine mp" life_inv for mp
proof
  fix mp and st :: "life_fault + 'a srv \<times> nat list" and e
  assume inv: "life_inv st"
  show "life_inv (life_machine mp st e)"
  proof (cases st)
    case (Inl f)
    with inv show ?thesis by simp
  next
    case (Inr vd)
    obtain v dead where vd: "vd = (v, dead)" by (cases vd)
    have dead: "\<forall>k \<in> set dead. dead_session v k" using inv Inr vd by (simp add: life_inv_def)
    show ?thesis
    proof (cases "life_step mp (v, dead) e")
      case (Inl f)
      have "\<exists>u. h = StrandHandler (Derived u) \<and> u \<in> {CloseTask, CloseSessionsTask}"
        if "f = UseAfterFree k h" for k h
        using life_step_use_after_free [OF Inl [unfolded that]] dead dead_handler by blast
      then show ?thesis
        using Inr vd Inl by (cases f) (auto simp: life_inv_def)
    next
      case (Inr vd')
      obtain v' dead' where vd': "vd' = (v', dead')" by (cases vd')
      note step = life_step_cases [OF Inr [unfolded vd']]
      have "dead_session v' k" if "k \<in> set dead" for k
        using srv_step_dead [OF dead [rule_format, OF that] step(1)] step(3) that by blast
      moreover have "dead_session v' k" if "k \<in> set (newly_dead v' dead)" for k
        using that by (auto simp: newly_dead_def dead_session_def)
      ultimately show ?thesis
        using Inr vd' \<open>st = Inr vd\<close> vd step(2) by (auto simp: life_inv_def)
    qed
  qed
qed

subsection \<open>Functions that do not ask to close\<close>

definition never_asks_to_close :: "msgpack \<Rightarrow> 'w dispatcher \<Rightarrow> bool" where
  "never_asks_to_close mp d \<longleftrightarrow> (\<forall>p sid m c ts c'. process_request mp d p sid m c = (Inr ts, c') \<longrightarrow>
     CloseTask \<notin> set ts \<and> CloseSessionsTask \<notin> set ts)"

definition calm_session :: "sess \<Rightarrow> bool" where
  "calm_session s \<longleftrightarrow> list_all captures_self (w_strand (ss_writer s))"

definition calm :: "'w dispatcher \<Rightarrow> 'w srv \<Rightarrow> bool" where
  "calm d v \<longleftrightarrow> sv_disp v = d \<and> (\<forall>s \<in> set (sv_objs v). calm_session s)"

lemma calm_close [simp]: "calm_session (session_close s) = calm_session s"
  by (simp add: calm_session_def)

lemma captures_derived: "captures_self (Derived u) \<longleftrightarrow> u \<noteq> CloseTask \<and> u \<noteq> CloseSessionsTask"
  by (cases u) simp_all

lemma run_strand_calm: "calm_session s \<Longrightarrow> run_strand mp s = Inr (s', pc) \<Longrightarrow> calm_session s'"
  by (auto simp: run_strand_def run_session_task_def with_writer_def map_sum_def calm_session_def
      shutdown_socket_def Let_def dest!: writer_frames(1)
      split: list.splits strand_task.splits session_task.splits sum.splits)

lemma sess_step_calm:
  assumes "never_asks_to_close mp d" and "calm_session s" and "sess_step mp d (s, c) e = Inr (s', c')"
  shows "calm_session s'"
proof (cases e)
  case (Read rr)
  have "s' = session_close (s\<lparr>ss_reading := False\<rparr>) \<or> ss_writer s' = ss_writer s"
    using assms(3) Read
    by (cases rr) (auto simp: sess_step_def session_on_read_def session_do_read_def start_read_def
        Let_def dest!: session_decode_writer split: if_splits sum.splits)
  with assms(2) show ?thesis by (auto simp: calm_session_def)
next
  case (Job k)
  with assms show ?thesis
    by (force simp: sess_step_def run_job_def calm_session_def never_asks_to_close_def list_all_iff
        captures_derived split: if_splits prod.splits sum.splits)
next
  case Strand
  with assms(2,3) show ?thesis
    by (auto simp: sess_step_def map_sum_def dest: run_strand_calm split: sum.splits)
next
  case (Wrote ec)
  with assms(2,3) show ?thesis
    by (auto simp: sess_step_def session_on_write_def with_writer_def map_sum_def calm_session_def
        dest!: writer_frames(2) split: sum.splits)
qed (use assms(2,3) in \<open>auto simp: sess_step_def\<close>)

lemma calm_update: "calm d v \<Longrightarrow> calm_session s \<Longrightarrow> calm d (v\<lparr>sv_objs := (sv_objs v)[k := s]\<rparr>)"
  by (auto simp: calm_def dest!: set_update_subset_insert [THEN subsetD])

lemma calm_close_sessions: "calm d v \<Longrightarrow> calm d (close_sessions t v)"
  using close_all_ball [of calm_session "sv_objs v" "sv_sessions v"] by (auto simp: calm_def)

lemma parent_calls_calm: "calm d v \<Longrightarrow> parent_calls t k pc v = Inr v' \<Longrightarrow> calm d v'"
  using calm_close_sessions [of d v t]
  by (auto simp: parent_calls_def close_session_def calm_def split: if_splits)

lemma srv_step_calm:
  assumes "never_asks_to_close mp d" and "calm d v" and "srv_step mp v e = Inr v'"
  shows "calm d v'"
proof (cases e)
  case (AcceptDone t ok)
  with assms(2,3) show ?thesis
    by (auto simp: srv_step_def on_accept_def start_accept_def Let_def calm_def calm_session_def
        session_start_def session_do_read_def start_read_def ServerSession_new_def AsyncWriter_new_def
        split: if_splits sum.splits)
next
  case (SessionStep t k se)
  show ?thesis
  proof (cases "has_state v t Running \<and> \<not> sv_stopped v \<and> k < length (sv_objs v)")
    case True
    then have step: "session_step mp t k se v = Inr v'" and s: "calm_session (sv_objs v ! k)"
      using assms(2,3) SessionStep by (auto simp: srv_step_def calm_def)
    from step show ?thesis
    proof (cases rule: session_step_cases)
      case (strand s1 pc)
      from parent_calls_calm [OF calm_update [OF assms(2) run_strand_calm [OF s strand(2)]] strand(3)]
      show ?thesis .
    next
      case (own s1 c)
      have d: "sv_disp v = d" using assms(2) by (simp add: calm_def)
      from sess_step_calm [OF assms(1) s own(3) [unfolded d]] have "calm_session s1" .
      from calm_update [OF assms(2) this, of k] show ?thesis by (simp add: own(4) calm_def leave_ctx_def)
    qed (use assms(2) in simp)
  qed (use assms(2,3) SessionStep in \<open>auto simp: srv_step_def\<close>)
next
  case CloseAllCalled
  with assms(2,3) calm_close_sessions [OF assms(2), of 0] show ?thesis
    by (auto simp: srv_step_def split: if_splits)
qed (use assms(2,3) in \<open>auto simp: srv_step_def async_run_def enter_loop_def leave_loop_def
      suppress_exceptions_def stop_server_def impl_stop_def set_state_def calm_def Let_def prod.case_eq_if
      split: if_splits\<close>)

lemma calm_handler:
  assumes "calm d v" and "handler_run v e = Some (k, StrandHandler u)"
  shows "captures_self u"
proof -
  obtain us where "k < length (sv_objs v)" "w_strand (ss_writer (sv_objs v ! k)) = u # us"
    using assms(2) by (auto simp: handler_run_def Let_def
        split: srv_event.splits sess_event.splits if_splits list.splits)
  moreover from this have "calm_session (sv_objs v ! k)" using assms(1) by (simp add: calm_def)
  ultimately show ?thesis by (simp add: calm_session_def)
qed

lemma life_machine_stuck [simp]: "run_events (life_machine mp) (Inl f) es = Inl f"
  by (induction es) simp_all

lemma life_run_calm:
  assumes "never_asks_to_close mp d"
  shows "calm d v \<Longrightarrow> \<forall>k \<in> set dead. dead_session v k \<Longrightarrow>
     run_events (life_machine mp) (Inr (v, dead)) es \<noteq> Inl (UseAfterFree k h)"
proof (induction es arbitrary: v dead)
  case (Cons e es)
  show ?case
  proof (cases "life_step mp (v, dead) e")
    case (Inl f)
    have "f \<noteq> UseAfterFree k h" for k h
    proof
      assume f: "f = UseAfterFree k h"
      note bad = life_step_use_after_free [OF Inl [unfolded f]]
      with Cons.prems(2) dead_handler obtain u where "h = StrandHandler (Derived u)"
          "u \<in> {CloseTask, CloseSessionsTask}" by blast
      with calm_handler [OF Cons.prems(1), of e k] bad show False by (auto simp: captures_derived)
    qed
    with Inl show ?thesis by simp
  next
    case (Inr vd')
    obtain v' dead' where vd': "vd' = (v', dead')" by (cases vd')
    note step = life_step_cases [OF Inr [unfolded vd']]
    have "life_inv (Inr (v, dead))" using Cons.prems(2) by (simp add: life_inv_def)
    from life.step_keeps [OF this, of mp e] have "\<forall>k \<in> set dead'. dead_session v' k"
      by (simp add: Inr vd' life_inv_def)
    from Cons.IH [OF srv_step_calm [OF assms Cons.prems(1) step(1)] this] Inr vd' show ?thesis by simp
  qed
qed simp

text \<open>C38. A session outlives its handlers, but for two: in every run of a server, the only handlers that
  can run on a session that has been destroyed are the two that are posted on the write strand
  after a handler asked to exit or to stop, which capture a bare pointer. When no bound
  function asks for either, no handler ever runs on a destroyed session.\<close>

theorem session_outlives_handlers:
  assumes "run_events (life_machine mp) (Inr (serving_with d suppress w, [])) es = Inl (UseAfterFree k h)"
  shows "h \<in> {StrandHandler (Derived CloseTask), StrandHandler (Derived CloseSessionsTask)} \<and>
     \<not> never_asks_to_close mp d"
proof -
  have "life_inv (Inr (serving_with d suppress w, []))" by (simp add: life_inv_def)
  from life.run_keeps [OF this, of mp es] assms
  have "h \<in> {StrandHandler (Derived CloseTask), StrandHandler (Derived CloseSessionsTask)}"
    by (auto simp: life_inv_def)
  moreover have "calm d (serving_with d suppress w)"
    by (simp add: calm_def serving_with_def suppress_exceptions_def Server_new_def impl_new_def start_accept_def)
  with life_run_calm [of mp d _ "[]"] assms have "\<not> never_asks_to_close mp d" by auto
  ultimately show ?thesis by blast
qed

subsection \<open>A request to exit after the client has gone\<close>

text \<open>A closed session of which nothing is left but handlers on its strand: answers, which it drops,
  and the close that was posted for a handler that asked to exit.\<close>

definition leftover :: "session_task list \<Rightarrow> sess \<Rightarrow> bool" where
  "leftover us s \<longleftrightarrow> w_exit (ss_writer s) \<and> \<not> ss_reading s \<and> ss_jobs s = [] \<and>
     w_inflight (ss_writer s) = None \<and> w_strand (ss_writer s) = map Derived us"

lemma leftover_owned:
  "leftover us (sv_objs v ! k) \<Longrightarrow> k \<notin> set (sv_sessions v) \<Longrightarrow>
     session_owned v k \<longleftrightarrow> list_ex (captures_self \<circ> Derived) us"
  by (simp add: leftover_def session_owned_def list_ex_iff Let_def)

lemma leftover_runs_out:
  "leftover (map WriteResponse rs @ [CloseTask]) (sv_objs v ! k) \<Longrightarrow> k < length (sv_objs v) \<Longrightarrow>
     k \<notin> set (sv_sessions v) \<Longrightarrow> has_state v t Running \<Longrightarrow> \<not> sv_stopped v \<Longrightarrow>
     (k \<in> set dead \<longleftrightarrow> rs = []) \<Longrightarrow>
     run_events (life_machine mp) (Inr (v, dead)) (replicate (Suc (length rs)) (SessionStep t k Strand)) =
       Inl (UseAfterFree k (StrandHandler (Derived CloseTask)))"
proof (induction rs arbitrary: v dead)
  case Nil
  then show ?case by (simp add: life_step_def handler_run_def leftover_def Let_def)
next
  case (Cons r rs)
  let ?s = "sv_objs v ! k" and ?us = "map WriteResponse rs @ [CloseTask]"
  let ?s' = "?s\<lparr>ss_writer := (ss_writer ?s)\<lparr>w_strand := map Derived ?us\<rparr>\<rparr>"
  let ?v = "v\<lparr>sv_objs := (sv_objs v)[k := ?s']\<rparr>"
  have "run_strand mp ?s = Inr (?s', NoCall)"
    using Cons.prems(1) by (simp add: leftover_def run_strand_def run_session_task_def with_writer_def
        writer_write_def)
  then have step: "srv_step mp v (SessionStep t k Strand) = Inr ?v"
    using Cons.prems(2,4,5) by (simp add: srv_step_def session_step_def parent_calls_def Let_def)
  have left: "leftover ?us (sv_objs ?v ! k)"
    using Cons.prems(1,2) by (simp add: leftover_def)
  have "session_owned ?v k \<longleftrightarrow> rs \<noteq> []"
    using leftover_owned [OF left] Cons.prems(3) by (cases rs) simp_all
  then have dead: "k \<in> set (dead @ newly_dead ?v dead) \<longleftrightarrow> rs = []"
    using Cons.prems(2,6) by (auto simp: newly_dead_def)
  have "has_state ?v = has_state v" by (simp add: fun_eq_iff has_state_def thread_at_def)
  with Cons.IH [OF left _ _ _ _ dead] Cons.prems(2-5)
  have "run_events (life_machine mp) (Inr (?v, dead @ newly_dead ?v dead))
      (replicate (Suc (length rs)) (SessionStep t k Strand)) =
      Inl (UseAfterFree k (StrandHandler (Derived CloseTask)))" by simp
  moreover have runs: "handler_run v (SessionStep t k Strand) = Some (k, StrandHandler (Derived (WriteResponse r)))"
    using Cons.prems(1,2,4,5) by (simp add: handler_run_def leftover_def Let_def)
  have "life_step mp (v, dead) (SessionStep t k Strand) = Inr (?v, dead @ newly_dead ?v dead)"
    using step Cons.prems(6) runs by (simp add: life_step_def)
  ultimately show ?case by simp
qed

lemma exit_dangles:
  assumes "k < length (sv_objs v)" and "sv_objs v ! k = s" and "k \<notin> set (sv_sessions v)"
    and "k \<notin> set dead" and "k \<notin> set (sv_disp_null v)"
    and "has_state v t Running" and "\<not> sv_stopped v"
    and "w_exit (ss_writer s)" and "\<not> ss_reading s" and "w_inflight (ss_writer s) = None"
    and "w_strand (ss_writer s) = []" and "ss_jobs s = [m]"
    and "process_request mp (sv_disp v) (ss_suppress s) (ss_id s) m (in_thread v t) =
      (Inr (map WriteResponse rs @ [CloseTask]), c')"
  shows "run_events (life_machine mp) (Inr (v, dead))
     (SessionStep t k (Job 0) # replicate (Suc (length rs)) (SessionStep t k Strand)) =
       Inl (UseAfterFree k (StrandHandler (Derived CloseTask)))"
proof -
  let ?us = "map WriteResponse rs @ [CloseTask]"
  let ?v = "leave_ctx t c' (v\<lparr>sv_objs := (sv_objs v)[k := post_tasks ?us (s\<lparr>ss_jobs := []\<rparr>)]\<rparr>)"
  have "srv_step mp v (SessionStep t k (Job 0)) = Inr ?v"
    using assms(1,2,5-7,12,13)
    by (simp add: srv_step_def session_step_def takes_job_def sess_step_def run_job_def Let_def)
  moreover have "handler_run v (SessionStep t k (Job 0)) = Some (k, JobHandler)"
    using assms(1,2,6,7,12) by (simp add: handler_run_def Let_def)
  ultimately have step: "life_step mp (v, dead) (SessionStep t k (Job 0)) = Inr (?v, dead @ newly_dead ?v dead)"
    using assms(4) by (simp add: life_step_def)
  have left: "leftover ?us (sv_objs ?v ! k)"
    using assms(1,8-11) by (simp add: leftover_def)
  have "session_owned ?v k \<longleftrightarrow> rs \<noteq> []"
    using leftover_owned [OF left] assms(3) by (cases rs) simp_all
  then have "k \<in> set (dead @ newly_dead ?v dead) \<longleftrightarrow> rs = []"
    using assms(1,4) by (auto simp: newly_dead_def)
  from leftover_runs_out [OF left _ _ _ _ this, of t mp] step assms(1,3,6,7) show ?thesis by simp
qed

text \<open>C39. A handler that asks to exit after its client has gone uses freed memory: when a session has
  been closed and removed from the list of the server and the last thing left of it is a request
  that a worker is about to take, and the function of that request asks to exit, then the close
  that is posted for it runs on the destroyed session.\<close>

theorem exit_after_disconnect_dangles:
  assumes "k < length (sv_objs v)" and "sv_objs v ! k = s" and "k \<notin> set (sv_sessions v)"
    and "k \<notin> set dead" and "k \<notin> set (sv_disp_null v)"
    and "has_state v t Running" and "\<not> sv_stopped v"
    and "w_exit (ss_writer s)" and "\<not> ss_reading s" and "w_inflight (ss_writer s) = None"
    and "w_strand (ss_writer s) = []" and "ss_jobs s = [m]"
    and "process_request mp (sv_disp v) (ss_suppress s) (ss_id s) m (in_thread v t) =
      (Inr (map WriteResponse rs @ [CloseTask]), c')"
  shows "run_events (life_machine mp) (Inr (v, dead))
     (SessionStep t k (Job 0) # replicate (Suc (length rs)) (SessionStep t k Strand)) =
       Inl (UseAfterFree k (StrandHandler (Derived CloseTask)))"
  using assms by (rule exit_dangles)

text \<open>For the witnesses: a client asks for the end of its session and disconnects, and another
  worker sees the disconnection first.\<close>

definition sample_exit :: "mobj list list dispatcher" where
  "sample_exit = store ''exit'' (bound_call ref_msgpack ''exit''
     (sample_thunk (\<lambda>c. (Inr MNil, post_exit c)))) Dispatcher_new"

definition sample_gone :: "srv_event list" where
  "sample_gone = [AsyncRun 2, Enter 1, Enter 2, AcceptDone 1 True,
     SessionStep 1 0 (Read (ReadOk (mp_pack ref_msgpack (notify_obj ''exit'' [])))),
     SessionStep 2 0 (Read ReadEof), SessionStep 2 0 Strand, SessionStep 2 0 Strand]"

lemma sample_exit_served:
  "process_request ref_msgpack sample_exit True i (notify_obj ''exit'' []) c =
     (Inr [CloseTask], post_exit (reset_ctx i c))"
  by (simp add: sample_exit_def process_request_def dispatch_notify_obj store_def Dispatcher_new_def
      bound_call_def answer_tasks_def captured_def reset_ctx_eq fresh_ctx_def this_context_defs
      stopping_def is_empty_def)

lemma sample_gone_run:
  "\<exists>v. run_events (life_machine ref_msgpack) (Inr (serving_with sample_exit True [], [])) sample_gone = Inr (v, []) \<and>
     length (sv_objs v) = 1 \<and> sv_sessions v = [] \<and> sv_disp_null v = [] \<and> has_state v 2 Running \<and>
     \<not> sv_stopped v \<and> sv_disp v = sample_exit \<and>
     (let s = sv_objs v ! 0 in w_exit (ss_writer s) \<and> \<not> ss_reading s \<and> w_inflight (ss_writer s) = None \<and>
        w_strand (ss_writer s) = [] \<and> ss_jobs s = [notify_obj ''exit'' []] \<and> ss_suppress s)"
proof -
  have parse: "mp_parse ref_msgpack (mp_pack ref_msgpack (notify_obj ''exit'' [])) =
      Parsed (notify_obj ''exit'' []) []"
    using parse_pack [OF ref_codec_laws, of "notify_obj ''exit'' []" "[]"] by (simp add: packable_call_def)
  obtain m where m: "length (mp_pack ref_msgpack (notify_obj ''exit'' [])) = Suc m"
    using pack_nonempty [OF ref_codec_laws, of "notify_obj ''exit'' []"]
    by (cases "mp_pack ref_msgpack (notify_obj ''exit'' [])") (auto simp: packable_call_def)
  show ?thesis
    by (simp add: sample_gone_def sample_server_simps unpacker_next_def parse m ref_runs
        parse_empty [OF ref_codec_laws] session_on_read_def life_step_def handler_run_def newly_dead_def
        session_owned_def)
qed

lemma sample_gone_dangles:
  "run_events (life_machine ref_msgpack) (Inr (serving_with sample_exit True [], []))
     (sample_gone @ [SessionStep 2 0 (Job 0), SessionStep 2 0 Strand]) =
       Inl (UseAfterFree 0 (StrandHandler (Derived CloseTask)))"
proof -
  obtain v where v: "run_events (life_machine ref_msgpack) (Inr (serving_with sample_exit True [], [])) sample_gone =
       Inr (v, [])" "length (sv_objs v) = 1" "sv_sessions v = []" "sv_disp_null v = []"
      "has_state v 2 Running" "\<not> sv_stopped v" "sv_disp v = sample_exit"
      "w_exit (ss_writer (sv_objs v ! 0))" "\<not> ss_reading (sv_objs v ! 0)"
      "w_inflight (ss_writer (sv_objs v ! 0)) = None" "w_strand (ss_writer (sv_objs v ! 0)) = []"
      "ss_jobs (sv_objs v ! 0) = [notify_obj ''exit'' []]" "ss_suppress (sv_objs v ! 0)"
    using sample_gone_run unfolding Let_def by blast
  from exit_dangles [of 0 v "sv_objs v ! 0" "[]" 2 "notify_obj ''exit'' []" ref_msgpack "[]"]
    sample_exit_served v show ?thesis by simp
qed

theorem exit_after_disconnect_dangles_witness:
  "run_events (life_machine ref_msgpack) (Inr (serving_with sample_exit True [], []))
     (sample_gone @ [SessionStep 2 0 (Job 0), SessionStep 2 0 Strand]) =
       Inl (UseAfterFree 0 (StrandHandler (Derived CloseTask)))"
proof -
  obtain v where v: "run_events (life_machine ref_msgpack) (Inr (serving_with sample_exit True [], [])) sample_gone =
       Inr (v, [])" "length (sv_objs v) = 1" "sv_sessions v = []" "sv_disp_null v = []"
      "has_state v 2 Running" "\<not> sv_stopped v" "sv_disp v = sample_exit"
      "w_exit (ss_writer (sv_objs v ! 0))" "\<not> ss_reading (sv_objs v ! 0)"
      "w_inflight (ss_writer (sv_objs v ! 0)) = None" "w_strand (ss_writer (sv_objs v ! 0)) = []"
      "ss_jobs (sv_objs v ! 0) = [notify_obj ''exit'' []]" "ss_suppress (sv_objs v ! 0)"
    using sample_gone_run unfolding Let_def by blast
  from exit_after_disconnect_dangles [of 0 v "sv_objs v ! 0" "[]" 2 "notify_obj ''exit'' []" ref_msgpack "[]"]
    sample_exit_served v show ?thesis by simp
qed

theorem session_outlives_handlers_witness:
  "\<exists>h. run_events (life_machine ref_msgpack) (Inr (serving_with sample_exit True [], []))
       (sample_gone @ [SessionStep 2 0 (Job 0), SessionStep 2 0 Strand]) = Inl (UseAfterFree 0 h) \<and>
     h \<in> {StrandHandler (Derived CloseTask), StrandHandler (Derived CloseSessionsTask)} \<and>
     \<not> never_asks_to_close ref_msgpack sample_exit"
  using sample_gone_dangles session_outlives_handlers [OF sample_gone_dangles] by blast

end
