(* ===== verification/Zones.thy ===== *)
theory Zones
  imports Response
begin

section \<open>The memory behind an answer\<close>

text \<open>
  A \<open>msgpack::object\<close> that holds a string, an array, a map or binary data points into a zone; an
  \<open>object_handle\<close> is an object and the zone it owns, if any. Assigning a handle destroys the
  zone it owned, \<open>set\<close> replaces the object alone (both as msgpack documents them). The other
  theories treat a handle as the object it holds; here the worker threads with their \<open>error_\<close>
  and \<open>resp_\<close> handles (include/this\_handler.inl, src/this\_handler.cpp), the responses they have
  posted on a write strand (src/detail/response.cpp, src/detail/server\_session.cpp) and the zones
  that are alive are modelled, to see whether the memory is still there when the strand packs
  them.
\<close>

fun needs_zone :: "mobj \<Rightarrow> bool" where
  "needs_zone MNil = False"
| "needs_zone (MBool b) = False"
| "needs_zone (MInt i) = False"
| "needs_zone (MFloat f) = False"
| "needs_zone _ = True"

record object_ref =
  or_val :: mobj
  or_zone :: "nat option"

record object_handle =
  oh_obj :: object_ref
  oh_zone :: "nat option"

definition nil_ref :: object_ref where
  "nil_ref = \<lparr>or_val = MNil, or_zone = None\<rparr>"

definition empty_handle :: object_handle where
  "empty_handle = \<lparr>oh_obj = nil_ref, oh_zone = None\<rparr>"

record zone_response =
  zr_error :: "object_handle option"
  zr_result :: "object_handle option"

text \<open>The two handles of a thread-local this\_handler\_t; the oldest posted response comes first;
  \<open>z_packed\<close> holds the error and the result that each response was packed with.\<close>

datatype slot = ErrorSlot | RespSlot

record zone_state =
  z_next :: nat
  z_live :: "nat list"
  z_local :: "nat \<Rightarrow> slot \<Rightarrow> object_handle"
  z_posted :: "zone_response list"
  z_packed :: "(mobj option \<times> mobj option) list"

definition zone_init :: zone_state where
  "zone_init = \<lparr>z_next = 0, z_live = [], z_local = (\<lambda>t s. empty_handle), z_posted = [], z_packed = []\<rparr>"

text \<open>detail::pack makes a zone and the object in it.\<close>

definition pack_handle :: "mobj \<Rightarrow> zone_state \<Rightarrow> object_handle \<times> zone_state" where
  "pack_handle v z =
     (\<lparr>oh_obj = \<lparr>or_val = v, or_zone = (if needs_zone v then Some (z_next z) else None)\<rparr>,
       oh_zone = Some (z_next z)\<rparr>,
      z\<lparr>z_next := Suc (z_next z), z_live := z_next z # z_live z\<rparr>)"

definition release :: "nat option \<Rightarrow> zone_state \<Rightarrow> zone_state" where
  "release zo z = (case zo of None \<Rightarrow> z | Some i \<Rightarrow> z\<lparr>z_live := removeAll i (z_live z)\<rparr>)"

definition handle_set :: "object_ref \<Rightarrow> object_handle \<Rightarrow> object_handle" where
  "handle_set ob h = h\<lparr>oh_obj := ob\<rparr>"

subsection \<open>this\_handler\<close>

definition put_slot :: "nat \<Rightarrow> slot \<Rightarrow> object_handle \<Rightarrow> zone_state \<Rightarrow> zone_state" where
  "put_slot t s h z = z\<lparr>z_local := (z_local z)(t := (z_local z t)(s := h))\<rparr>"

definition assign_slot :: "nat \<Rightarrow> slot \<Rightarrow> object_handle \<Rightarrow> zone_state \<Rightarrow> zone_state" where
  "assign_slot t s h z = put_slot t s h (release (oh_zone (z_local z t s)) z)"

definition zone_clear :: "nat \<Rightarrow> zone_state \<Rightarrow> zone_state" where
  "zone_clear t z =
     (let z1 = put_slot t ErrorSlot (handle_set nil_ref (z_local z t ErrorSlot)) z
      in put_slot t RespSlot (handle_set nil_ref (z_local z1 t RespSlot)) z1)"

definition zone_respond_error :: "nat \<Rightarrow> mobj \<Rightarrow> zone_state \<Rightarrow> zone_state" where
  "zone_respond_error t err_obj z = (case pack_handle err_obj z of (h, z1) \<Rightarrow> assign_slot t ErrorSlot h z1)"

definition zone_respond :: "nat \<Rightarrow> mobj \<Rightarrow> zone_state \<Rightarrow> zone_state" where
  "zone_respond t resp_obj z = (case pack_handle resp_obj z of (h, z1) \<Rightarrow> assign_slot t RespSlot h z1)"

subsection \<open>Responses\<close>

definition zone_make_result :: "mobj \<Rightarrow> zone_state \<Rightarrow> zone_response \<times> zone_state" where
  "zone_make_result v z = (case pack_handle v z of (h, z1) \<Rightarrow> (\<lparr>zr_error = None, zr_result = Some h\<rparr>, z1))"

definition zone_make_error :: "string \<Rightarrow> zone_state \<Rightarrow> zone_response \<times> zone_state" where
  "zone_make_error msg z =
     (case pack_handle (MStr msg) z of (h, z1) \<Rightarrow> (\<lparr>zr_error = Some h, zr_result = None\<rparr>, z1))"

text \<open>capture\_error and capture\_result set the object in the handle there is or in an empty one.\<close>

definition zone_capture :: "object_handle \<Rightarrow> object_handle option \<Rightarrow> object_handle option" where
  "zone_capture from_handle own =
     Some (handle_set (oh_obj from_handle) (case own of None \<Rightarrow> empty_handle | Some h \<Rightarrow> h))"

definition zone_captured :: "nat \<Rightarrow> zone_state \<Rightarrow> zone_response \<Rightarrow> zone_response" where
  "zone_captured t z resp =
     (if or_val (oh_obj (z_local z t ErrorSlot)) \<noteq> MNil
      then resp\<lparr>zr_error := zone_capture (z_local z t ErrorSlot) (zr_error resp)\<rparr>
      else if or_val (oh_obj (z_local z t RespSlot)) \<noteq> MNil
      then resp\<lparr>zr_result := zone_capture (z_local z t RespSlot) (zr_result resp)\<rparr>
      else resp)"

text \<open>
  How a handler ends: it returns a value, answers through this\_handler, or throws something
  else. \<open>msg\<close> is the error the dispatcher answers with in the last three cases.
\<close>

datatype handler_end = Returned mobj | RespondedError mobj | Responded mobj | Failed

definition run_handler :: "nat \<Rightarrow> handler_end \<Rightarrow> zone_state \<Rightarrow> zone_state" where
  "run_handler t h z = (case h of
       RespondedError v \<Rightarrow> zone_respond_error t v z
     | Responded v \<Rightarrow> zone_respond t v z
     | _ \<Rightarrow> z)"

definition zone_dispatch :: "handler_end \<Rightarrow> string \<Rightarrow> zone_state \<Rightarrow> zone_response \<times> zone_state" where
  "zone_dispatch h msg z = (case h of Returned v \<Rightarrow> zone_make_result v z | _ \<Rightarrow> zone_make_error msg z)"

text \<open>
  A request that thread \<open>t\<close> serves and answers; one that is not answered, a notification or a
  call with a disabled response; and the strand, which packs the oldest response and destroys
  it, and fails when an object's zone is gone.
\<close>

datatype zone_event = Answered nat handler_end string | Unanswered nat handler_end | PackNext

definition zone_request :: "nat \<Rightarrow> handler_end \<Rightarrow> string \<Rightarrow> zone_state \<Rightarrow> zone_state" where
  "zone_request t h msg z =
     (case zone_dispatch h msg (run_handler t h (zone_clear t z)) of (resp, z1) \<Rightarrow>
        z1\<lparr>z_posted := z_posted z1 @ [zone_captured t z1 resp]\<rparr>)"

definition readable :: "zone_state \<Rightarrow> object_handle option \<Rightarrow> bool" where
  "readable z ho = (case ho of None \<Rightarrow> True | Some h \<Rightarrow>
     (case or_zone (oh_obj h) of None \<Rightarrow> True | Some i \<Rightarrow> i \<in> set (z_live z)))"

definition value_in :: "object_handle option \<Rightarrow> mobj option" where
  "value_in ho = map_option (\<lambda>h. or_val (oh_obj h)) ho"

definition release_handle :: "object_handle option \<Rightarrow> zone_state \<Rightarrow> zone_state" where
  "release_handle ho z = (case ho of None \<Rightarrow> z | Some h \<Rightarrow> release (oh_zone h) z)"

definition pack_next :: "zone_state \<Rightarrow> zone_state option" where
  "pack_next z = (case z_posted z of
       [] \<Rightarrow> Some z
     | r # rs \<Rightarrow>
         if readable z (zr_error r) \<and> readable z (zr_result r)
         then Some (release_handle (zr_error r) (release_handle (zr_result r)
           (z\<lparr>z_posted := rs, z_packed := z_packed z @ [(value_in (zr_error r), value_in (zr_result r))]\<rparr>)))
         else None)"

fun zone_step :: "zone_state \<Rightarrow> zone_event \<Rightarrow> zone_state option" where
  "zone_step z (Answered t h msg) = Some (zone_request t h msg z)"
| "zone_step z (Unanswered t h) = Some (run_handler t h (zone_clear t z))"
| "zone_step z PackNext = pack_next z"

fun zone_run :: "zone_state \<Rightarrow> zone_event list \<Rightarrow> zone_state option" where
  "zone_run z [] = Some z"
| "zone_run z (e # es) = (case zone_step z e of None \<Rightarrow> None | Some z' \<Rightarrow> zone_run z' es)"

lemma zone_run_append:
  "zone_run z (es @ es') = (case zone_run z es of None \<Rightarrow> None | Some z' \<Rightarrow> zone_run z' es')"
  by (induction es arbitrary: z) (auto split: option.splits)

lemmas zone_slot_defs = zone_clear_def zone_respond_error_def zone_respond_def assign_slot_def put_slot_def
  pack_handle_def release_def handle_set_def run_handler_def

lemmas zone_defs = zone_slot_defs zone_request_def zone_dispatch_def zone_make_result_def
  zone_make_error_def zone_captured_def zone_capture_def nil_ref_def empty_handle_def

subsection \<open>What is alive\<close>

text \<open>Zones are numbered in the order they are made. A zone is one of a posted response (no slot owns
  it), or held by one slot, or gone.\<close>

definition slots_old :: "zone_state \<Rightarrow> bool" where
  "slots_old z \<longleftrightarrow> (\<forall>t s i. oh_zone (z_local z t s) = Some i \<longrightarrow> i < z_next z)"

definition posted_zone :: "zone_state \<Rightarrow> nat \<Rightarrow> bool" where
  "posted_zone z i \<longleftrightarrow> i < z_next z \<and> i \<in> set (z_live z) \<and> (\<forall>t s. oh_zone (z_local z t s) \<noteq> Some i)"

definition held_zone :: "nat \<times> slot \<Rightarrow> zone_state \<Rightarrow> nat \<Rightarrow> bool" where
  "held_zone p z i \<longleftrightarrow> i < z_next z \<and> i \<in> set (z_live z) \<and>
     (\<forall>t s. oh_zone (z_local z t s) = Some i \<longleftrightarrow> (t, s) = p)"

definition zone_gone :: "zone_state \<Rightarrow> nat \<Rightarrow> bool" where
  "zone_gone z i \<longleftrightarrow> i < z_next z \<and> i \<notin> set (z_live z)"

lemmas zone_alive_defs = slots_old_def posted_zone_def held_zone_def zone_gone_def

text \<open>The slot that a request assigns.\<close>

definition slot_of :: "handler_end \<Rightarrow> slot option" where
  "slot_of h = (case h of RespondedError v \<Rightarrow> Some ErrorSlot | Responded v \<Rightarrow> Some RespSlot | _ \<Rightarrow> None)"

fun assigned :: "zone_event \<Rightarrow> (nat \<times> slot) option" where
  "assigned (Answered t h msg) = map_option (Pair t) (slot_of h)"
| "assigned (Unanswered t h) = map_option (Pair t) (slot_of h)"
| "assigned PackNext = None"

text \<open>The three parts of a request: the reset, the handler, and the response that is made and posted.\<close>

lemma clear_frames [simp]:
  "z_next (zone_clear t z) = z_next z" "z_live (zone_clear t z) = z_live z"
  "z_posted (zone_clear t z) = z_posted z" "z_packed (zone_clear t z) = z_packed z"
  "oh_zone (z_local (zone_clear t z) t' s') = oh_zone (z_local z t' s')"
  by (simp_all add: zone_clear_def put_slot_def handle_set_def Let_def)

lemma run_handler_none: "slot_of h = None \<Longrightarrow> run_handler t h z = z"
  by (cases h) (simp_all add: slot_of_def run_handler_def)

lemma run_handler_some:
  assumes "slot_of h = Some s"
  shows "z_next (run_handler t h z) = Suc (z_next z)"
    and "set (z_live (run_handler t h z)) = insert (z_next z) (set (z_live z)) -
      (case oh_zone (z_local z t s) of None \<Rightarrow> {} | Some i \<Rightarrow> {i})"
    and "z_posted (run_handler t h z) = z_posted z" and "z_packed (run_handler t h z) = z_packed z"
    and "oh_zone (z_local (run_handler t h z) t' s') =
      (if t' = t \<and> s' = s then Some (z_next z) else oh_zone (z_local z t' s'))"
  using assms
  by (cases h; cases "oh_zone (z_local z t s)"; auto simp: slot_of_def run_handler_def zone_respond_error_def
      zone_respond_def pack_handle_def assign_slot_def put_slot_def release_def)+

lemma run_handler_keeps:
  shows "slots_old z \<Longrightarrow> slots_old (run_handler t h z)"
    and "posted_zone z i \<Longrightarrow> posted_zone (run_handler t h z) i"
    and "held_zone p z i \<Longrightarrow> if map_option (Pair t) (slot_of h) = Some p
      then zone_gone (run_handler t h z) i else held_zone p (run_handler t h z) i"
    and "zone_gone z i \<Longrightarrow> zone_gone (run_handler t h z) i"
  by (cases "slot_of h";
      force simp: zone_alive_defs run_handler_none run_handler_some less_SucI split: option.splits)+

lemma request_frames:
  assumes "z1 = run_handler t h (zone_clear t z)" and "z2 = zone_request t h msg z"
  shows "z_next z2 = Suc (z_next z1)" and "z_live z2 = z_next z1 # z_live z1"
    and "z_local z2 = z_local z1" and "\<exists>r. z_posted z2 = z_posted z1 @ [r]" and "z_packed z2 = z_packed z1"
  unfolding assms
  by (cases h; simp add: zone_request_def zone_dispatch_def zone_make_result_def zone_make_error_def pack_handle_def)+

lemma new_zone_keeps:
  assumes "z_next z2 = Suc (z_next z1)" and "z_live z2 = z_next z1 # z_live z1" and "z_local z2 = z_local z1"
  shows "slots_old z1 \<Longrightarrow> slots_old z2" and "posted_zone z1 i \<Longrightarrow> posted_zone z2 i"
    and "held_zone p z1 i \<Longrightarrow> held_zone p z2 i" and "zone_gone z1 i \<Longrightarrow> zone_gone z2 i"
  using assms by (auto simp: zone_alive_defs less_SucI)

lemma clear_alive [simp]:
  "slots_old (zone_clear t z) = slots_old z" "posted_zone (zone_clear t z) i = posted_zone z i"
  "held_zone p (zone_clear t z) i = held_zone p z i" "zone_gone (zone_clear t z) i = zone_gone z i"
  by (simp_all add: zone_alive_defs)

lemma run_handler_frames [simp]:
  "z_posted (run_handler t h z) = z_posted z" "z_packed (run_handler t h z) = z_packed z"
  by (cases "slot_of h"; simp add: run_handler_none run_handler_some)+

lemma request_keeps:
  assumes "zone_step z e = Some z'" and "e \<noteq> PackNext"
  shows "slots_old z \<Longrightarrow> slots_old z'"
    and "posted_zone z i \<Longrightarrow> posted_zone z' i"
    and "held_zone p z i \<Longrightarrow> if assigned e = Some p then zone_gone z' i else held_zone p z' i"
    and "zone_gone z i \<Longrightarrow> zone_gone z' i"
    and "\<exists>rs. z_posted z' = z_posted z @ rs" and "z_packed z' = z_packed z"
proof -
  obtain t h where e: "assigned e = map_option (Pair t) (slot_of h)"
    and z': "z' = run_handler t h (zone_clear t z) \<or> (\<exists>msg. z' = zone_request t h msg z)"
    using assms by (cases e) auto
  let ?z1 = "run_handler t h (zone_clear t z)"
  note keeps = run_handler_keeps [where z = "zone_clear t z" and t = t and h = h, simplified] e
  have new: "(slots_old ?z1 \<longrightarrow> slots_old z') \<and> (posted_zone ?z1 i \<longrightarrow> posted_zone z' i) \<and>
      (held_zone p ?z1 i \<longrightarrow> held_zone p z' i) \<and> (zone_gone ?z1 i \<longrightarrow> zone_gone z' i) \<and>
      (\<exists>rs. z_posted z' = z_posted z @ rs) \<and> z_packed z' = z_packed z"
    using z'
  proof (elim disjE exE)
    fix m assume "z' = zone_request t h m z"
    note frames = request_frames [OF refl this]
    from new_zone_keeps [OF frames(1-3)] frames(4,5) show ?thesis by auto
  qed simp
  show "slots_old z \<Longrightarrow> slots_old z'" "posted_zone z i \<Longrightarrow> posted_zone z' i"
    "zone_gone z i \<Longrightarrow> zone_gone z' i" "\<exists>rs. z_posted z' = z_posted z @ rs" "z_packed z' = z_packed z"
    using new keeps by blast+
  show "if assigned e = Some p then zone_gone z' i else held_zone p z' i" if "held_zone p z i"
    using new keeps(3) [OF that] e by (auto split: if_splits)
qed

text \<open>The strand destroys a response and nothing a slot owns, and requests never fail.\<close>

lemma requests_total: "e \<noteq> PackNext \<Longrightarrow> \<exists>z'. zone_step z e = Some z'"
  by (cases e) simp_all

lemma release_handle_frames [simp]:
  "z_next (release_handle ho z) = z_next z" "z_local (release_handle ho z) = z_local z"
  "z_packed (release_handle ho z) = z_packed z" "z_posted (release_handle ho z) = z_posted z"
  by (simp_all add: release_handle_def release_def split: option.splits)

lemma zone_run_old: "slots_old z \<Longrightarrow> zone_run z es = Some z' \<Longrightarrow> slots_old z'"
proof (induction es arbitrary: z)
  case (Cons e es)
  obtain y where y: "zone_step z e = Some y" "zone_run y es = Some z'"
    using Cons.prems(2) by (auto split: option.splits)
  have "slots_old y"
  proof (cases "e = PackNext")
    case True
    with y(1) Cons.prems(1) show ?thesis
      by (auto simp: pack_next_def slots_old_def split: list.splits if_splits)
  qed (use request_keeps(1) [OF y(1) _ Cons.prems(1)] in blast)
  with Cons.IH y(2) show ?case by blast
qed simp

lemma requests_run:
  assumes "PackNext \<notin> set es"
  shows "\<exists>z'. zone_run z es = Some z' \<and> (\<exists>rs. z_posted z' = z_posted z @ rs) \<and> z_packed z' = z_packed z \<and>
     (posted_zone z i \<longrightarrow> posted_zone z' i) \<and> (zone_gone z j \<longrightarrow> zone_gone z' j) \<and>
     (held_zone p z j \<longrightarrow> (if Some p \<in> assigned ` set es then zone_gone z' j else held_zone p z' j))"
  using assms
proof (induction es arbitrary: z)
  case (Cons e es)
  have e: "e \<noteq> PackNext" and es: "PackNext \<notin> set es" using Cons.prems by auto
  obtain y where y: "zone_step z e = Some y" using requests_total [OF e] by blast
  note keeps = request_keeps [OF y e]
  obtain z' where z': "zone_run y es = Some z'" "\<exists>rs. z_posted z' = z_posted y @ rs" "z_packed z' = z_packed y"
      "posted_zone y i \<longrightarrow> posted_zone z' i" "zone_gone y j \<longrightarrow> zone_gone z' j"
      "held_zone p y j \<longrightarrow> (if Some p \<in> assigned ` set es then zone_gone z' j else held_zone p z' j)"
    using Cons.IH [OF es, of y] by blast
  have "if Some p \<in> assigned ` set (e # es) then zone_gone z' j else held_zone p z' j" if "held_zone p z j"
    using keeps(3) [OF that] z'(5,6) by (auto split: if_splits)
  with y z' keeps show ?case by (intro exI [of _ z']) auto
qed simp

subsection \<open>Which answers dangle\<close>

text \<open>What a call is answered with, as error and result, and whether the memory of that is gone when
  the requests \<open>es\<close> are served before the strand runs.\<close>

definition sent_as :: "handler_end \<Rightarrow> string \<Rightarrow> mobj option \<times> mobj option" where
  "sent_as h msg = (case h of
       Returned v \<Rightarrow> (None, Some v)
     | RespondedError v \<Rightarrow> (Some (if v = MNil then MStr msg else v), None)
     | Responded v \<Rightarrow> (Some (MStr msg), if v = MNil then None else Some v)
     | Failed \<Rightarrow> (Some (MStr msg), None))"

definition by_pointer :: "handler_end \<Rightarrow> bool" where
  "by_pointer h = (case h of RespondedError v \<Rightarrow> needs_zone v | Responded v \<Rightarrow> needs_zone v | _ \<Rightarrow> False)"

definition dangles :: "nat \<Rightarrow> handler_end \<Rightarrow> zone_event list \<Rightarrow> bool" where
  "dangles t h es \<longleftrightarrow> by_pointer h \<and> (\<exists>s. slot_of h = Some s \<and> Some (t, s) \<in> assigned ` set es)"

definition zones_in :: "zone_response \<Rightarrow> nat set" where
  "zones_in r = {i. \<exists>h. (zr_error r = Some h \<or> zr_result r = Some h) \<and> or_zone (oh_obj h) = Some i}"

lemma readable_zones:
  "readable z (zr_error r) \<and> readable z (zr_result r) \<longleftrightarrow> zones_in r \<subseteq> set (z_live z)"
  by (auto simp: readable_def zones_in_def split: option.splits)

text \<open>The zones in the response that a request posts: its own, and the one it shares with the slot.\<close>

lemma posted_response:
  assumes "slots_old z" and "z_posted z = []"
  shows "\<exists>r. z_posted (zone_request t h msg z) = [r] \<and>
     (value_in (zr_error r), value_in (zr_result r)) = sent_as h msg \<and>
     (\<forall>i \<in> zones_in r. posted_zone (zone_request t h msg z) i \<or> by_pointer h \<and> i = z_next z) \<and>
     (by_pointer h \<longrightarrow> z_next z \<in> zones_in r \<and>
        (\<exists>s. slot_of h = Some s \<and> held_zone (t, s) (zone_request t h msg z) (z_next z)))"
proof -
  have old: "oh_zone (z_local z t' s') \<noteq> Some (z_next z)" "oh_zone (z_local z t' s') \<noteq> Some (Suc (z_next z))" for t' s'
    using assms(1) by (metis slots_old_def less_irrefl, metis slots_old_def less_Suc_eq not_less_eq)
  show ?thesis
    using assms old
    by (cases h) (auto simp: zone_defs Let_def sent_as_def by_pointer_def slot_of_def zones_in_def
        value_in_def posted_zone_def held_zone_def split: option.splits)
qed

lemma answer_dangles:
  assumes "zone_run zone_init es = Some z" and "z_posted z = []" and "PackNext \<notin> set fs"
  shows "case zone_run z (Answered t h msg # fs @ [PackNext]) of
     None \<Rightarrow> dangles t h fs
   | Some z' \<Rightarrow> \<not> dangles t h fs \<and> z_packed z' = z_packed z @ [sent_as h msg]"
proof -
  let ?y = "zone_request t h msg z"
  have "slots_old zone_init" by (simp add: slots_old_def zone_init_def empty_handle_def)
  from zone_run_old [OF this assms(1)] have old: "slots_old z" .
  obtain r where r: "z_posted ?y = [r]" "(value_in (zr_error r), value_in (zr_result r)) = sent_as h msg"
      "\<forall>i \<in> zones_in r. posted_zone ?y i \<or> by_pointer h \<and> i = z_next z"
      "by_pointer h \<longrightarrow> z_next z \<in> zones_in r \<and> (\<exists>s. slot_of h = Some s \<and> held_zone (t, s) ?y (z_next z))"
    using posted_response [OF old assms(2), of t h msg] by blast
  have packed: "z_packed ?y = z_packed z"
    using request_frames(5) [OF refl refl, of t h msg z] by simp
  obtain u where u: "zone_run ?y fs = Some u" using requests_run [OF assms(3), of ?y] by blast
  have run: "(\<exists>rs. z_posted u = z_posted ?y @ rs) \<and> z_packed u = z_packed ?y \<and>
     (posted_zone ?y i \<longrightarrow> posted_zone u i) \<and>
     (held_zone p ?y j \<longrightarrow> (if Some p \<in> assigned ` set fs then zone_gone u j else held_zone p u j))" for i j p
    using requests_run [OF assms(3), of ?y i j p] u by auto
  obtain rs where rs: "z_posted u = r # rs" using run [THEN conjunct1] r(1) by auto
  have own: "i \<in> set (z_live u)" if "posted_zone ?y i" for i
    using run that by (auto simp: posted_zone_def)
  have shared: "z_next z \<in> set (z_live u) \<longleftrightarrow> \<not> dangles t h fs" if pointer: "by_pointer h"
  proof -
    obtain s where s: "slot_of h = Some s" "held_zone (t, s) ?y (z_next z)" using r(4) pointer by blast
    with run [of _ "(t, s)" "z_next z"] pointer show ?thesis
      by (auto simp: dangles_def held_zone_def zone_gone_def split: if_splits)
  qed
  have "zones_in r \<subseteq> set (z_live u) \<longleftrightarrow> \<not> dangles t h fs"
    using r(3,4) own shared by (auto simp: dangles_def)
  then have next_one: "readable u (zr_error r) \<and> readable u (zr_result r) \<longleftrightarrow> \<not> dangles t h fs"
    by (simp add: readable_zones)
  have "zone_run z (Answered t h msg # fs @ [PackNext]) = pack_next u"
    using u by (simp add: zone_run_append split: option.splits)
  then show ?thesis
    using next_one run r(2) rs packed by (auto simp: pack_next_def)
qed

text \<open>C40. The answer that a handler gives through respond\_error or respond is sent by pointer: the posted
  response shares the memory of the object with the thread-local handle, which alone owns it.
  From any reachable state with nothing posted, and whatever requests any threads serve before
  the strand packs the response: packing reads freed memory exactly when the value is more than
  a scalar and the same thread has answered in the same way again; otherwise the response
  carries what it was given, beside the error text of the dispatcher in the case of respond.
  Results that functions return never dangle.\<close>

theorem answer_object_dangles:
  assumes "zone_run zone_init es = Some z" and "z_posted z = []" and "PackNext \<notin> set fs"
  shows "case zone_run z (Answered t h msg # fs @ [PackNext]) of
     None \<Rightarrow> dangles t h fs
   | Some z' \<Rightarrow> \<not> dangles t h fs \<and> z_packed z' = z_packed z @ [sent_as h msg]"
  using assms by (rule answer_dangles)

theorem answer_object_dangles_witness:
  "zone_run zone_init [Answered 1 (RespondedError (MStr ''no such user'')) ''x'',
     Unanswered 2 (RespondedError (MStr ''y'')), Answered 1 (RespondedError (MInt 1)) ''z'', PackNext] = None \<and>
   (\<exists>z. zone_run zone_init [Answered 1 (Responded (MStr ''a'')) ''x'',
      Unanswered 2 (Responded (MStr ''y'')), Answered 1 (RespondedError (MInt 1)) ''z'', PackNext] = Some z \<and>
      z_packed z = [(Some (MStr ''x''), Some (MStr ''a''))])"
proof -
  have run: "zone_run zone_init [] = Some zone_init" "z_posted zone_init = []" by (simp_all add: zone_init_def)
  let ?fs = "\<lambda>h. [Unanswered 2 h, Answered 1 (RespondedError (MInt 1)) ''z'']"
  have 1: "PackNext \<notin> set (?fs h)" for h by simp
  have "dangles 1 (RespondedError (MStr ''no such user'')) (?fs h)" "\<not> dangles 1 (Responded (MStr ''a'')) (?fs (Responded v))" for h v
    by (simp_all add: dangles_def by_pointer_def slot_of_def)
  with answer_object_dangles [OF run 1 [of "RespondedError (MStr ''y'')"],
      where t = 1 and h = "RespondedError (MStr ''no such user'')" and msg = "''x''"]
    answer_object_dangles [OF run 1 [of "Responded (MStr ''y'')"],
      where t = 1 and h = "Responded (MStr ''a'')" and msg = "''x''"]
  show ?thesis by (simp add: sent_as_def zone_init_def split: option.splits)
qed

end
