(* ===== verification/TypedCalls.thy ===== *)
theory TypedCalls
  imports DispatcherSpec
begin

section \<open>Bound functions see arguments of their parameter types\<close>

text \<open>
  The values a C++ type can take, as the objects that stand for them: integers in the range of
  their width, strings, booleans, vectors and tuples of such. Nothing is said of classes and of
  floating point numbers. The conversion of msgpack yields values of the target types.
\<close>

fun conforms :: "cpptype \<Rightarrow> mobj \<Rightarrow> bool"
  and conforms_all :: "cpptype list \<Rightarrow> mobj list \<Rightarrow> bool" where
  "conforms TBool ob = (case ob of MBool b \<Rightarrow> True | _ \<Rightarrow> False)"
| "conforms (TInt n) ob = (case ob of MInt i \<Rightarrow> - (2 ^ (n - 1)) \<le> i \<and> i < 2 ^ (n - 1) | _ \<Rightarrow> False)"
| "conforms (TUInt n) ob = (case ob of MInt i \<Rightarrow> 0 \<le> i \<and> i < 2 ^ n | _ \<Rightarrow> False)"
| "conforms TString ob = (case ob of MStr s \<Rightarrow> True | _ \<Rightarrow> False)"
| "conforms (TVector t) ob = (case ob of MArray xs \<Rightarrow> list_all (conforms t) xs | _ \<Rightarrow> False)"
| "conforms (TTuple ts) ob = (case ob of MArray xs \<Rightarrow> conforms_all ts xs | _ \<Rightarrow> False)"
| "conforms _ ob = True"
| "conforms_all [] xs \<longleftrightarrow> xs = []"
| "conforms_all (t # ts) xs \<longleftrightarrow> (case xs of [] \<Rightarrow> False | y # ys \<Rightarrow> conforms t y \<and> conforms_all ts ys)"

definition typed_args :: "'w bound_func \<Rightarrow> mobj list \<Rightarrow> bool" where
  "typed_args f as \<longleftrightarrow> list_all2 conforms (args_type (func_traits (fn_callable f))) as"

definition conversion_typed :: "msgpack \<Rightarrow> bool" where
  "conversion_typed mp \<longleftrightarrow> (\<forall>ts ob as. mp_as_args mp ts ob = Some as \<longrightarrow> list_all2 conforms ts as)"

lemma ref_conforms_typed: "ref_conforms t ob \<Longrightarrow> conforms t ob"
  by (cases t; cases ob) (auto simp: ref_conforms_def as_int_def as_str_def split: if_splits)

lemma ref_conversion_typed: "conversion_typed ref_msgpack"
  unfolding conversion_typed_def
proof (intro allI impI)
  fix ts ob as
  assume "mp_as_args ref_msgpack ts ob = Some as"
  then have "list_all2 ref_conforms ts as"
    by (auto simp: ref_msgpack_simps ref_as_args_def split: mobj.splits if_splits)
  then show "list_all2 conforms ts as" by (rule list_all2_mono) (rule ref_conforms_typed)
qed

lemma bound_args_typed:
  "conversion_typed mp \<Longrightarrow> bound_args mp f args = Some as \<Longrightarrow> typed_args f as"
  using args_type_length [of "fn_callable f"]
  by (auto simp: bound_args_def typed_args_def conversion_typed_def bound_arity_def split: if_splits)

text \<open>C16. A bound function is only ever run on arguments of its parameter types: two functions with the
  same signature that behave alike on such arguments are the same to bind, and so to every
  message that is dispatched afterwards, whatever arguments, of whatever types and in whatever
  number, the message carries.\<close>

theorem body_sees_typed_args:
  assumes "conversion_typed mp" and "fn_callable f = fn_callable g"
    and "\<And>as c. typed_args f as \<Longrightarrow> fn_body f as c = fn_body g as c"
  shows "bind mp name f d = bind mp name g d"
proof -
  have "bound_call mp name f args c = bound_call mp name g args c" for args c
  proof (cases "bound_args mp f args")
    case (Some as)
    have "fn_body f as c = fn_body g as c" by (rule assms(3) [OF bound_args_typed [OF assms(1) Some]])
    moreover have "bound_args mp g args = Some as"
      using Some by (simp only: bound_args_def bound_arity_def assms(2))
    moreover have "bound_result f = bound_result g"
      using assms(2) by (intro ext) (simp add: bound_result_def)
    ultimately show ?thesis
      using Some assms(2) by (auto simp: bound_call_def bound_arity_def split: sum.splits prod.splits)
  next
    case None
    moreover have "bound_args mp g args = None"
      using None by (simp only: bound_args_def bound_arity_def assms(2))
    ultimately show ?thesis
      using assms(2) by (simp add: bound_call_def bound_arity_def)
  qed
  then have "bound_call mp name f = bound_call mp name g" by (intro ext)
  then show ?thesis by (simp add: bind_overloads_spec)
qed

text \<open>For the witness: the sample addition against one that fails on anything but two ints.\<close>

definition sample_strict_add :: "mobj list list bound_func" where
  "sample_strict_add = sample_add\<lparr>fn_body := (\<lambda>as c.
     (case as of [MInt a, MInt b] \<Rightarrow> (Inr (MInt (a + b)), c\<lparr>world := world c @ [as]\<rparr>)
       | _ \<Rightarrow> (Inl OtherThrown, c)))\<rparr>"

lemma conforms_int: "conforms (TInt n) ob \<Longrightarrow> \<exists>i. ob = MInt i"
  by (cases ob) auto

lemma sample_typed: "typed_args sample_add as \<Longrightarrow> \<exists>a b. as = [MInt a, MInt b]"
  by (auto simp: typed_args_def sample_add_def decay_def list_all2_Cons1
      simp del: conforms.simps dest!: conforms_int)

theorem body_sees_typed_args_witness:
  "bind ref_msgpack ''add'' sample_add Dispatcher_new = bind ref_msgpack ''add'' sample_strict_add Dispatcher_new \<and>
   fn_body sample_add [MNil] (fresh_ctx []) \<noteq> fn_body sample_strict_add [MNil] (fresh_ctx [])"
proof
  show "bind ref_msgpack ''add'' sample_add Dispatcher_new =
      bind ref_msgpack ''add'' sample_strict_add Dispatcher_new"
  proof (rule body_sees_typed_args [OF ref_conversion_typed])
    show "fn_callable sample_add = fn_callable sample_strict_add" by (simp add: sample_strict_add_def)
    show "fn_body sample_add as c = fn_body sample_strict_add as c" if "typed_args sample_add as" for as c
      using sample_typed [OF that] by (auto simp: sample_add_def sample_strict_add_def)
  qed
  show "fn_body sample_add [MNil] (fresh_ctx []) \<noteq> fn_body sample_strict_add [MNil] (fresh_ctx [])"
    by (simp add: sample_add_def sample_strict_add_def)
qed

end
