(* ===== verification/Logging.thy ===== *)
theory Logging
  imports CppFormat "HOL-Library.Sublist"
begin

section \<open>Logging (include/log, src/log/formatter.cpp)\<close>

text \<open>
  The logger of every component: a level, and handlers that are asked in the order of the
  tuple. A handler has a level, a formatter and the stream it writes to; the three handler
  classes of the repository (default, stream, file) emit in the same way and differ in their
  streams. The levels are template arguments in the code; here they are values. How
  \<open>std::chrono\<close> prints a time point is a parameter of \<open>format_record\<close>, because its precision is
  the platform's. The state that streams write to is the console and a file system; a path is
  the list of its components, and every file is written through one stream at a time.
\<close>

subsection \<open>Levels\<close>

datatype level = Critical | Error | Warning | Info | Debug | Trace

fun level_value :: "level \<Rightarrow> int" where
  "level_value Critical = 0"
| "level_value Error = 1"
| "level_value Warning = 2"
| "level_value Info = 3"
| "level_value Debug = 4"
| "level_value Trace = 5"

lemma level_value_inject [simp]: "level_value a = level_value b \<longleftrightarrow> a = b"
  by (cases a; cases b) simp_all

text \<open>The relational operators of an enumeration compare its values.\<close>

instantiation level :: linorder
begin

definition less_eq_level :: "level \<Rightarrow> level \<Rightarrow> bool" where
  "less_eq_level a b \<longleftrightarrow> level_value a \<le> level_value b"

definition less_level :: "level \<Rightarrow> level \<Rightarrow> bool" where
  "less_level a b \<longleftrightarrow> level_value a < level_value b"

instance
  by intro_classes (auto simp: less_eq_level_def less_level_def)

end

definition level_names :: "string list" where
  "level_names = [''CRITICAL'', ''ERROR'', ''WARNING'', ''INFO'', ''DEBUG'', ''TRACE'']"

definition to_level_name :: "level \<Rightarrow> string" where
  "to_level_name l = level_names ! nat (level_value l)"

subsection \<open>Records and their format\<close>

record source_location =
  sl_file_name :: string
  sl_line :: nat
  sl_function_name :: string

record 'tp log_record =
  lr_name :: string
  lr_level :: level
  lr_time :: 'tp
  lr_msg :: string
  lr_location :: source_location

definition level_name :: "'tp log_record \<Rightarrow> string" where
  "level_name r = to_level_name (lr_level r)"

text \<open>\<open>day\<close> and \<open>clock\<close> print the time point with the formats for the date and the time.\<close>

definition format_record ::
  "('tp \<Rightarrow> string) \<Rightarrow> ('tp \<Rightarrow> string) \<Rightarrow> 'tp log_record \<Rightarrow> string" where
  "format_record day clock r =
     pad_right 16 (CHR '' '') (lr_name r) @ ''| ['' @ level_name r @ ''] '' @ day (lr_time r) @ ''T'' @
     clock (lr_time r) @ ''Z - <'' @ sl_file_name (lr_location r) @ '':'' @
     fmt_nat (sl_line (lr_location r)) @ '' ['' @ sl_function_name (lr_location r) @ '']> - '' @
     lr_msg r"

subsection \<open>Streams and files\<close>

datatype path = Absolute "string list" | Relative "string list"

record io =
  io_console :: "string list"
  io_cwd :: "string list"
  io_dirs :: "string list list"
  io_files :: "(string list \<times> string list) list"

datatype ostream = Console | OpenFile "string list" | FailedStream

definition file_lines :: "io \<Rightarrow> string list \<Rightarrow> string list option" where
  "file_lines io p = map_of (io_files io) p"

definition set_file :: "string list \<Rightarrow> string list \<Rightarrow> io \<Rightarrow> io" where
  "set_file p ls io = io\<lparr>io_files := (p, ls) # io_files io\<rparr>"

text \<open>Writing a line to a stream whose file could not be opened has no effect.\<close>

fun put_line :: "ostream \<Rightarrow> string \<Rightarrow> io \<Rightarrow> io" where
  "put_line Console line io = io\<lparr>io_console := io_console io @ [line]\<rparr>"
| "put_line (OpenFile p) line io =
     set_file p ((case file_lines io p of None \<Rightarrow> [] | Some ls \<Rightarrow> ls) @ [line]) io"
| "put_line FailedStream line io = io"

fun absolute :: "io \<Rightarrow> path \<Rightarrow> string list" where
  "absolute io (Absolute cs) = cs"
| "absolute io (Relative cs) = io_cwd io @ cs"

text \<open>
  \<open>fs::create_directories\<close> makes all missing directories on the way and throws when a component
  is a file. An output stream is opened when the directory of the file exists; it truncates the
  file unless \<open>to_end\<close> is set.
\<close>

definition create_directories :: "string list \<Rightarrow> io \<Rightarrow> string + io" where
  "create_directories p io =
     (if \<exists>q \<in> set (prefixes p). file_lines io q \<noteq> None then Inl ''filesystem error''
      else Inr (io\<lparr>io_dirs := prefixes p @ io_dirs io\<rparr>))"

definition open_file :: "bool \<Rightarrow> path \<Rightarrow> io \<Rightarrow> ostream \<times> io" where
  "open_file to_end path io =
     (let p = absolute io path in
      if p \<noteq> [] \<and> butlast p \<in> set (io_dirs io) \<and> p \<notin> set (io_dirs io)
      then (OpenFile p, set_file p (if to_end then (case file_lines io p of None \<Rightarrow> [] | Some ls \<Rightarrow> ls) else []) io)
      else (FailedStream, io))"

subsection \<open>Handlers\<close>

text \<open>A handler is of one of the three classes, two of which have a stream of their own.\<close>

datatype sink = DefaultSink | StreamSink ostream | FileSink ostream

record 'tp log_handler =
  h_level :: level
  h_formatter :: "'tp log_record \<Rightarrow> string"
  h_sink :: sink

definition h_stream :: "'tp log_handler \<Rightarrow> ostream" where
  "h_stream h = (case h_sink h of DefaultSink \<Rightarrow> Console | StreamSink os \<Rightarrow> os | FileSink os \<Rightarrow> os)"

lemma h_stream_simps [simp]:
  "h_sink h = DefaultSink \<Longrightarrow> h_stream h = Console"
  "h_sink h = StreamSink os \<Longrightarrow> h_stream h = os" "h_sink h = FileSink os \<Longrightarrow> h_stream h = os"
  by (simp_all add: h_stream_def)

definition DefaultHandler :: "level \<Rightarrow> ('tp log_record \<Rightarrow> string) \<Rightarrow> 'tp log_handler" where
  "DefaultHandler l f = \<lparr>h_level = l, h_formatter = f, h_sink = DefaultSink\<rparr>"

text \<open>The constructors of StreamHandler for a stream of the caller and for the console.\<close>

definition StreamHandler :: "level \<Rightarrow> ostream \<Rightarrow> ('tp log_record \<Rightarrow> string) \<Rightarrow> 'tp log_handler" where
  "StreamHandler l os f = \<lparr>h_level = l, h_formatter = f, h_sink = StreamSink os\<rparr>"

definition StreamHandler_console :: "level \<Rightarrow> ('tp log_record \<Rightarrow> string) \<Rightarrow> 'tp log_handler" where
  "StreamHandler_console l f = StreamHandler l Console f"

text \<open>The constructors of FileHandler open the file; \<open>to_end\<close> is the open mode.\<close>

definition FileHandler ::
  "level \<Rightarrow> path \<Rightarrow> bool \<Rightarrow> ('tp log_record \<Rightarrow> string) \<Rightarrow> io \<Rightarrow> 'tp log_handler \<times> io" where
  "FileHandler l file_path to_end f io = (case open_file to_end file_path io of
     (os, io') \<Rightarrow> (\<lparr>h_level = l, h_formatter = f, h_sink = FileSink os\<rparr>, io'))"

definition ensure_directory :: "path \<Rightarrow> io \<Rightarrow> string + io" where
  "ensure_directory file_path io =
     (let parent_directory = butlast (absolute io file_path) in create_directories parent_directory io)"

definition FileHandler_create ::
  "level \<Rightarrow> path \<Rightarrow> bool \<Rightarrow> ('tp log_record \<Rightarrow> string) \<Rightarrow> io \<Rightarrow> string + 'tp log_handler \<times> io" where
  "FileHandler_create l file_path to_end f io =
     map_sum id (FileHandler l file_path to_end f) (ensure_directory file_path io)"

definition set_formatter :: "('tp log_record \<Rightarrow> string) \<Rightarrow> 'tp log_handler \<Rightarrow> 'tp log_handler" where
  "set_formatter f h = h\<lparr>h_formatter := f\<rparr>"

text \<open>
  Moves, as the object that is moved to. The move constructors copy the formatter and take the
  stream; move assignment keeps the level, which is a template argument, and takes the rest.
\<close>

definition handler_move :: "'tp log_handler \<Rightarrow> 'tp log_handler" where
  "handler_move other = \<lparr>h_level = h_level other, h_formatter = h_formatter other, h_sink = h_sink other\<rparr>"

definition handler_move_assign :: "'tp log_handler \<Rightarrow> 'tp log_handler \<Rightarrow> 'tp log_handler" where
  "handler_move_assign h other = h\<lparr>h_formatter := h_formatter other, h_sink := h_sink other\<rparr>"

definition handler_format :: "'tp log_handler \<Rightarrow> 'tp log_record \<Rightarrow> string" where
  "handler_format h r = h_formatter h r"

definition default_emit :: "level \<Rightarrow> 'tp log_record \<Rightarrow> 'tp log_handler \<Rightarrow> io \<Rightarrow> io" where
  "default_emit emit_level r h out =
     (if emit_level > h_level h then out else put_line Console (handler_format h r) out)"

definition stream_emit :: "ostream \<Rightarrow> level \<Rightarrow> 'tp log_record \<Rightarrow> 'tp log_handler \<Rightarrow> io \<Rightarrow> io" where
  "stream_emit os emit_level r h out =
     (if emit_level > h_level h then out else put_line os (handler_format h r) out)"

definition file_emit :: "ostream \<Rightarrow> level \<Rightarrow> 'tp log_record \<Rightarrow> 'tp log_handler \<Rightarrow> io \<Rightarrow> io" where
  "file_emit os emit_level r h out =
     (if emit_level > h_level h then out else put_line os (handler_format h r) out)"

definition emit :: "level \<Rightarrow> 'tp log_record \<Rightarrow> 'tp log_handler \<Rightarrow> io \<Rightarrow> io" where
  "emit emit_level r h out = (case h_sink h of
       DefaultSink \<Rightarrow> default_emit emit_level r h out
     | StreamSink os \<Rightarrow> stream_emit os emit_level r h out
     | FileSink os \<Rightarrow> file_emit os emit_level r h out)"

lemma emit_eq:
  "emit l r h out = (if l > h_level h then out else put_line (h_stream h) (handler_format h r) out)"
  by (cases "h_sink h") (simp_all add: emit_def default_emit_def stream_emit_def file_emit_def h_stream_def)

subsection \<open>Logger\<close>

record 'tp logger =
  lg_level :: level
  lg_name :: string
  lg_handlers :: "'tp log_handler list"

fun handle_log :: "level \<Rightarrow> nat \<Rightarrow> 'tp log_record \<Rightarrow> 'tp log_handler list \<Rightarrow> io \<Rightarrow> io" where
  "handle_log l 0 r hs out = emit l r (hs ! 0) out"
| "handle_log l (Suc i) r hs out = emit l r (hs ! Suc i) (handle_log l i r hs out)"

definition log_msg :: "'tp logger \<Rightarrow> level \<Rightarrow> string \<Rightarrow> 'tp \<Rightarrow> source_location \<Rightarrow> io \<Rightarrow> io" where
  "log_msg lg l msg now loc out =
     (if l > lg_level lg then out
      else handle_log l (length (lg_handlers lg) - 1)
        \<lparr>lr_name = lg_name lg, lr_level = l, lr_time = now, lr_msg = msg, lr_location = loc\<rparr>
        (lg_handlers lg) out)"

definition critical where "critical lg = log_msg lg Critical"
definition error where "error lg = log_msg lg Error"
definition warning where "warning lg = log_msg lg Warning"
definition info where "info lg = log_msg lg Info"
definition debug where "debug lg = log_msg lg Debug"
definition trace where "trace lg = log_msg lg Trace"

text \<open>The factory without handlers gives the default handler the level of the logger.\<close>

definition create_logger_with :: "level \<Rightarrow> string \<Rightarrow> 'tp log_handler list \<Rightarrow> 'tp logger" where
  "create_logger_with l name hs = \<lparr>lg_level = l, lg_name = name, lg_handlers = hs\<rparr>"

definition create_logger ::
  "('tp log_record \<Rightarrow> string) \<Rightarrow> level \<Rightarrow> string \<Rightarrow> 'tp logger" where
  "create_logger f l name = create_logger_with l name [DefaultHandler l f]"

text \<open>The move constructor and move assignment of Logger.\<close>

definition logger_move :: "'tp logger \<Rightarrow> 'tp logger" where
  "logger_move other = \<lparr>lg_level = lg_level other, lg_name = lg_name other,
     lg_handlers = map handler_move (lg_handlers other)\<rparr>"

definition logger_move_assign :: "'tp logger \<Rightarrow> 'tp logger \<Rightarrow> 'tp logger" where
  "logger_move_assign lg other = lg\<lparr>lg_name := lg_name other,
     lg_handlers := map2 handler_move_assign (lg_handlers lg) (lg_handlers other)\<rparr>"

lemma logger_move_same: "logger_move lg = lg"
proof -
  have "handler_move = (id :: 'a log_handler \<Rightarrow> 'a log_handler)"
    by (auto simp: fun_eq_iff handler_move_def)
  then show ?thesis by (simp add: logger_move_def)
qed

subsection \<open>What reaches a stream\<close>

definition content :: "io \<Rightarrow> ostream \<Rightarrow> string list" where
  "content io os = (case os of
       Console \<Rightarrow> io_console io
     | OpenFile p \<Rightarrow> (case file_lines io p of None \<Rightarrow> [] | Some ls \<Rightarrow> ls)
     | FailedStream \<Rightarrow> [])"

lemma content_put:
  "content (put_line os line io) os' = content io os' @ (if os = os' \<and> os \<noteq> FailedStream then [line] else [])"
  by (cases os; cases os') (auto simp: content_def set_file_def file_lines_def)

lemma handle_log_spec:
  "i < length hs \<Longrightarrow> s \<noteq> FailedStream \<Longrightarrow> content (handle_log l i r hs out) s =
     content out s @ map (\<lambda>h. handler_format h r) (filter (\<lambda>h. h_stream h = s \<and> l \<le> h_level h) (take (Suc i) hs))"
proof (induction i)
  case 0
  then show ?case by (cases hs) (auto simp: emit_eq not_less content_put)
next
  case (Suc i)
  then show ?case by (auto simp: emit_eq not_less take_Suc_conv_app_nth content_put)
qed

text \<open>C32. What a log call writes: nothing at all above the logger's level; otherwise every
  handler whose level admits the message writes exactly one line to its own stream (the console
  or a file that is open), and handlers that share a stream write in the order of the tuple.\<close>

theorem log_writes_once_in_order:
  assumes "lg_handlers lg \<noteq> []" and "s \<noteq> FailedStream"
  shows "content (log_msg lg l msg now loc out) s =
    (if lg_level lg < l then content out s
     else content out s @ map (\<lambda>h. handler_format h \<lparr>lr_name = lg_name lg, lr_level = l, lr_time = now,
         lr_msg = msg, lr_location = loc\<rparr>)
       (filter (\<lambda>h. h_stream h = s \<and> l \<le> h_level h) (lg_handlers lg)))"
  using assms by (simp add: log_msg_def handle_log_spec)

definition empty_io :: io where
  "empty_io = \<lparr>io_console = [], io_cwd = [], io_dirs = [[]], io_files = []\<rparr>"

theorem log_writes_once_in_order_witness:
  "content (log_msg (create_logger (\<lambda>r. lr_msg r) Info ''Client'') Info ''connected'' (0 :: int)
     \<lparr>sl_file_name = ''client.cpp'', sl_line = 125, sl_function_name = ''do_connect''\<rparr> empty_io) Console
     = [''connected''] \<and>
   content (log_msg (create_logger (\<lambda>r. lr_msg r) Info ''Client'') Debug ''calling'' (0 :: int)
     \<lparr>sl_file_name = ''client.inl'', sl_line = 19, sl_function_name = ''async_call''\<rparr> empty_io) Console = []"
  using log_writes_once_in_order [of "create_logger (\<lambda>r. lr_msg r) Info ''Client'' :: int logger" Console]
  by (simp add: create_logger_def create_logger_with_def DefaultHandler_def handler_format_def
      less_level_def less_eq_level_def empty_io_def content_def)

subsection \<open>File handlers\<close>

lemma create_opens:
  assumes "FileHandler_create l path to_end f io = Inr (h, io')"
    and "absolute io path \<noteq> []" and "absolute io path \<notin> set (io_dirs io)"
  shows "h_stream h = OpenFile (absolute io path)" "h_level h = l" "h_formatter h = f"
    and "content io' (OpenFile (absolute io path)) =
      (if to_end then content io (OpenFile (absolute io path)) else [])"
proof -
  let ?p = "absolute io path"
  let ?dirs = "prefixes (butlast ?p) @ io_dirs io"
  have mk: "ensure_directory path io = Inr (io\<lparr>io_dirs := ?dirs\<rparr>)"
    using assms(1) by (auto simp: FileHandler_create_def ensure_directory_def create_directories_def
        Let_def split: if_splits)
  have abs: "absolute (io\<lparr>io_dirs := ?dirs\<rparr>) path = ?p" by (cases path) simp_all
  have "?p \<notin> set (prefixes (butlast ?p))"
    using assms(2) prefix_length_le [of ?p "butlast ?p"]
    by (cases ?p) (auto simp: in_set_prefixes simp del: butlast.simps)
  moreover have "butlast ?p \<in> set (prefixes (butlast ?p))" by (simp add: in_set_prefixes)
  ultimately have "open_file to_end path (io\<lparr>io_dirs := ?dirs\<rparr>) = (OpenFile ?p,
      set_file ?p (if to_end then content io (OpenFile ?p) else []) (io\<lparr>io_dirs := ?dirs\<rparr>))"
    using assms(2,3) by (simp add: open_file_def abs file_lines_def content_def Let_def)
  with assms(1) mk have h: "h = \<lparr>h_level = l, h_formatter = f, h_sink = FileSink (OpenFile ?p)\<rparr>"
      "io' = set_file ?p (if to_end then content io (OpenFile ?p) else []) (io\<lparr>io_dirs := ?dirs\<rparr>)"
    by (auto simp: FileHandler_create_def FileHandler_def)
  then show "h_stream h = OpenFile ?p" "h_level h = l" "h_formatter h = f"
    "content io' (OpenFile ?p) = (if to_end then content io (OpenFile ?p) else [])"
    by (simp_all add: content_def set_file_def file_lines_def)
qed

text \<open>A handler made with create has a file to write to, whichever directories were missing,
  and a logger on it puts each message it admits into that file, after the old contents when
  the file was opened to append and alone otherwise. The same handler constructed directly in
  a directory that does not exist loses every message without a sign.\<close>

lemma file_handler_create_writes:
  assumes "absolute io path \<noteq> []" and "absolute io path \<notin> set (io_dirs io)" and "m \<le> l"
  shows "(\<forall>h io'. FileHandler_create l path to_end f io = Inr (h, io') \<longrightarrow>
       content (log_msg (create_logger_with l name [h]) m msg now loc io') (OpenFile (absolute io path)) =
         (if to_end then content io (OpenFile (absolute io path)) else []) @
         [f \<lparr>lr_name = name, lr_level = m, lr_time = now, lr_msg = msg, lr_location = loc\<rparr>]) \<and>
     (butlast (absolute io path) \<notin> set (io_dirs io) \<longrightarrow>
       (\<exists>h. FileHandler l path to_end f io = (h, io) \<and>
         log_msg (create_logger_with l name [h]) m msg now loc io = io))"
proof (intro conjI allI impI)
  fix h io'
  assume "FileHandler_create l path to_end f io = Inr (h, io')"
  note h = create_opens [OF this assms(1,2)]
  show "content (log_msg (create_logger_with l name [h]) m msg now loc io') (OpenFile (absolute io path)) =
      (if to_end then content io (OpenFile (absolute io path)) else []) @
      [f \<lparr>lr_name = name, lr_level = m, lr_time = now, lr_msg = msg, lr_location = loc\<rparr>]"
    using h assms(3) by (simp add: log_msg_def create_logger_with_def emit_eq not_less content_put
        handler_format_def del: put_line.simps)
next
  assume "butlast (absolute io path) \<notin> set (io_dirs io)"
  then show "\<exists>h. FileHandler l path to_end f io = (h, io) \<and>
      log_msg (create_logger_with l name [h]) m msg now loc io = io"
    by (auto simp: FileHandler_def open_file_def Let_def log_msg_def create_logger_with_def emit_eq)
qed

definition sample_location :: source_location where
  "sample_location = \<lparr>sl_file_name = ''server.cpp'', sl_line = 107, sl_function_name = ''Server''\<rparr>"

lemma file_handler_create_writes_witness:
  "\<exists>h io'. FileHandler_create Info (Relative [''log'', ''rpc.txt'']) True (\<lambda>r. lr_msg r) empty_io = Inr (h, io') \<and>
     content (log_msg (create_logger_with Info ''Server'' [h]) Warning ''bye'' (0 :: int) sample_location io')
       (OpenFile [''log'', ''rpc.txt'']) = [''bye''] \<and>
     (\<exists>h'. FileHandler Info (Relative [''log'', ''rpc.txt'']) True (\<lambda>r. lr_msg r) empty_io = (h', empty_io) \<and>
       log_msg (create_logger_with Info ''Server'' [h']) Warning ''bye'' (0 :: int) sample_location empty_io = empty_io)"
proof -
  have 1: "absolute empty_io (Relative [''log'', ''rpc.txt'']) = [''log'', ''rpc.txt'']"
    "[''log'', ''rpc.txt''] \<notin> set (io_dirs empty_io)" "Warning \<le> Info"
    "butlast [''log'', ''rpc.txt''] \<notin> set (io_dirs empty_io)"
    "content empty_io (OpenFile [''log'', ''rpc.txt'']) = []"
    by (simp_all add: empty_io_def less_eq_level_def content_def file_lines_def)
  have "\<exists>h io'. FileHandler_create Info (Relative [''log'', ''rpc.txt'']) True (\<lambda>r. lr_msg r :: string)
      empty_io = Inr (h :: int log_handler, io')"
    by (simp add: FileHandler_create_def ensure_directory_def create_directories_def empty_io_def
        file_lines_def FileHandler_def split_def)
  then show ?thesis
    using file_handler_create_writes [of empty_io "Relative [''log'', ''rpc.txt'']" Warning Info True
        "\<lambda>r. lr_msg r" "''Server''" "''bye''" "0 :: int" sample_location] 1 by auto
qed

end
