(* ===== verification/Spec2Isabelle.thy ===== *)
theory Spec2Isabelle
  imports WorkerFinish TestProgram SubscribeClient SubscribeMany SessionLifetimes Zones TypedCalls Logging
begin

text \<open>
  Verification of rpclib\_practice\_lh, a C++20 remote procedure call library over TCP with
  MessagePack messages (sources under src/, quoted here as include/... and src/... below it).

  \<^bold>\<open>The program.\<close> A client (include/client.h, include/client.inl, src/client.cpp) packs calls
  and notifications, writes them through an AsyncWriter (src/detail/async\_writer.cpp), and
  settles the promise of a call when a Response with its id is read. A server (src/server.cpp)
  accepts connections; each ServerSession (src/detail/server\_session.cpp), itself an
  AsyncWriter, decodes messages, posts each as a job that a worker thread dispatches
  (src/dispatcher.cpp) to a bound function, and writes the Response the Dispatcher and the
  thread-local this\_handler, this\_session and this\_server objects determine. Loggers
  (include/log) are used everywhere and influence nothing.

  \<^bold>\<open>The theories,\<close> from the bottom:
  \<^item> Prelude: byte and integer types, runs of machines, calls that may throw, the interface
    \<open>kept_by_steps\<close> of an invariant that every step keeps. CppFormat: \<open>std::format\<close>.
  \<^item> FuncTraits: include/detail/func\_traits.h, the types of callables and the overload tags.
  \<^item> Msgpack: the msgpack package as a parameter, a record of its functions, with the laws
    \<open>codec_laws\<close>, \<open>view_laws\<close> and \<open>buffer_laws\<close> that theorems assume; MsgpackRef: a codec that
    satisfies them, used by the witnesses only.
  \<^item> Errors, Response, Protocol: the error classes, Response, and the message tuples.
  \<^item> ThisContext, Dispatcher, DispatcherSpec: the thread-local objects; bind, unbind and
    dispatch; one specification \<open>bound_call\<close> for the four overloads of bind, and what dispatch
    does on every branch. The registry is the interface \<open>name_registry\<close>.
  \<^item> AsyncWriter, WriterRuns: the write queue, its step relation with histories, and the
    interface \<open>fifo_channel\<close> that clients and sessions use.
  \<^item> Unpacker: the streaming unpacker as both sides drive it; a stream may be cut anywhere.
  \<^item> ServerSession, SessionRuns, SessionOrder, SessionSpec: the session and its machine;
    no undefined behaviour in any schedule; the specification \<open>serve\<close> (requests served one after
    the other) and the refinement of it by the session; what becomes of one request.
  \<^item> Client, ClientRuns, ClientSpec, ClientCalls, ClientErrors: the client and its machine;
    no undefined behaviour; responses settle their calls; ids, calls before the connection,
    reconnecting, timeouts and duplicate responses.
  \<^item> Rpc: a remote call from the client through the session and back.
  \<^item> SessionWorkers: sessions whose jobs any number of workers take, in any order.
  \<^item> ClientLife: the constructor and destructor of a client, and who answers the futures.
  \<^item> ThreadGroup, Server, ServerRuns, ServerSpec: the threads of a server; accepting, the
    session list, closing, running, stopping and moving, over the sessions' machines; the
    invariants of the list and of the threads; stopping from the application and from a
    handler, and what becomes of a moved server.
  \<^item> ServerOrder, ServerServes: every run of a server, with all its sessions and workers, against
    the specification \<open>serve_all\<close>: one sequence of requests served one after the other on the one
    application state; and that well-formed requests cannot bring it down.
  \<^item> WorkerSteps, WorkerOrder, WorkerServes, WorkerRuns: the read handler and the job of a session
    in the steps between which the handlers of other threads run (\<open>par_machine\<close>); the invariant
    of the threads and what they hold; linearisation, that the requests in the order of their
    dispatch are such a sequence; and that whole handlers are runs of their steps.
  \<^item> ClientAnswers, System, SystemRuns: a client against the calls it has made and the answers it
    has read; clients, network and server as one machine, whose runs refine \<open>serve_all\<close> up to the
    futures of the clients; that this machine never gets stuck; and a run of two clients.
  \<^item> AtRest: nothing gets lost. A write queue, a buffer or a list of kept messages never drops a
    request or an answer, so that a connection with nothing under way has served and answered all.
  \<^item> WorkerFinish: a measure of what a thread has still to do, and that every handler returns.
  \<^item> SessionLifetimes: which handlers keep a session alive, and which can run on one that is gone.
  \<^item> TypedCalls: the values of the parameter types, and that bodies see no others.
  \<^item> Zones: which memory an answer of respond or respond\_error points to when it is packed.
  \<^item> SubscribeServer, SubscribeClient, SubscribeMany: the two example programs, their
    composition, and the server with any number of clients. TestProgram: test/test.cpp.
  \<^item> Logging: levels, records, handlers (console, stream and file), loggers and their moves.

  \<^bold>\<open>How state and effects correspond.\<close> A class is a record with its members; a handler is a
  function from the state to the next state or a \<open>fault\<close>. A \<open>fault\<close> is what the model refuses to
  give a meaning: \<open>front()\<close> of an empty deque, two overlapping writes, a read into too small a
  buffer, or an exception that leaves a handler. Handlers posted on a strand are a list that is
  run from the front, one at a time; completions of Boost.Asio operations are events of the
  environment with arbitrary results. The machines \<open>sess_machine\<close>, \<open>client_machine\<close> and
  \<open>srv_machine\<close> run lists of events, so that a theorem about all event lists is one about all
  interleavings. There a handler runs as one step; jobs may be taken in any order,
  and \<open>single_worker\<close> says that they are taken in the order they were posted. A server has a list
  of threads, each with its own thread-local objects: the application's thread, whose number
  is 0, and the workers of async\_run. Handlers of different sessions run in any order on any
  of them, while the application calls what it likes. In \<open>par_machine\<close> a thread can also be in the
  middle of a handler (\<open>work\<close>): a read handler decodes one object in a step, and a job takes its
  message and resets its thread, dispatches, and posts each of its handlers on the write strand in
  steps of their own, with any handlers of other threads in between, those of the same session
  included. Bound functions are functions of a context (thread-local objects and application
  state) that return or throw; with the state they use they run as one step, as those of the
  example server do under the mutex of its Master.
  In \<open>sys_machine\<close> the network hands each side what the other has put on its wire, in order, in
  pieces of any size and with any delay; an event that would hand over more does nothing.
  Promises and futures are a list of shared states. Log lines are left out of the components.

  \<^bold>\<open>Fuel.\<close> The two decoding loops take the length of the buffer plus one as fuel; every object
  consumes at least a byte, so that \<open>OutOfFuel\<close> is unreachable, which
  \<open>session_only_fault_is_escape\<close> and \<open>client_only_fault_is_escape\<close> show. All other loops are
  structural.

  \<^bold>\<open>What the theorems show.\<close> In the order of the program: a request is answered at most once,
  with its own id, by the result, the error or nothing, as the dispatcher and the handler
  decide, and independently of earlier requests; the writer is a queue; a session never sends
  anything but a prefix of the answers in request order, and all of them if nothing fails; a
  client matches responses to calls; joined, every future gets the outcome of its own call;
  the server's list holds every open session, and stop joins every worker; several workers at
  the same time change the order of the answers and nothing else, and none of their handlers hangs. Put together, every run of clients and a
  server is one sequence of requests served one after the other, and each future is pending or
  has the outcome of the answer to its own call in that sequence; and once nothing is under way on a
  connection, all its requests have been served and every answer has reached its future. Theorems whose text speaks of something lost,
  stalled or escaping record behaviour of the code that its comments or its evident purpose
  contradict.

  \<^bold>\<open>Not modelled.\<close> msgpack and Boost.Asio (parameters and events); sockets and name resolution;
  data races, and interleavings inside a bound function or inside the short handlers that run as
  a whole (accepting, the write strand, completed writes, closing); the owning constructor and the
  moves of StreamHandler, which cannot be instantiated; the version numbers, which nothing uses.
  Answers come in the order of the requests only with one worker, as the program promises no
  more; with several it is the order in which they were posted.
\<close>

end
